(* ===== verification/Prelude.thy ===== *)
theory Prelude
  imports Main "HOL-Library.Word" "HOL-Library.Multiset"
begin

text \<open>
  The prelude of the development. It fixes the machine types of the kernel's C
  (32-bit and 8-bit words), the outcomes a kernel operation can have beside
  returning (a \<open>panic\<close>, a C undefined behaviour, a sleep on a channel, a loop that
  never stops), the state-and-fault monad in which every stateful operation is
  written, and the byte memory with its little-endian 32-bit accesses.
\<close>

unbundle bit_operations_syntax

named_theorems kop_simps \<open>equations that run kernel operations\<close>
named_theorems mem_simps \<open>reads after writes on the byte memory\<close>

section \<open>Machine types\<close>

type_synonym u8 = "8 word"
type_synonym u16 = "16 word"
type_synonym u32 = "32 word"
type_synonym addr = u32
type_synonym memory = "addr \<Rightarrow> u8"
type_synonym cstr = "nat \<Rightarrow> u8"

section \<open>Channels and faults\<close>

text \<open>
  A channel is the address a process sleeps on. The kernel uses the addresses of
  its own objects, so a channel is named by the object.
\<close>

datatype chan =
    NoChan
  | ChProc nat
  | ChTicks
  | ChBuf nat
  | ChInode nat
  | ChPipeRead addr
  | ChPipeWrite addr
  | ChInput
  | ChSem nat

text \<open>
  \<open>Panic\<close> carries the message of the source's call to \<open>panic\<close>, \<open>Undef\<close> names an
  access the C standard leaves undefined, \<open>DivZero\<close> is the divide-error trap,
  \<open>Sleep\<close> is the suspension of the current process, and \<open>Diverge\<close> is a loop whose
  exit test can no longer succeed.
\<close>

datatype fault =
    Panic string
  | Undef string
  | DivZero
  | Sleep chan
  | Diverge

section \<open>Kernel operations\<close>

type_synonym ('s, 'a) kop = "'s \<Rightarrow> fault + ('a \<times> 's)"

definition kret :: "'a \<Rightarrow> ('s, 'a) kop" where
  "kret x = (\<lambda>s. Inr (x, s))"

definition kfail :: "fault \<Rightarrow> ('s, 'a) kop" where
  "kfail e = (\<lambda>s. Inl e)"

definition kget :: "('s \<Rightarrow> 'a) \<Rightarrow> ('s, 'a) kop" where
  "kget f = (\<lambda>s. Inr (f s, s))"

definition kmod :: "('s \<Rightarrow> 's) \<Rightarrow> ('s, unit) kop" where
  "kmod f = (\<lambda>s. Inr ((), f s))"

definition kbind :: "('s, 'a) kop \<Rightarrow> ('a \<Rightarrow> ('s, 'b) kop) \<Rightarrow> ('s, 'b) kop" where
  "kbind m f = (\<lambda>s. case m s of Inl e \<Rightarrow> Inl e | Inr (x, t) \<Rightarrow> f x t)"

definition kwhen :: "bool \<Rightarrow> ('s, unit) kop \<Rightarrow> ('s, unit) kop" where
  "kwhen b m = (if b then m else kret ())"

primrec kfor :: "'a list \<Rightarrow> ('a \<Rightarrow> ('s, unit) kop) \<Rightarrow> ('s, unit) kop" where
  "kfor [] f = kret ()"
| "kfor (x # xs) f = kbind (f x) (\<lambda>_. kfor xs f)"

lemma kret_run [simp, kop_simps]: "kret x s = Inr (x, s)"
  by (simp add: kret_def)

lemma kfail_run [simp, kop_simps]: "kfail e s = Inl e"
  by (simp add: kfail_def)

lemma kget_run [simp, kop_simps]: "kget f s = Inr (f s, s)"
  by (simp add: kget_def)

lemma kmod_run [simp, kop_simps]: "kmod f s = Inr ((), f s)"
  by (simp add: kmod_def)

lemma kbind_Inr [simp, kop_simps]: "m s = Inr (x, t) \<Longrightarrow> kbind m f s = f x t"
  by (simp add: kbind_def)

lemma kbind_Inl [simp, kop_simps]: "m s = Inl e \<Longrightarrow> kbind m f s = Inl e"
  by (simp add: kbind_def)

lemma kwhen_run [simp, kop_simps]:
  "kwhen True m = m" "kwhen False m = kret ()"
  by (simp_all add: kwhen_def)

lemma kbind_Inr_iff:
  "kbind m f s = Inr (y, u) \<longleftrightarrow> (\<exists>x t. m s = Inr (x, t) \<and> f x t = Inr (y, u))"
  by (auto simp: kbind_def split: sum.splits prod.splits)

lemma kbind_assoc: "kbind (kbind m f) g = kbind m (\<lambda>x. kbind (f x) g)"
  by (auto simp: kbind_def fun_eq_iff split: sum.splits)

lemma kbind_InrE:
  assumes "kbind m f s = Inr (y, u)"
  obtains x t where "m s = Inr (x, t)" and "f x t = Inr (y, u)"
  using assms unfolding kbind_Inr_iff by blast

text \<open>
  An operation keeps a state predicate when every normal return from a state that
  satisfies it does; it is total on it when it always returns normally.
\<close>

definition keeps :: "('s \<Rightarrow> bool) \<Rightarrow> ('s, 'a) kop \<Rightarrow> bool" where
  "keeps I m \<longleftrightarrow> (\<forall>s x t. I s \<longrightarrow> m s = Inr (x, t) \<longrightarrow> I t)"

lemma keepsI: "(\<And>s x t. I s \<Longrightarrow> m s = Inr (x, t) \<Longrightarrow> I t) \<Longrightarrow> keeps I m"
  by (auto simp: keeps_def)

lemma keepsD: "keeps I m \<Longrightarrow> I s \<Longrightarrow> m s = Inr (x, t) \<Longrightarrow> I t"
  by (auto simp: keeps_def)

lemma keeps_kret [intro!, simp]: "keeps I (kret x)"
  by (simp add: keeps_def)

lemma keeps_kfail [intro!, simp]: "keeps I (kfail e)"
  by (simp add: keeps_def)

lemma keeps_kget [intro!, simp]: "keeps I (kget f)"
  by (simp add: keeps_def)

lemma keeps_kmod: "(\<And>s. I s \<Longrightarrow> I (f s)) \<Longrightarrow> keeps I (kmod f)"
  by (simp add: keeps_def)

lemma keeps_kbind [intro]: "keeps I m \<Longrightarrow> (\<And>x. keeps I (f x)) \<Longrightarrow> keeps I (kbind m f)"
  unfolding keeps_def kbind_Inr_iff by blast

lemma keeps_if [intro]:
  "(b \<Longrightarrow> keeps I m) \<Longrightarrow> (\<not> b \<Longrightarrow> keeps I n) \<Longrightarrow> keeps I (if b then m else n)"
  by simp

lemma keeps_kwhen [intro]: "(b \<Longrightarrow> keeps I m) \<Longrightarrow> keeps I (kwhen b m)"
  by (simp add: kwhen_def)

lemma keeps_case_option [intro]:
  "keeps I m \<Longrightarrow> (\<And>y. keeps I (f y)) \<Longrightarrow> keeps I (case x of None \<Rightarrow> m | Some y \<Rightarrow> f y)"
  by (simp split: option.split)

lemma keeps_kfor [intro]: "(\<And>x. x \<in> set xs \<Longrightarrow> keeps I (f x)) \<Longrightarrow> keeps I (kfor xs f)"
  by (induction xs) (simp_all add: keeps_kbind)

section \<open>Byte memory\<close>

text \<open>A \<open>uint\<close> in memory is four bytes, the least significant first.\<close>

definition load32 :: "memory \<Rightarrow> addr \<Rightarrow> u32" where
  "load32 m a = ucast (m a) OR push_bit 8 (ucast (m (a + 1)))
     OR push_bit 16 (ucast (m (a + 2))) OR push_bit 24 (ucast (m (a + 3)))"

definition store32 :: "memory \<Rightarrow> addr \<Rightarrow> u32 \<Rightarrow> memory" where
  "store32 m a v = m(a := ucast v, a + 1 := ucast (drop_bit 8 v),
     a + 2 := ucast (drop_bit 16 v), a + 3 := ucast (drop_bit 24 v))"

definition aligned4 :: "addr \<Rightarrow> bool" where
  "aligned4 a \<longleftrightarrow> unat a mod 4 = 0"

definition page_aligned :: "addr \<Rightarrow> bool" where
  "page_aligned a \<longleftrightarrow> unat a mod 4096 = 0"

definition page_no :: "addr \<Rightarrow> nat" where
  "page_no a = unat a div 4096"

lemma aligned4_0 [simp]: "aligned4 0"
  by (simp add: aligned4_def)

lemma page_aligned_0 [simp]: "page_aligned 0"
  by (simp add: page_aligned_def)

lemma page_aligned_aligned4: "page_aligned a \<Longrightarrow> aligned4 a"
  unfolding page_aligned_def aligned4_def
  using mod_mod_cancel [of 4 4096 "unat a"] by simp

lemma unat_lt_2p32: "unat (a :: u32) < 4294967296"
  using unsigned_less [of a] by simp

lemma unat_add_aligned4:
  assumes "aligned4 a"
  shows "unat (a + 1) = unat a + 1" "unat (a + 2) = unat a + 2" "unat (a + 3) = unat a + 3"
proof -
  have "unat a + 3 < 4294967296"
    using assms unat_lt_2p32 [of a] unfolding aligned4_def by arith
  then show "unat (a + 1) = unat a + 1" "unat (a + 2) = unat a + 2" "unat (a + 3) = unat a + 3"
    by (simp_all add: unat_word_ariths)
qed

lemma aligned4_offsets_neq:
  assumes "aligned4 a" "aligned4 b" "a \<noteq> b"
  shows "a + 1 \<noteq> b" "a + 2 \<noteq> b" "a + 3 \<noteq> b"
    "a + 1 \<noteq> b + 2" "a + 1 \<noteq> b + 3" "a + 2 \<noteq> b + 1" "a + 2 \<noteq> b + 3"
    "a + 3 \<noteq> b + 1" "a + 3 \<noteq> b + 2"
    "a \<noteq> b + 1" "a \<noteq> b + 2" "a \<noteq> b + 3"
proof -
  note u = unat_add_aligned4 [OF assms(1)] unat_add_aligned4 [OF assms(2)]
  obtain k l where k: "unat a = 4 * k" "unat b = 4 * l"
    using assms unfolding aligned4_def by (metis mod_0_imp_dvd dvdE)
  moreover have "unat a \<noteq> unat b"
    using assms by (simp add: word_unat_eq_iff)
  ultimately have n: "k \<noteq> l"
    by auto
  show "a + 1 \<noteq> b" "a + 2 \<noteq> b" "a + 3 \<noteq> b"
    "a + 1 \<noteq> b + 2" "a + 1 \<noteq> b + 3" "a + 2 \<noteq> b + 1" "a + 2 \<noteq> b + 3"
    "a + 3 \<noteq> b + 1" "a + 3 \<noteq> b + 2"
    "a \<noteq> b + 1" "a \<noteq> b + 2" "a \<noteq> b + 3"
    unfolding word_unat_eq_iff u k using n by arith+
qed

lemma load32_cong:
  "m a = m' a \<Longrightarrow> m (a + 1) = m' (a + 1) \<Longrightarrow> m (a + 2) = m' (a + 2) \<Longrightarrow> m (a + 3) = m' (a + 3) \<Longrightarrow>
   load32 m a = load32 m' a"
  by (simp add: load32_def)

lemma load32_store32_same [simp, mem_simps]: "load32 (store32 m a v) a = v"
proof (rule bit_word_eqI)
  fix n assume "n < LENGTH(32)"
  then have n: "n < 32" by simp
  consider "n < 8" | "8 \<le> n" "n < 16" | "16 \<le> n" "n < 24" | "24 \<le> n"
    by linarith
  then show "bit (load32 (store32 m a v) a) n = bit v n"
    by cases (use n in \<open>auto simp: load32_def store32_def bit_or_iff bit_push_bit_iff
      bit_ucast_iff bit_drop_bit_eq\<close>)
qed

lemma load32_store32_other [mem_simps]:
  "aligned4 a \<Longrightarrow> aligned4 b \<Longrightarrow> a \<noteq> b \<Longrightarrow> load32 (store32 m b v) a = load32 m a"
  using aligned4_offsets_neq [of a b] by (intro load32_cong) (auto simp: store32_def)

lemma page_no_offsets:
  assumes "aligned4 a"
  shows "page_no (a + 1) = page_no a" "page_no (a + 2) = page_no a" "page_no (a + 3) = page_no a"
proof -
  have d: "n div 4096 = n div 4 div 1024" for n :: nat
    by (simp add: div_mult2_eq [symmetric])
  obtain k where k: "unat a = 4 * k"
    using assms unfolding aligned4_def by (metis mod_0_imp_dvd dvdE)
  have r: "(unat a + 1) div 4 = unat a div 4" "(unat a + 2) div 4 = unat a div 4"
    "(unat a + 3) div 4 = unat a div 4"
    unfolding k by simp_all
  show "page_no (a + 1) = page_no a" "page_no (a + 2) = page_no a"
    "page_no (a + 3) = page_no a"
    unfolding page_no_def unat_add_aligned4 [OF assms] d r by (rule refl)+
qed

lemma store32_other_page [mem_simps]:
  "aligned4 a \<Longrightarrow> page_no b \<noteq> page_no a \<Longrightarrow> store32 m a v b = m b"
  using page_no_offsets [of a] by (auto simp: store32_def)

lemma load32_other_page:
  assumes "aligned4 a" "\<And>b. page_no b = page_no a \<Longrightarrow> m b = m' b"
  shows "load32 m a = load32 m' a"
  using assms by (intro load32_cong) (simp_all add: page_no_offsets)

lemma page_aligned_eq_iff:
  "page_aligned a \<Longrightarrow> page_aligned b \<Longrightarrow> page_no a = page_no b \<longleftrightarrow> a = b"
  unfolding page_aligned_def page_no_def word_unat_eq_iff
  by (metis mult_div_mod_eq add.right_neutral)

lemma page_alignedE:
  assumes "page_aligned p"
  obtains k where "unat p = 4096 * k"
proof -
  have "4096 dvd unat p" using assms unfolding page_aligned_def by (rule mod_0_imp_dvd)
  then show ?thesis using that by (auto elim: dvdE)
qed

lemma in_page_iff:
  assumes "page_aligned p"
  shows "unat (a - p) < 4096 \<longleftrightarrow> page_no a = page_no p"
proof -
  obtain k where k: "unat p = 4096 * k"
    using assms by (rule page_alignedE)
  have "k < 1048576"
    using unat_lt_2p32 [of p] unfolding k by linarith
  then have kb: "4096 * k + 4096 \<le> 4294967296"
    by linarith
  show ?thesis
  proof (cases "unat p \<le> unat a")
    case True
    then obtain d where d: "unat a = 4096 * k + d"
      unfolding k using le_iff_add by blast
    then have "unat (a - p) = d"
      by (simp add: unat_sub_if' k)
    then show ?thesis
      unfolding page_no_def k d by (simp add: div_eq_0_iff)
  next
    case False
    then have "unat (a - p) = unat a + 4294967296 - 4096 * k"
      by (simp add: unat_sub_if' k)
    then have "\<not> unat (a - p) < 4096"
      using kb by linarith
    moreover have "unat a div 4096 < k"
      using False unfolding k by (simp add: less_mult_imp_div_less mult.commute)
    ultimately show ?thesis
      unfolding page_no_def k by simp
  qed
qed

section \<open>Generic list lemmas\<close>

lemma map_upd_nth_same [simp]: "i < length xs \<Longrightarrow> xs[i := xs ! i] = xs"
  by simp

lemma mset_take_drop_Suc:
  assumes "i < length xs"
  shows "mset xs = add_mset (xs ! i) (mset (take i xs @ drop (Suc i) xs))"
  by (subst id_take_nth_drop [OF assms]) simp

lemma distinct_take_drop_Suc:
  assumes "distinct xs" "i < length xs"
  shows "distinct (take i xs @ drop (Suc i) xs)"
    and "xs ! i \<notin> set (take i xs @ drop (Suc i) xs)"
proof -
  have "distinct (take i xs @ xs ! i # drop (Suc i) xs)"
    using assms id_take_nth_drop [of i xs] by simp
  then show "distinct (take i xs @ drop (Suc i) xs)"
    and "xs ! i \<notin> set (take i xs @ drop (Suc i) xs)"
    by auto
qed

end
