(* ===== verification/Spinlock.thy ===== *)
theory Spinlock
  imports Prelude
begin

text \<open>
  Spin locks, \<open>kernel/spinlock.c\<close>, on several processors. The functions \<open>pushcli\<close>,
  \<open>popcli\<close>, \<open>holding\<close> and the pieces of \<open>acquire\<close> and \<open>release\<close> between two accesses to
  shared memory are definitions; a step relation interleaves them, one processor at
  a time. The call stack recorded for debugging (\<open>pcs\<close>) is not modelled.
\<close>

section \<open>Model\<close>

record cpu =
  ncli :: int
  intena :: bool
  ifl :: bool

record spinlock =
  locked :: bool
  lk_cpu :: "nat option"

definition initlock :: spinlock where
  "initlock = \<lparr>locked = False, lk_cpu = None\<rparr>"

text \<open>\<open>ifl\<close> is the interrupt flag of the processor, which \<open>cli\<close> clears and \<open>sti\<close> sets.\<close>

definition pushcli :: "cpu \<Rightarrow> cpu" where
  "pushcli c = c\<lparr>ifl := False, ncli := ncli c + 1, intena := (if ncli c = 0 then ifl c else intena c)\<rparr>"

definition popcli :: "cpu \<Rightarrow> fault + cpu" where
  "popcli c =
     (if ifl c then Inl (Panic ''popcli - interruptible'')
      else let n = ncli c - 1 in
        if n < 0 then Inl (Panic ''popcli'')
        else if n = 0 \<and> intena c then Inr (c\<lparr>ncli := n, ifl := True\<rparr>)
        else Inr (c\<lparr>ncli := n\<rparr>))"

definition holding :: "nat \<Rightarrow> spinlock \<Rightarrow> bool" where
  "holding c lk \<longleftrightarrow> locked lk \<and> lk_cpu lk = Some c"

text \<open>\<open>acquire\<close>: the entry up to the loop, one round of the loop (\<open>xchg\<close> returns the old
  value), and the recording of the holder after the loop.\<close>

definition acquire_enter :: "nat \<Rightarrow> cpu \<Rightarrow> spinlock \<Rightarrow> fault + cpu" where
  "acquire_enter c u lk = (if holding c lk then Inl (Panic ''acquire'') else Inr (pushcli u))"

definition xchg :: "spinlock \<Rightarrow> bool \<Rightarrow> bool \<times> spinlock" where
  "xchg lk v = (locked lk, lk\<lparr>locked := v\<rparr>)"

definition acquire_record :: "nat \<Rightarrow> spinlock \<Rightarrow> spinlock" where
  "acquire_record c lk = lk\<lparr>lk_cpu := Some c\<rparr>"

text \<open>\<open>release\<close>: the check and the clearing of the holder, before the \<open>xchg\<close>.\<close>

definition release_enter :: "nat \<Rightarrow> spinlock \<Rightarrow> fault + spinlock" where
  "release_enter c lk = (if holding c lk then Inr (lk\<lparr>lk_cpu := None\<rparr>) else Inl (Panic ''release''))"

section \<open>Interleaving\<close>

text \<open>Where a processor is with respect to the lock.\<close>

datatype lpc = Out | Spinning | Got | Critical | Clearing | Popping | Panicked

record lock_st =
  cpus :: "nat \<Rightarrow> cpu"
  lock :: spinlock
  pc :: "nat \<Rightarrow> lpc"

definition goto :: "nat \<Rightarrow> lpc \<Rightarrow> lock_st \<Rightarrow> lock_st" where
  "goto c l s = s\<lparr>pc := (pc s)(c := l)\<rparr>"

definition with_cpu :: "nat \<Rightarrow> cpu \<Rightarrow> lock_st \<Rightarrow> lock_st" where
  "with_cpu c u s = s\<lparr>cpus := (cpus s)(c := u)\<rparr>"

inductive lock_step :: "lock_st \<Rightarrow> lock_st \<Rightarrow> bool" where
  interrupts: "pc s c = Out \<Longrightarrow> ncli (cpus s c) = 0 \<Longrightarrow>
     lock_step s (with_cpu c ((cpus s c)\<lparr>ifl := b\<rparr>) s)"
| enter: "pc s c = Out \<Longrightarrow> acquire_enter c (cpus s c) (lock s) = Inr u \<Longrightarrow>
     lock_step s (goto c Spinning (with_cpu c u s))"
| enter_panic: "pc s c = Out \<Longrightarrow> acquire_enter c (cpus s c) (lock s) = Inl e \<Longrightarrow>
     lock_step s (goto c Panicked s)"
| spin: "pc s c = Spinning \<Longrightarrow> xchg (lock s) True = (old, lk) \<Longrightarrow>
     lock_step s (goto c (if old then Spinning else Got) (s\<lparr>lock := lk\<rparr>))"
| record_cpu: "pc s c = Got \<Longrightarrow> lock_step s (goto c Critical (s\<lparr>lock := acquire_record c (lock s)\<rparr>))"
| leave: "pc s c = Critical \<Longrightarrow> release_enter c (lock s) = Inr lk \<Longrightarrow>
     lock_step s (goto c Clearing (s\<lparr>lock := lk\<rparr>))"
| leave_panic: "pc s c = Critical \<Longrightarrow> release_enter c (lock s) = Inl e \<Longrightarrow>
     lock_step s (goto c Panicked s)"
| clear: "pc s c = Clearing \<Longrightarrow> lock_step s (goto c Popping (s\<lparr>lock := snd (xchg (lock s) False)\<rparr>))"
| pop: "pc s c = Popping \<Longrightarrow> popcli (cpus s c) = Inr u \<Longrightarrow>
     lock_step s (goto c Out (with_cpu c u s))"
| pop_panic: "pc s c = Popping \<Longrightarrow> popcli (cpus s c) = Inl e \<Longrightarrow> lock_step s (goto c Panicked s)"

inductive lock_reachable :: "lock_st \<Rightarrow> bool" where
  boot: "\<forall>c. ncli (cs c) = 0 \<Longrightarrow> lock_reachable \<lparr>cpus = cs, lock = initlock, pc = (\<lambda>_. Out)\<rparr>"
| next_step: "lock_reachable s \<Longrightarrow> lock_step s t \<Longrightarrow> lock_reachable t"

text \<open>A processor owns the lock from a successful \<open>xchg\<close> in \<open>acquire\<close> to the one in
  \<open>release\<close>.\<close>

definition owns :: "lpc \<Rightarrow> bool" where
  "owns l \<longleftrightarrow> l = Got \<or> l = Critical \<or> l = Clearing"

definition lock_inv :: "lock_st \<Rightarrow> bool" where
  "lock_inv s \<longleftrightarrow>
     (\<forall>c d. owns (pc s c) \<longrightarrow> owns (pc s d) \<longrightarrow> c = d)
     \<and> (locked (lock s) \<longleftrightarrow> (\<exists>c. owns (pc s c)))
     \<and> (\<forall>c. lk_cpu (lock s) = Some c \<longleftrightarrow> pc s c = Critical)
     \<and> (\<forall>c. pc s c \<noteq> Panicked)
     \<and> (\<forall>c. ncli (cpus s c) = (if pc s c = Out then 0 else 1) \<and> (pc s c \<noteq> Out \<longrightarrow> \<not> ifl (cpus s c)))"

lemma owns_simps [simp]:
  "owns Got" "owns Critical" "owns Clearing" "\<not> owns Out" "\<not> owns Spinning" "\<not> owns Popping" "\<not> owns Panicked"
  by (simp_all add: owns_def)

text \<open>The part of the invariant about the lock, for a processor that changes its place.\<close>

definition lock_part :: "spinlock \<Rightarrow> (nat \<Rightarrow> lpc) \<Rightarrow> bool" where
  "lock_part lk f \<longleftrightarrow> (\<forall>c d. owns (f c) \<longrightarrow> owns (f d) \<longrightarrow> c = d) \<and> (locked lk \<longleftrightarrow> (\<exists>c. owns (f c)))
     \<and> (\<forall>c. lk_cpu lk = Some c \<longleftrightarrow> f c = Critical)"

definition cpu_part :: "(nat \<Rightarrow> cpu) \<Rightarrow> (nat \<Rightarrow> lpc) \<Rightarrow> bool" where
  "cpu_part cs f \<longleftrightarrow> (\<forall>c. f c \<noteq> Panicked)
     \<and> (\<forall>c. ncli (cs c) = (if f c = Out then 0 else 1) \<and> (f c \<noteq> Out \<longrightarrow> \<not> ifl (cs c)))"

lemma lock_inv_parts: "lock_inv s \<longleftrightarrow> lock_part (lock s) (pc s) \<and> cpu_part (cpus s) (pc s)"
  by (auto simp: lock_inv_def lock_part_def cpu_part_def)

lemma lock_part_same:
  "lock_part lk f \<Longrightarrow> \<not> owns (f c) \<Longrightarrow> \<not> owns l \<Longrightarrow> lock_part lk (f(c := l))"
  unfolding lock_part_def by (auto simp: owns_def)

lemma lock_part_take:
  "lock_part lk f \<Longrightarrow> \<not> locked lk \<Longrightarrow> lock_part (lk\<lparr>locked := True\<rparr>) (f(c := Got))"
  unfolding lock_part_def by (auto simp: owns_def)

lemma lock_part_owner:
  assumes "lock_part lk f" "owns (f c)"
  shows "lock_part (lk\<lparr>lk_cpu := Some c\<rparr>) (f(c := Critical))" "lock_part (lk\<lparr>lk_cpu := None\<rparr>) (f(c := Clearing))"
proof -
  have o: "\<not> owns (f d)" if "d \<noteq> c" for d
    using assms that by (auto simp: lock_part_def)
  have "locked lk" "f d \<noteq> Critical" if "d \<noteq> c" for d
    using assms o [OF that] by (auto simp: lock_part_def)
  then show "lock_part (lk\<lparr>lk_cpu := Some c\<rparr>) (f(c := Critical))" "lock_part (lk\<lparr>lk_cpu := None\<rparr>) (f(c := Clearing))"
    using assms o by (auto simp: lock_part_def)
qed

lemma lock_part_clear:
  assumes "lock_part lk f" "f c = Clearing"
  shows "lock_part (lk\<lparr>locked := False\<rparr>) (f(c := Popping))"
proof -
  have o: "\<not> owns (f d)" if "d \<noteq> c" for d
    using assms that unfolding lock_part_def by (metis owns_simps(3))
  then have "f d \<noteq> Critical" for d
    using assms(2) by (cases "d = c") (auto simp: owns_def)
  then show ?thesis
    using assms o by (auto simp: lock_part_def)
qed

lemma lock_inv_step: "lock_step s t \<Longrightarrow> lock_inv s \<Longrightarrow> lock_inv t"
proof (induction rule: lock_step.induct)
  case (interrupts s c b)
  then show ?case by (simp add: lock_inv_parts with_cpu_def cpu_part_def)
next
  case (enter s c u)
  then show ?case
    by (auto simp: lock_inv_parts with_cpu_def goto_def acquire_enter_def pushcli_def cpu_part_def
        intro: lock_part_same split: if_splits)
next
  case (enter_panic s c e)
  then have "holding c (lock s)" by (simp add: acquire_enter_def split: if_splits)
  with enter_panic show ?case by (auto simp: lock_inv_def holding_def)
next
  case (spin s c old lk)
  then have lk: "old = locked (lock s)" "lk = (lock s)\<lparr>locked := True\<rparr>"
    by (simp_all add: xchg_def)
  show ?case
  proof (cases "locked (lock s)")
    case True
    then have "lk = lock s" by (simp add: lk(2))
    then show ?thesis
      using spin lk(1) True by (auto simp: lock_inv_parts goto_def cpu_part_def intro: lock_part_same)
  next
    case False
    then show ?thesis
      using spin lk by (auto simp: lock_inv_parts goto_def cpu_part_def intro: lock_part_take)
  qed
next
  case (record_cpu s c)
  then show ?case
    by (auto simp: lock_inv_parts goto_def acquire_record_def cpu_part_def intro: lock_part_owner(1))
next
  case (leave s c lk)
  then show ?case
    by (auto simp: lock_inv_parts goto_def release_enter_def cpu_part_def intro: lock_part_owner(2) split: if_splits)
next
  case (leave_panic s c e)
  then have "holding c (lock s)"
    unfolding lock_inv_parts lock_part_def holding_def by (metis owns_simps(2))
  with leave_panic show ?case by (simp add: release_enter_def)
next
  case (clear s c)
  then show ?case
    by (auto simp: lock_inv_parts goto_def xchg_def cpu_part_def intro: lock_part_clear)
next
  case (pop s c u)
  then show ?case
    by (auto simp: lock_inv_parts with_cpu_def goto_def popcli_def cpu_part_def Let_def
        intro: lock_part_same split: if_splits)
next
  case (pop_panic s c e)
  then have "ncli (cpus s c) = 1" "\<not> ifl (cpus s c)" by (auto simp: lock_inv_def)
  with pop_panic show ?case by (simp add: popcli_def split: if_splits)
qed

lemma lock_reachable_inv: "lock_reachable s \<Longrightarrow> lock_inv s"
proof (induction rule: lock_reachable.induct)
  case (boot cs)
  then show ?case by (simp add: lock_inv_def initlock_def owns_def)
next
  case (next_step s t)
  then show ?case by (blast intro: lock_inv_step)
qed

section \<open>Properties\<close>

text \<open>
  C19. Mutual exclusion. In every reachable interleaving of any number of processors
  that use the lock, at most one is in its critical section; while one is, the lock
  records it as the holder and its interrupts are off; and no run of \<open>acquire\<close> or
  \<open>release\<close> panics.
\<close>

theorem mutual_exclusion:
  assumes "lock_reachable s"
  shows "(pc s c = Critical \<and> pc s d = Critical \<longrightarrow> c = d)
    \<and> (pc s c = Critical \<longrightarrow> locked (lock s) \<and> holding c (lock s) \<and> \<not> ifl (cpus s c))
    \<and> pc s c \<noteq> Panicked"
  using lock_reachable_inv [OF assms] by (auto simp: lock_inv_def owns_def holding_def)

theorem mutual_exclusion_witness:
  "\<exists>s. lock_reachable s \<and> pc s 0 = Critical \<and> \<not> ifl (cpus s 0) \<and> pc s 1 \<noteq> Panicked"
proof -
  let ?u = "\<lparr>ncli = 0, intena = False, ifl = True\<rparr>"
  let ?s0 = "\<lparr>cpus = (\<lambda>_. ?u), lock = initlock, pc = (\<lambda>_. Out)\<rparr>"
  let ?s1 = "goto 0 Spinning (with_cpu 0 (pushcli ?u) ?s0)"
  let ?s2 = "goto 0 Got (?s1\<lparr>lock := snd (xchg (lock ?s1) True)\<rparr>)"
  let ?s3 = "goto 0 Critical (?s2\<lparr>lock := acquire_record 0 (lock ?s2)\<rparr>)"
  have r0: "lock_reachable ?s0" by (rule boot) simp
  have "lock_step ?s0 ?s1"
    by (rule enter) (simp_all add: acquire_enter_def holding_def initlock_def)
  from next_step [OF r0 this] have r1: "lock_reachable ?s1" .
  have "lock_step ?s1 ?s2"
    using spin [of ?s1 0 False "snd (xchg (lock ?s1) True)"]
    by (simp add: goto_def with_cpu_def xchg_def initlock_def)
  from next_step [OF r1 this] have r2: "lock_reachable ?s2" .
  have "lock_step ?s2 ?s3"
    by (rule record_cpu) (simp add: goto_def)
  from next_step [OF r2 this] have r3: "lock_reachable ?s3" .
  then show ?thesis
    using mutual_exclusion [OF r3, of 0 1] mutual_exclusion [OF r3, of 1 1]
    by (intro exI [of _ ?s3]) (simp add: goto_def)
qed

text \<open>
  C38. \<open>pushcli\<close> and \<open>popcli\<close> are matched: a \<open>popcli\<close> after a \<open>pushcli\<close> never panics and
  restores the nesting depth and the interrupt flag, and inside an outer pair it
  leaves interrupts off.
\<close>

theorem popcli_pushcli:
  assumes "0 \<le> ncli c" "0 < ncli c \<longrightarrow> \<not> ifl c"
  shows "\<exists>u. popcli (pushcli c) = Inr u \<and> ncli u = ncli c \<and> ifl u = ifl c
     \<and> (0 < ncli c \<longrightarrow> intena u = intena c)"
  using assms by (auto simp: popcli_def pushcli_def Let_def)

theorem popcli_pushcli_witness:
  "\<exists>u. popcli (pushcli \<lparr>ncli = 0, intena = False, ifl = True\<rparr>) = Inr u \<and> ncli u = 0 \<and> ifl u"
  using popcli_pushcli [of "\<lparr>ncli = 0, intena = False, ifl = True\<rparr>"] by simp

end
