(* ===== verification/Rand.thy ===== *)
theory Rand
  imports Prelude
begin

text \<open>
  The pseudo-random generator of \<open>kernel/rand.c\<close>: Marsaglia's xorshift on a 32-bit
  state word. The generator is a permutation of the state space, so a non-zero
  state never becomes zero, and its results are the numbers below
  \<open>XV6_RAND_MAX\<close>.
\<close>

section \<open>Model\<close>

definition XV6_RAND_MAX :: u32 where
  "XV6_RAND_MAX = 2147483647"

record rand_st =
  rand_seed :: u32

definition xorshift :: "u32 \<Rightarrow> u32" where
  "xorshift x0 =
     (let x1 = x0 XOR push_bit 13 x0;
          x2 = x1 XOR drop_bit 17 x1
      in x2 XOR push_bit 5 x2)"

definition xv6_rand :: "('z rand_st_scheme, int) kop" where
  "xv6_rand s =
     (let x = xorshift (rand_seed s)
      in Inr (uint (x mod XV6_RAND_MAX), s\<lparr>rand_seed := x\<rparr>))"

definition xv6_srand :: "u32 \<Rightarrow> ('z rand_st_scheme, unit) kop" where
  "xv6_srand seed = kmod (\<lambda>s. s\<lparr>rand_seed := seed\<rparr>)"

section \<open>The generator is a permutation\<close>

text \<open>
  Each of the three assignments is \<open>x ^= shift x\<close>: a bit of the result determines
  the bit of the argument once the bits the shift moves onto it are known, from the
  lowest bit up for a left shift and from the highest down for a right shift.
\<close>

lemma inj_xor_push_bit:
  fixes x y :: u32
  assumes "0 < k" and eq: "x XOR push_bit k x = y XOR push_bit k y"
  shows "x = y"
proof -
  have step: "bit (x XOR push_bit k x) n = bit (y XOR push_bit k y) n" for n
    by (simp only: eq)
  have "n < 32 \<longrightarrow> bit x n = bit y n" for n
  proof (induction n rule: less_induct)
    case (less n)
    show ?case
      using less[of "n - k"] step[of n] \<open>0 < k\<close>
      by (auto simp: bit_xor_iff bit_push_bit_iff)
  qed
  then show ?thesis by (auto intro: bit_word_eqI)
qed

lemma inj_xor_drop_bit:
  fixes x y :: u32
  assumes "0 < k" and eq: "x XOR drop_bit k x = y XOR drop_bit k y"
  shows "x = y"
proof -
  have step: "bit (x XOR drop_bit k x) n = bit (y XOR drop_bit k y) n" for n
    by (simp only: eq)
  have "32 - m \<le> n \<longrightarrow> bit x m = bit y m" for n m
  proof (induction n arbitrary: m)
    case 0
    then show ?case by (auto dest: bit_imp_le_length)
  next
    case (Suc n)
    then show ?case
      using step[of m] Suc[of "k + m"] \<open>0 < k\<close>
      by (cases "m < 32") (auto simp: bit_xor_iff bit_drop_bit_eq dest: bit_imp_le_length)
  qed
  then show ?thesis by (intro bit_word_eqI) (meson diff_le_self)
qed

lemma inj_xorshift: "inj xorshift"
proof (rule injI)
  fix x y
  assume "xorshift x = xorshift y"
  then have "(x XOR push_bit 13 x) XOR drop_bit 17 (x XOR push_bit 13 x)
      = (y XOR push_bit 13 y) XOR drop_bit 17 (y XOR push_bit 13 y)"
    unfolding xorshift_def Let_def by (rule inj_xor_push_bit [rotated]) simp
  then have "x XOR push_bit 13 x = y XOR push_bit 13 y"
    by (rule inj_xor_drop_bit [rotated]) simp
  then show "x = y"
    by (rule inj_xor_push_bit [rotated]) simp
qed

lemma xorshift_0 [simp]: "xorshift 0 = 0"
  by (simp add: xorshift_def)

lemma xorshift_eq_0_iff [simp]: "xorshift x = 0 \<longleftrightarrow> x = 0"
  using inj_xorshift by (metis injD xorshift_0)

lemma xv6_rand_nonneg: "xv6_rand s = Inr (r, t) \<Longrightarrow> 0 \<le> r"
  by (auto simp: xv6_rand_def Let_def)

lemma xv6_rand_run:
  "xv6_rand s = Inr (uint (xorshift (rand_seed s) mod XV6_RAND_MAX),
     s\<lparr>rand_seed := xorshift (rand_seed s)\<rparr>)"
  by (simp add: xv6_rand_def Let_def)

text \<open>
  C35. One call of \<open>xv6_rand\<close> always returns, its result lies in
  \<open>0 .. XV6_RAND_MAX - 1\<close>, only the seed changes, the next seed is the image of the
  old one under a permutation of all 32-bit words, and the seed is zero afterwards
  exactly when it was zero before: a generator seeded with a non-zero word never
  gets stuck at zero.
\<close>

theorem xv6_rand_correct:
  "\<exists>r t. xv6_rand s = Inr (r, t) \<and> 0 \<le> r \<and> r < uint XV6_RAND_MAX
     \<and> t = s\<lparr>rand_seed := xorshift (rand_seed s)\<rparr>
     \<and> bij xorshift \<and> (rand_seed t = 0 \<longleftrightarrow> rand_seed s = 0)"
proof -
  have "uint (xorshift (rand_seed s) mod XV6_RAND_MAX) < uint XV6_RAND_MAX"
    by (rule word_mod_less_divisor [THEN word_less_def [THEN iffD1]])
      (simp add: XV6_RAND_MAX_def word_gt_0)
  moreover have "bij xorshift"
    using inj_xorshift by (simp add: finite_UNIV_inj_surj bij_def)
  ultimately show ?thesis
    by (simp add: xv6_rand_run)
qed

end
