(* ===== verification/Kstring.thy ===== *)
theory Kstring
  imports Prelude
begin

text \<open>
  The string and memory routines of \<open>kernel/string.c\<close>. Routines that move bytes
  between addresses work on the byte memory; routines that only read or fill a
  buffer of characters take the buffer as a function from offsets to bytes, which
  is what a \<open>char *\<close> argument denotes. The lemmas give each loop a closed form.
\<close>

section \<open>Model\<close>

text \<open>\<open>memset\<close>: \<open>rep stosb\<close> stores one byte per iteration, ascending.\<close>

fun memset :: "memory \<Rightarrow> addr \<Rightarrow> u8 \<Rightarrow> nat \<Rightarrow> memory" where
  "memset m dst c 0 = m"
| "memset m dst c (Suc n) = memset (m(dst := c)) (dst + 1) c n"

fun memcmp :: "cstr \<Rightarrow> cstr \<Rightarrow> nat \<Rightarrow> int" where
  "memcmp s1 s2 0 = 0"
| "memcmp s1 s2 (Suc n) =
     (if s1 0 \<noteq> s2 0 then uint (s1 0) - uint (s2 0)
      else memcmp (\<lambda>i. s1 (Suc i)) (\<lambda>i. s2 (Suc i)) n)"

text \<open>The two copying loops of \<open>memmove\<close>: descending from the end, and ascending.\<close>

fun copy_down :: "memory \<Rightarrow> addr \<Rightarrow> addr \<Rightarrow> nat \<Rightarrow> memory" where
  "copy_down m d s 0 = m"
| "copy_down m d s (Suc n) = copy_down (m(d - 1 := m (s - 1))) (d - 1) (s - 1) n"

fun copy_up :: "memory \<Rightarrow> addr \<Rightarrow> addr \<Rightarrow> nat \<Rightarrow> memory" where
  "copy_up m d s 0 = m"
| "copy_up m d s (Suc n) = copy_up (m(d := m s)) (d + 1) (s + 1) n"

definition memmove :: "memory \<Rightarrow> addr \<Rightarrow> addr \<Rightarrow> nat \<Rightarrow> memory" where
  "memmove m dst src n =
     (if src < dst \<and> src + of_nat n > dst
      then copy_down m (dst + of_nat n) (src + of_nat n) n
      else copy_up m dst src n)"

definition memcpy :: "memory \<Rightarrow> addr \<Rightarrow> addr \<Rightarrow> nat \<Rightarrow> memory" where
  "memcpy m dst src n = memmove m dst src n"

fun strncmp :: "cstr \<Rightarrow> cstr \<Rightarrow> nat \<Rightarrow> int" where
  "strncmp p q 0 = 0"
| "strncmp p q (Suc n) =
     (if p 0 \<noteq> 0 \<and> p 0 = q 0 then strncmp (\<lambda>i. p (Suc i)) (\<lambda>i. q (Suc i)) n
      else uint (p 0) - uint (q 0))"

text \<open>
  \<open>strncpy\<close> and \<open>safestrcpy\<close> write through \<open>s\<close>; \<open>k\<close> is the offset of the write
  pointer. The second loop of \<open>strncpy\<close> pads with zero bytes.
\<close>

fun pad0 :: "cstr \<Rightarrow> nat \<Rightarrow> nat \<Rightarrow> cstr" where
  "pad0 s k 0 = s"
| "pad0 s k (Suc n) = pad0 (s(k := 0)) (Suc k) n"

fun strncpy_loop :: "cstr \<Rightarrow> cstr \<Rightarrow> nat \<Rightarrow> nat \<Rightarrow> cstr" where
  "strncpy_loop s t k 0 = s"
| "strncpy_loop s t k (Suc n) =
     (let s' = s(k := t k) in if t k \<noteq> 0 then strncpy_loop s' t (Suc k) n else pad0 s' (Suc k) n)"

definition strncpy :: "cstr \<Rightarrow> cstr \<Rightarrow> int \<Rightarrow> cstr" where
  "strncpy s t n = strncpy_loop s t 0 (nat n)"

fun safestrcpy_loop :: "cstr \<Rightarrow> cstr \<Rightarrow> nat \<Rightarrow> nat \<Rightarrow> cstr" where
  "safestrcpy_loop s t k 0 = s(k := 0)"
| "safestrcpy_loop s t k (Suc n) =
     (let s' = s(k := t k) in if t k \<noteq> 0 then safestrcpy_loop s' t (Suc k) n else s'(Suc k := 0))"

definition safestrcpy :: "cstr \<Rightarrow> cstr \<Rightarrow> int \<Rightarrow> cstr" where
  "safestrcpy s t n = (if n \<le> 0 then s else safestrcpy_loop s t 0 (nat n - 1))"

text \<open>
  \<open>strlen\<close> walks to the first zero byte. A buffer without one would be overrun, so
  the walk is bounded by the size of the address space and running past it is
  \<open>None\<close>.
\<close>

fun strlen_from :: "nat \<Rightarrow> cstr \<Rightarrow> nat \<Rightarrow> nat option" where
  "strlen_from 0 s n = None"
| "strlen_from (Suc fuel) s n = (if s n = 0 then Some n else strlen_from fuel s (Suc n))"

definition strlen :: "cstr \<Rightarrow> nat option" where
  "strlen s = strlen_from (2 ^ 32) s 0"

section \<open>Closed forms\<close>

lemma unat_diff_Suc:
  fixes a d :: addr
  assumes "a \<noteq> d"
  shows "unat (a - d) = Suc (unat (a - (d + 1)))"
proof -
  have "a - d \<noteq> 0" using assms by simp
  then have "unat (a - d) = Suc (unat (a - d - 1))"
    by (simp add: unat_minus_one unat_gt_0)
  then show ?thesis by (simp add: algebra_simps)
qed

lemma memset_apply:
  "n \<le> 2 ^ 32 \<Longrightarrow> memset m dst c n a = (if unat (a - dst) < n then c else m a)"
proof (induction n arbitrary: m dst)
  case 0
  then show ?case by simp
next
  case (Suc n)
  then have IH: "memset (m(dst := c)) (dst + 1) c n a
      = (if unat (a - (dst + 1)) < n then c else (m(dst := c)) a)"
    by simp
  show ?case
  proof (cases "a = dst")
    case True
    then show ?thesis using IH by simp
  next
    case False
    then show ?thesis using IH unat_diff_Suc [OF False] by simp
  qed
qed

lemma memset_page:
  assumes "page_aligned p"
  shows "memset m p c 4096 a = (if page_no a = page_no p then c else m a)"
  using memset_apply [of 4096 m p c a] by (simp add: in_page_iff [OF assms])

lemma load32_memset_page_0:
  assumes "page_aligned p" "aligned4 a" "page_no a = page_no p"
  shows "load32 (memset m p 0 4096) a = 0"
  using assms by (simp add: load32_def memset_page page_no_offsets)

lemma load32_memset_other:
  assumes "page_aligned p" "aligned4 a" "page_no a \<noteq> page_no p"
  shows "load32 (memset m p c 4096) a = load32 m a"
  using assms by (intro load32_other_page) (simp_all add: memset_page)

text \<open>
  The ascending copy is right as long as no source byte is overwritten before it is
  read, and the descending copy likewise from the other end.
\<close>

lemma copy_up_apply:
  assumes "n \<le> 2 ^ 32" "unat (d - s) < n \<Longrightarrow> d = s"
  shows "copy_up m d s n a = (if unat (a - d) < n then m (s + (a - d)) else m a)"
  using assms
proof (induction n arbitrary: m d s)
  case 0
  then show ?case by simp
next
  case (Suc n)
  have shift: "d + 1 - (s + 1) = d - s" by simp
  have IH: "copy_up (m(d := m s)) (d + 1) (s + 1) n a
      = (if unat (a - (d + 1)) < n then (m(d := m s)) (s + 1 + (a - (d + 1)))
         else (m(d := m s)) a)"
    by (rule Suc.IH) (use Suc.prems shift in auto)
  show ?case
  proof (cases "a = d")
    case True
    have "unat (a - (d + 1)) = 2 ^ 32 - 1"
      unfolding True by (simp add: unsigned_minus_1_eq_mask mask_eq_exp_minus_1)
    then show ?thesis using IH True Suc.prems(1) by simp
  next
    case False
    have eq: "s + 1 + (a - (d + 1)) = s + (a - d)" by simp
    have "s + (a - d) \<noteq> d \<or> d = s" if "unat (a - d) < Suc n"
    proof (rule ccontr)
      assume "\<not> (s + (a - d) \<noteq> d \<or> d = s)"
      then have "a - d = d - s" "d \<noteq> s" by (simp_all add: algebra_simps)
      then show False using that Suc.prems(2) by simp
    qed
    then show ?thesis
      using IH unat_diff_Suc [OF False] eq by auto
  qed
qed

lemma copy_down_apply:
  assumes "n \<le> 2 ^ 32" "unat (s - d) < n \<Longrightarrow> d = s"
  shows "copy_down m (d + of_nat n) (s + of_nat n) n a
    = (if unat (a - d) < n then m (s + (a - d)) else m a)"
  using assms
proof (induction n arbitrary: m)
  case 0
  then show ?case by simp
next
  case (Suc n)
  let ?m = "m(d + of_nat n := m (s + of_nat n))"
  have IH: "copy_down ?m (d + of_nat n) (s + of_nat n) n a
      = (if unat (a - d) < n then ?m (s + (a - d)) else ?m a)"
    by (rule Suc.IH) (use Suc.prems in auto)
  have run: "copy_down m (d + of_nat (Suc n)) (s + of_nat (Suc n)) (Suc n) a
      = copy_down ?m (d + of_nat n) (s + of_nat n) n a"
    by (simp add: algebra_simps)
  have n: "unat (of_nat n :: addr) = n"
    using Suc.prems(1) by (simp add: unat_of_nat)
  have here: "a = d + of_nat n \<longleftrightarrow> unat (a - d) = n"
  proof
    assume "unat (a - d) = n"
    then have "a - d = of_nat n" using n by (intro word_unat_eq_iff [THEN iffD2]) simp
    then show "a = d + of_nat n" by (simp add: algebra_simps)
  qed (simp add: n)
  have "s + (a - d) \<noteq> d + of_nat n" if lt: "unat (a - d) < n"
  proof (cases "d = s")
    case True
    then show ?thesis using here lt by simp
  next
    case False
    show ?thesis
    proof
      assume "s + (a - d) = d + of_nat n"
      then have eq: "s - d = of_nat n - (a - d)" by (simp add: algebra_simps)
      have "unat (of_nat n - (a - d)) = n - unat (a - d)"
        using lt n by (simp add: unat_sub_if')
      then have "unat (s - d) < Suc n" unfolding eq by simp
      then show False using Suc.prems(2) False by simp
    qed
  qed
  then show ?case
    unfolding run IH using here by (auto simp: less_Suc_eq)
qed

text \<open>
  \<open>memmove\<close> picks the direction by comparing the pointers, so it is right for every
  overlap, provided the source does not run past the end of the address space.
\<close>

lemma memmove_apply:
  assumes "unat src + n \<le> 2 ^ 32" "unat dst + n \<le> 2 ^ 32" "n < 2 ^ 32"
  shows "memmove m dst src n a = (if unat (a - dst) < n then m (src + (a - dst)) else m a)"
proof -
  have u: "unat (of_nat n :: addr) = n"
    using assms(3) by (simp add: unat_of_nat)
  show ?thesis
  proof (cases "src < dst \<and> src + of_nat n > dst")
    case True
    then have "unat (src - dst) < n \<Longrightarrow> dst = src"
      using assms by (simp add: unat_sub_if' word_less_nat_alt)
    then show ?thesis
      using True assms(3) copy_down_apply [of n src dst m a] by (simp add: memmove_def)
  next
    case False
    have "dst = src" if "unat (dst - src) < n"
    proof (rule ccontr)
      assume "dst \<noteq> src"
      then have "unat dst \<noteq> unat src" by (simp add: word_unat_eq_iff)
      then have "unat src < unat dst" "unat dst < unat src + n"
        using that assms by (auto simp: unat_sub_if' split: if_splits)
      then have "src < dst" "src + of_nat n > dst"
        using assms(2) u by (simp_all add: word_less_nat_alt unat_word_ariths)
      then show False using False by blast
    qed
    then show ?thesis
      using False assms(3) copy_up_apply [of n dst src m a] by (auto simp: memmove_def)
  qed
qed

section \<open>Strings\<close>

lemma strncmp_eq_0_iff:
  "strncmp p q n = 0 \<longleftrightarrow> (\<forall>i<n. (\<forall>j<i. p j \<noteq> 0) \<longrightarrow> p i = q i)"
proof (induction p q n rule: strncmp.induct)
  case (1 p q)
  then show ?case by simp
next
  case (2 p q n)
  have split: "(\<forall>i<Suc n. (\<forall>j<i. p j \<noteq> 0) \<longrightarrow> p i = q i) \<longleftrightarrow>
      p 0 = q 0 \<and> (p 0 \<noteq> 0 \<longrightarrow> (\<forall>i<n. (\<forall>j<i. p (Suc j) \<noteq> 0) \<longrightarrow> p (Suc i) = q (Suc i)))"
    by (simp only: All_less_Suc2) auto
  show ?case
    unfolding split using 2 by (auto simp: word_uint_eq_iff)
qed

lemma pad0_apply: "pad0 s k n i = (if k \<le> i \<and> i < k + n then 0 else s i)"
  by (induction n arbitrary: s k) auto

lemma strncpy_loop_apply:
  "strncpy_loop s t k n i =
     (if i < k \<or> k + n \<le> i then s i
      else if \<forall>j. k \<le> j \<and> j < i \<longrightarrow> t j \<noteq> 0 then t i else 0)"
proof (induction n arbitrary: s k)
  case 0
  then show ?case by (simp add: linorder_not_less)
next
  case (Suc n)
  have "(\<forall>j. k \<le> j \<and> j < i \<longrightarrow> t j \<noteq> 0) \<longleftrightarrow>
      (k < i \<longrightarrow> t k \<noteq> 0) \<and> (\<forall>j. Suc k \<le> j \<and> j < i \<longrightarrow> t j \<noteq> 0)" (is "?L \<longleftrightarrow> ?R")
  proof
    assume R: ?R
    show ?L
    proof (intro allI impI)
      fix j assume "k \<le> j \<and> j < i"
      then show "t j \<noteq> 0" using R by (cases "j = k") auto
    qed
  qed auto
  then show ?case
    by (auto simp: Let_def pad0_apply Suc.IH not_less_eq_eq)
qed

lemma safestrcpy_loop_frame:
  "i < k \<or> k + n < i \<Longrightarrow> safestrcpy_loop s t k n i = s i"
  by (induction n arbitrary: s k) (auto simp: Let_def)

lemma safestrcpy_loop_prefix:
  "k \<le> i \<Longrightarrow> i < k + n \<Longrightarrow> \<forall>j. k \<le> j \<and> j < i \<longrightarrow> t j \<noteq> 0 \<Longrightarrow> safestrcpy_loop s t k n i = t i"
proof (induction n arbitrary: s k)
  case 0
  then show ?case by simp
next
  case (Suc n)
  show ?case
  proof (cases "i = k")
    case True
    then show ?thesis by (simp add: Let_def safestrcpy_loop_frame)
  next
    case False
    then have "k < i" "t k \<noteq> 0" using Suc.prems by auto
    then show ?thesis using Suc.IH [of "Suc k"] Suc.prems by (simp add: Let_def)
  qed
qed

lemma safestrcpy_loop_full:
  "\<forall>j. k \<le> j \<and> j < k + n \<longrightarrow> t j \<noteq> 0 \<Longrightarrow> safestrcpy_loop s t k n (k + n) = 0"
proof (induction n arbitrary: s k)
  case 0
  then show ?case by simp
next
  case (Suc n)
  have "t k \<noteq> 0" using Suc.prems by simp
  then show ?case using Suc.IH [of "Suc k"] Suc.prems by (simp add: Let_def)
qed

text \<open>
  C29. \<open>memmove\<close> copies right for every overlap of source and destination: whatever
  direction it picks, each byte of the destination gets the value its source byte
  had before the call and no other byte of memory changes, as long as neither range
  runs past the end of the address space.
\<close>

theorem memmove_correct:
  assumes "unat src + n \<le> 2 ^ 32" "unat dst + n \<le> 2 ^ 32" "n < 2 ^ 32"
  shows "memmove m dst src n = (\<lambda>a. if unat (a - dst) < n then m (src + (a - dst)) else m a)"
  using assms by (intro ext) (rule memmove_apply)

theorem memmove_correct_witness:
  "memmove (\<lambda>a. if a = 10 then 7 else if a = 11 then 8 else 0) 11 10 2
     = (\<lambda>a. if unat (a - 11) < 2
          then (\<lambda>a. if a = 10 then 7 else if a = 11 then 8 else 0) (10 + (a - 11))
          else (if a = 10 then 7 else if a = 11 then 8 else 0))"
  using memmove_correct [of 10 2 11 "\<lambda>a. if a = 10 then 7 else if a = 11 then 8 else 0"] by simp



end
