(* ===== verification/Kalloc.thy ===== *)
theory Kalloc
  imports Rand Kstring
begin

text \<open>
  The physical page allocator of \<open>kernel/kalloc.c\<close>. The free list is threaded
  through the free pages themselves: the first word of a free page is the address of
  the next one. \<open>kalloc\<close> takes a pseudo-randomly chosen page out of the list and
  appends its address to the allocation history. The lemmas relate the linked list
  in memory to the list of its pages.
\<close>

section \<open>Model\<close>

definition PGSIZE :: nat where "PGSIZE = 4096"
definition PHYSTOP :: addr where "PHYSTOP = 0x1000000"
definition NALLOC :: nat where "NALLOC = 512"

text \<open>
  \<open>kend\<close> is the linker's symbol \<open>end\<close>, the first address after the kernel image; no
  operation changes it. \<open>mem\<close> is the physical memory, which the kernel sees under
  the identity mapping.
\<close>

record kmem_st = rand_st +
  mem :: memory
  kend :: addr
  freelist :: addr
  allocated :: "addr list"
  num_alloc :: int
  size_freelist :: int

definition kfree :: "addr \<Rightarrow> ('z kmem_st_scheme, unit) kop" where
  "kfree v s =
     (if unat v mod PGSIZE \<noteq> 0 \<or> v < kend s \<or> v \<ge> PHYSTOP then Inl (Panic ''kfree'')
      else Inr ((), s\<lparr>mem := store32 (memset (mem s) v 1 PGSIZE) v (freelist s),
                      freelist := v,
                      size_freelist := size_freelist s + 1\<rparr>))"

text \<open>
  The traversal of \<open>kalloc\<close>: \<open>rd\<close> steps along the list, keeping the previous node.
  Following a null pointer is a fault.
\<close>

fun kalloc_walk :: "memory \<Rightarrow> addr \<Rightarrow> addr \<Rightarrow> nat \<Rightarrow> (addr \<times> addr) option" where
  "kalloc_walk m r_prev r 0 = Some (r_prev, r)"
| "kalloc_walk m r_prev r (Suc i) =
     (if r = 0 then None else kalloc_walk m r (load32 m r) i)"

definition kalloc :: "('z kmem_st_scheme, addr) kop" where
  "kalloc =
     kbind (kget freelist) (\<lambda>r0.
     kbind xv6_rand (\<lambda>rnd.
     kbind (kget size_freelist) (\<lambda>sz.
     if sz = 0 then kfail DivZero else
     let rd = nat (rnd mod sz) in
     kbind (if rd = 0
            then (if r0 = 0 then kfail (Undef ''kalloc: null free list'')
                  else kbind (kmod (\<lambda>s. s\<lparr>freelist := load32 (mem s) r0\<rparr>)) (\<lambda>_. kret r0))
            else (\<lambda>s. case kalloc_walk (mem s) r0 r0 rd of
                   None \<Rightarrow> Inl (Undef ''kalloc: null node'')
                 | Some (r_prev, r) \<Rightarrow>
                     if r = 0 then Inl (Undef ''kalloc: null node'')
                     else Inr (r, s\<lparr>mem := store32 (mem s) r_prev (load32 (mem s) r)\<rparr>)))
       (\<lambda>r s.
          if num_alloc s \<ge> int NALLOC then Inl (Undef ''kalloc: allocated overflow'')
          else Inr (r, s\<lparr>allocated := (allocated s)[nat (num_alloc s) := r],
                        num_alloc := num_alloc s + 1,
                        size_freelist := size_freelist s - 1\<rparr>)))))"

text \<open>
  \<open>dump_allocated\<close> stores the last \<open>numframes\<close> addresses, the newest first, into the
  caller's array; the array is the returned list of stored values.
\<close>

definition dump_allocated :: "int \<Rightarrow> ('z kmem_st_scheme, int \<times> addr list) kop" where
  "dump_allocated numframes s =
     (if numframes > num_alloc s then Inr ((-1, []), s)
      else Inr ((0, map (\<lambda>i. allocated s ! nat (num_alloc s - 1 - int i)) [0..<nat numframes]), s))"

definition PGROUNDUP :: "u32 \<Rightarrow> u32" where
  "PGROUNDUP sz = (sz + 4096 - 1) AND NOT (4096 - 1)"

definition PGROUNDDOWN :: "u32 \<Rightarrow> u32" where
  "PGROUNDDOWN a = a AND NOT (4096 - 1)"

text \<open>
  \<open>kinit\<close> frees every whole page between \<open>end\<close> and \<open>PHYSTOP\<close>. The loop advances
  by a page below \<open>PHYSTOP\<close>, so it stops after at most \<open>PHYSTOP / PGSIZE\<close> steps.
\<close>

function kinit_loop :: "addr \<Rightarrow> ('z kmem_st_scheme, unit) kop" where
  "kinit_loop p =
     (if unat p + PGSIZE \<le> unat PHYSTOP
      then kbind (kfree p) (\<lambda>_. kinit_loop (p + of_nat PGSIZE))
      else kret ())"
  by pat_completeness auto
termination
proof (relation "measure (\<lambda>p. unat PHYSTOP - unat p)", goal_cases)
  case (2 p)
  have "unat (p + of_nat PGSIZE) = unat p + PGSIZE"
    using 2 by (simp add: PGSIZE_def PHYSTOP_def unat_word_ariths)
  then show ?case
    using 2 by (simp add: PGSIZE_def PHYSTOP_def)
qed simp

declare kinit_loop.simps [simp del]

definition kinit :: "('z kmem_st_scheme, unit) kop" where
  "kinit = kbind (kget kend) (\<lambda>e. kinit_loop (PGROUNDUP e))"

section \<open>The free list as a list of pages\<close>

primrec linked :: "memory \<Rightarrow> addr \<Rightarrow> addr list \<Rightarrow> bool" where
  "linked m p [] \<longleftrightarrow> p = 0"
| "linked m p (x # xs) \<longleftrightarrow> p = x \<and> linked m (load32 m x) xs"

primrec free_nodes :: "memory \<Rightarrow> addr \<Rightarrow> nat \<Rightarrow> addr list" where
  "free_nodes m p 0 = []"
| "free_nodes m p (Suc n) = p # free_nodes m (load32 m p) n"

definition free_pages :: "'z kmem_st_scheme \<Rightarrow> addr list" where
  "free_pages s = free_nodes (mem s) (freelist s) (nat (size_freelist s))"

definition free_page_ok :: "'z kmem_st_scheme \<Rightarrow> addr \<Rightarrow> bool" where
  "free_page_ok s p \<longleftrightarrow> page_aligned p \<and> kend s \<le> p \<and> p < PHYSTOP \<and> p \<noteq> 0"

definition kmem_inv :: "'z kmem_st_scheme \<Rightarrow> bool" where
  "kmem_inv s \<longleftrightarrow>
     0 \<le> size_freelist s \<and> linked (mem s) (freelist s) (free_pages s)
     \<and> distinct (free_pages s) \<and> (\<forall>p \<in> set (free_pages s). free_page_ok s p)
     \<and> length (allocated s) = NALLOC \<and> 0 \<le> num_alloc s \<and> num_alloc s \<le> int NALLOC"

lemma length_free_nodes [simp]: "length (free_nodes m p n) = n"
  by (induction n arbitrary: p) auto

lemma length_free_pages: "0 \<le> size_freelist s \<Longrightarrow> int (length (free_pages s)) = size_freelist s"
  by (simp add: free_pages_def)

lemma linked_free_nodes: "linked m p xs \<Longrightarrow> free_nodes m p (length xs) = xs"
  by (induction xs arbitrary: p) auto

lemma free_pages_eqI:
  "linked (mem s) (freelist s) xs \<Longrightarrow> size_freelist s = int (length xs) \<Longrightarrow> free_pages s = xs"
  by (simp add: free_pages_def linked_free_nodes)

lemma linked_cong:
  "(\<And>x. x \<in> set xs \<Longrightarrow> load32 m x = load32 m' x) \<Longrightarrow> linked m p xs = linked m' p xs"
  by (induction xs arbitrary: p) auto

lemma linked_pages_cong:
  assumes "\<And>x. x \<in> set xs \<Longrightarrow> page_aligned x"
    and "\<And>a. page_no a \<in> page_no ` set xs \<Longrightarrow> m a = m' a"
  shows "linked m p xs = linked m' p xs"
  using assms
  by (intro linked_cong load32_other_page) (auto intro: page_aligned_aligned4)

lemma kalloc_walk_linked:
  "linked m p xs \<Longrightarrow> 0 \<notin> set xs \<Longrightarrow> i < length xs \<Longrightarrow>
     kalloc_walk m q p i = Some (if i = 0 then q else xs ! (i - 1), xs ! i)"
proof (induction i arbitrary: p q xs)
  case 0
  then show ?case by (cases xs) auto
next
  case (Suc i)
  then obtain ys where xs: "xs = p # ys" "p \<noteq> 0" "linked m (load32 m p) ys"
    by (cases xs) auto
  then show ?case
    using Suc.prems Suc.IH [of "load32 m p" ys p] by (simp add: nth_Cons')
qed

lemma linked_hd_remove: "linked m p xs \<Longrightarrow> xs \<noteq> [] \<Longrightarrow> linked m (load32 m p) (drop 1 xs)"
  by (cases xs) auto

lemma linked_remove:
  assumes "linked m p xs" "distinct xs" "\<And>x. x \<in> set xs \<Longrightarrow> aligned4 x" "0 < i" "i < length xs"
  shows "linked (store32 m (xs ! (i - 1)) (load32 m (xs ! i))) p (take i xs @ drop (Suc i) xs)"
  using assms
proof (induction xs arbitrary: p i)
  case Nil
  then show ?case by simp
next
  case (Cons x xs)
  obtain j where i: "i = Suc j" using \<open>0 < i\<close> by (cases i) auto
  have px: "p = x" and lx: "linked m (load32 m x) xs" using Cons.prems(1) by auto
  show ?case
  proof (cases j)
    case 0
    obtain y ys where xs: "xs = y # ys" using Cons.prems(5) i by (cases xs) auto
    have "linked (store32 m x (load32 m y)) (load32 m y) ys = linked m (load32 m y) ys"
      using Cons.prems(2,3) unfolding xs
      by (intro linked_cong) (auto intro!: load32_store32_other)
    then show ?thesis using lx px unfolding i 0 xs by simp
  next
    case (Suc k)
    have eq: "(x # xs) ! (i - 1) = xs ! (j - 1)" "(x # xs) ! i = xs ! j"
      using i Suc by auto
    have IH: "linked (store32 m (xs ! (j - 1)) (load32 m (xs ! j))) (load32 m x)
        (take j xs @ drop (Suc j) xs)"
      using Cons.IH [OF lx, of j] Cons.prems i Suc by simp
    have "xs ! (j - 1) \<in> set xs" using Cons.prems(5) i Suc by auto
    then have "load32 (store32 m (xs ! (j - 1)) (load32 m (xs ! j))) x = load32 m x"
      using Cons.prems(2,3) by (intro load32_store32_other) auto
    then show ?thesis unfolding eq using IH px by (simp add: i)
  qed
qed

section \<open>Allocation and release\<close>

definition kalloc_index :: "'z kmem_st_scheme \<Rightarrow> nat" where
  "kalloc_index s = nat (uint (xorshift (rand_seed s) mod XV6_RAND_MAX) mod size_freelist s)"

lemma kalloc_index_less:
  assumes "0 < size_freelist s"
  shows "kalloc_index s < nat (size_freelist s)"
  using assms by (simp add: kalloc_index_def)

lemma kmem_inv_aligned4: "kmem_inv s \<Longrightarrow> x \<in> set (free_pages s) \<Longrightarrow> aligned4 x"
  by (auto simp: kmem_inv_def free_page_ok_def intro: page_aligned_aligned4)

lemma kmem_inv_no_null: "kmem_inv s \<Longrightarrow> 0 \<notin> set (free_pages s)"
  by (auto simp: kmem_inv_def free_page_ok_def)

text \<open>One call of \<open>kalloc\<close> on a non-empty list: the state it leaves.\<close>

lemma kalloc_run:
  assumes inv: "kmem_inv s" and ne: "free_pages s \<noteq> []" and room: "num_alloc s < int NALLOC"
  defines "xs \<equiv> free_pages s" and "i \<equiv> kalloc_index s"
  shows "\<exists>t. kalloc s = Inr (xs ! i, t) \<and> i < length xs
     \<and> linked (mem t) (freelist t) (take i xs @ drop (Suc i) xs)
     \<and> (\<forall>a. page_no a \<notin> page_no ` set xs \<longrightarrow> mem t a = mem s a)
     \<and> size_freelist t = size_freelist s - 1 \<and> num_alloc t = num_alloc s + 1
     \<and> allocated t = (allocated s)[nat (num_alloc s) := xs ! i]
     \<and> kend t = kend s \<and> rand_seed t = xorshift (rand_seed s)
     \<and> kmem_st.more t = kmem_st.more s"
proof -
  have lk: "linked (mem s) (freelist s) xs" and sz: "int (length xs) = size_freelist s"
    and d: "distinct xs"
    using inv by (auto simp: kmem_inv_def xs_def free_pages_def)
  have pos: "0 < size_freelist s"
    using ne sz [symmetric] by (simp add: xs_def)
  have i: "i < length xs" using kalloc_index_less [OF pos] sz by (simp add: i_def)
  obtain r0 ys where xs: "xs = r0 # ys" "freelist s = r0"
    using ne lk by (cases xs) (auto simp: xs_def)
  have nz: "0 \<notin> set xs" using inv unfolding xs_def by (rule kmem_inv_no_null)
  have al: "\<And>x. x \<in> set xs \<Longrightarrow> aligned4 x"
    using inv unfolding xs_def by (rule kmem_inv_aligned4)
  show ?thesis
  proof (cases "i = 0")
    case True
    then show ?thesis
      using pos i xs nz lk room
      by (simp add: kalloc_def xv6_rand_run i_def [unfolded kalloc_index_def, symmetric] Let_def)
  next
    case False
    have w: "kalloc_walk (mem s) r0 r0 i = Some (xs ! (i - 1), xs ! i)"
      using kalloc_walk_linked [OF lk nz i, of r0] False xs by simp
    have nz_i: "xs ! i \<noteq> 0" using nz i by (metis nth_mem)
    have frame: "store32 (mem s) (xs ! (i - 1)) v a = mem s a"
      if "page_no a \<notin> page_no ` set xs" for a v
      using that al i by (intro store32_other_page) (auto simp: less_imp_diff_less)
    show ?thesis
      using pos i False w nz_i room linked_remove [OF lk d al _ i] frame xs(2)
      by (simp add: kalloc_def xv6_rand_run i_def [unfolded kalloc_index_def, symmetric] Let_def)
  qed
qed

lemma kalloc_step:
  assumes inv: "kmem_inv s" and ne: "free_pages s \<noteq> []" and room: "num_alloc s < int NALLOC"
  defines "xs \<equiv> free_pages s" and "i \<equiv> kalloc_index s"
  shows "\<exists>t. kalloc s = Inr (xs ! i, t) \<and> i < length xs \<and> kmem_inv t
     \<and> free_pages t = take i xs @ drop (Suc i) xs
     \<and> (\<forall>a. page_no a \<notin> page_no ` set xs \<longrightarrow> mem t a = mem s a)
     \<and> num_alloc t = num_alloc s + 1
     \<and> allocated t = (allocated s)[nat (num_alloc s) := xs ! i]
     \<and> kend t = kend s \<and> kmem_st.more t = kmem_st.more s"
proof -
  obtain t where t: "kalloc s = Inr (xs ! i, t)" "i < length xs"
      "linked (mem t) (freelist t) (take i xs @ drop (Suc i) xs)"
      "\<forall>a. page_no a \<notin> page_no ` set xs \<longrightarrow> mem t a = mem s a"
      "size_freelist t = size_freelist s - 1" "num_alloc t = num_alloc s + 1"
      "allocated t = (allocated s)[nat (num_alloc s) := xs ! i]"
      "kend t = kend s" "kmem_st.more t = kmem_st.more s"
    using kalloc_run [OF assms(1-3)] unfolding xs_def i_def by blast
  have sz: "size_freelist s = int (length xs)" and d: "distinct xs"
    using inv by (auto simp: kmem_inv_def xs_def free_pages_def)
  have fp: "free_pages t = take i xs @ drop (Suc i) xs"
    using t sz by (intro free_pages_eqI) auto
  have "set (free_pages t) \<subseteq> set xs"
    unfolding fp by (auto dest: in_set_takeD in_set_dropD)
  then have "kmem_inv t"
    using inv t fp room sz distinct_take_drop_Suc [OF d t(2)]
    unfolding kmem_inv_def xs_def [symmetric] by (auto simp: free_page_ok_def)
  then show ?thesis using t fp by blast
qed

lemma kalloc_Inr:
  assumes inv: "kmem_inv s" and run: "kalloc s = Inr (p, t)"
  shows "free_pages s \<noteq> [] \<and> num_alloc s < int NALLOC"
proof (rule ccontr)
  assume neg: "\<not> ?thesis"
  show False
  proof (cases "free_pages s = []")
    case True
    then have "size_freelist s = 0"
      using inv length_free_pages [of s] by (simp add: kmem_inv_def)
    then show False using run by (simp add: kalloc_def xv6_rand_run)
  next
    case False
    then have "int NALLOC \<le> num_alloc s" using neg by simp
    then show False
      using run by (auto simp: kalloc_def kbind_Inr_iff xv6_rand_run Let_def split: if_splits option.splits)
  qed
qed

lemma kalloc_full:
  assumes "kmem_inv s" "free_pages s \<noteq> []" "num_alloc s = int NALLOC"
  shows "kalloc s = Inl (Undef ''kalloc: allocated overflow'')"
proof -
  let ?s = "s\<lparr>num_alloc := 0\<rparr>"
  have fp: "free_pages ?s = free_pages s" by (simp add: free_pages_def)
  have "kmem_inv ?s" using assms by (simp add: kmem_inv_def fp free_page_ok_def NALLOC_def)
  then obtain t where t: "kalloc ?s = Inr (free_pages s ! kalloc_index ?s, t)"
    using kalloc_step [of ?s] assms(2) fp by (auto simp: NALLOC_def)
  then show ?thesis
    using assms
    by (auto simp: kalloc_def xv6_rand_run kbind_def Let_def NALLOC_def
        split: if_splits option.splits sum.splits prod.splits)
qed

lemma kalloc_Inl:
  assumes "kmem_inv s" "kalloc s = Inl f"
  shows "f = DivZero \<or> f = Undef ''kalloc: allocated overflow''"
proof (cases "free_pages s = []")
  case True
  then have "size_freelist s = 0"
    using assms(1) length_free_pages [of s] by (simp add: kmem_inv_def)
  then show ?thesis
    using assms(2) by (simp add: kalloc_def xv6_rand_run)
next
  case False
  then have "\<not> num_alloc s < int NALLOC"
    using kalloc_step [OF assms(1)] assms(2) by auto
  then show ?thesis
    using assms False kalloc_full [OF assms(1) False] by (simp add: kmem_inv_def)
qed

lemma kfree_step:
  assumes inv: "kmem_inv s" and run: "kfree v s = Inr (u, t)" and new: "v \<notin> set (free_pages s)" "v \<noteq> 0"
  shows "kmem_inv t \<and> free_pages t = v # free_pages s
     \<and> (\<forall>a. page_no a \<noteq> page_no v \<longrightarrow> mem t a = mem s a)
     \<and> allocated t = allocated s \<and> num_alloc t = num_alloc s \<and> kend t = kend s
     \<and> kmem_st.more t = kmem_st.more s"
proof -
  let ?m = "store32 (memset (mem s) v 1 4096) v (freelist s)"
  have v: "page_aligned v" "kend s \<le> v" "v < PHYSTOP"
    using run by (auto simp: kfree_def PGSIZE_def page_aligned_def not_less split: if_splits)
  have t: "t = s\<lparr>mem := ?m, freelist := v, size_freelist := size_freelist s + 1\<rparr>"
    using run by (auto simp: kfree_def PGSIZE_def split: if_splits)
  have frame: "?m a = mem s a" if "page_no a \<noteq> page_no v" for a
    using that v by (simp add: store32_other_page page_aligned_aligned4 memset_page)
  have pg: "page_aligned x" if "x \<in> set (free_pages s)" for x
    using inv that by (auto simp: kmem_inv_def free_page_ok_def)
  have out: "page_no v \<notin> page_no ` set (free_pages s)"
  proof
    assume "page_no v \<in> page_no ` set (free_pages s)"
    then obtain x where "x \<in> set (free_pages s)" "page_no v = page_no x" by auto
    then show False using pg v(1) new(1) by (auto simp: page_aligned_eq_iff)
  qed
  have "linked ?m (freelist s) (free_pages s) = linked (mem s) (freelist s) (free_pages s)"
  proof (rule linked_pages_cong)
    fix a assume "page_no a \<in> page_no ` set (free_pages s)"
    then show "?m a = mem s a" using out by (intro frame) auto
  qed (rule pg)
  then have lk: "linked (mem t) (freelist t) (v # free_pages s)"
    using inv unfolding t by (simp add: kmem_inv_def)
  have sz: "size_freelist t = int (length (v # free_pages s))"
    using inv unfolding t by (simp add: kmem_inv_def free_pages_def)
  have fp: "free_pages t = v # free_pages s"
    using lk sz by (rule free_pages_eqI)
  have "kmem_inv t"
    using inv lk sz new v unfolding kmem_inv_def fp by (auto simp: t free_page_ok_def)
  then show ?thesis using fp frame unfolding t by simp
qed

section \<open>The allocator as an interface\<close>

text \<open>
  What the rest of the kernel relies on: a set of free pages that allocation takes
  a member out of and release puts a page back into.
\<close>

text \<open>A client that allocates several pages in a row, newest last.\<close>

primrec alloc_n :: "('s, addr) kop \<Rightarrow> nat \<Rightarrow> ('s, addr list) kop" where
  "alloc_n alloc 0 = kret []"
| "alloc_n alloc (Suc n) =
     kbind alloc (\<lambda>p. kbind (alloc_n alloc n) (\<lambda>ps. kret (p # ps)))"

locale page_allocator =
  fixes alloc :: "'s \<Rightarrow> fault + (addr \<times> 's)"
    and release :: "addr \<Rightarrow> 's \<Rightarrow> fault + (unit \<times> 's)"
    and avail :: "'s \<Rightarrow> addr set"
    and ok :: "'s \<Rightarrow> bool"
  assumes alloc_avail: "ok s \<Longrightarrow> alloc s = Inr (p, t) \<Longrightarrow> p \<in> avail s"
    and alloc_takes: "ok s \<Longrightarrow> alloc s = Inr (p, t) \<Longrightarrow> avail t = avail s - {p}"
    and alloc_ok: "ok s \<Longrightarrow> alloc s = Inr (p, t) \<Longrightarrow> ok t"
    and release_puts: "ok s \<Longrightarrow> release p s = Inr (u, t) \<Longrightarrow> p \<notin> avail s \<Longrightarrow> p \<noteq> 0 \<Longrightarrow>
          avail t = insert p (avail s)"
    and release_ok: "ok s \<Longrightarrow> release p s = Inr (u, t) \<Longrightarrow> p \<notin> avail s \<Longrightarrow> p \<noteq> 0 \<Longrightarrow> ok t"
begin

lemma alloc_n_distinct:
  "ok s \<Longrightarrow> alloc_n alloc n s = Inr (ps, t) \<Longrightarrow>
     distinct ps \<and> set ps \<subseteq> avail s \<and> avail t = avail s - set ps \<and> length ps = n \<and> ok t"
proof (induction n arbitrary: s ps)
  case 0
  then show ?case by simp
next
  case (Suc n)
  from Suc.prems(2) obtain p s1 qs where a: "alloc s = Inr (p, s1)" "alloc_n alloc n s1 = Inr (qs, t)"
      and ps: "ps = p # qs"
    by (auto simp: kbind_Inr_iff)
  note IH = Suc.IH [OF alloc_ok [OF Suc.prems(1) a(1)] a(2)]
  then show ?case
    using alloc_avail [OF Suc.prems(1) a(1)] alloc_takes [OF Suc.prems(1) a(1)] ps by auto
qed

lemma alloc_release_avail:
  assumes "ok s" "alloc s = Inr (p, t)" "release p t = Inr (u, v)" "p \<noteq> 0"
  shows "avail v = avail s \<and> ok v"
  using alloc_avail [OF assms(1,2)] alloc_takes [OF assms(1,2)] alloc_ok [OF assms(1,2)]
    release_puts [OF _ assms(3) _ assms(4)] release_ok [OF _ assms(3) _ assms(4)] by auto

end

lemma kalloc_facts:
  assumes inv: "kmem_inv s" and run: "kalloc s = Inr (p, t)"
  shows "kmem_inv t" "p \<in> set (free_pages s)" "set (free_pages t) = set (free_pages s) - {p}"
    "\<forall>a. page_no a \<notin> page_no ` set (free_pages s) \<longrightarrow> mem t a = mem s a"
    "kend t = kend s" "kmem_st.more t = kmem_st.more s" "num_alloc t = num_alloc s + 1"
    "length (free_pages t) = length (free_pages s) - 1" "page_aligned p" "p \<noteq> 0" "p < PHYSTOP"
    "kend s \<le> p"
proof -
  let ?xs = "free_pages s" and ?i = "kalloc_index s"
  obtain t' where t': "kalloc s = Inr (?xs ! ?i, t')" "?i < length ?xs" "kmem_inv t'"
      "free_pages t' = take ?i ?xs @ drop (Suc ?i) ?xs"
      "\<forall>a. page_no a \<notin> page_no ` set ?xs \<longrightarrow> mem t' a = mem s a"
      "num_alloc t' = num_alloc s + 1" "kend t' = kend s" "kmem_st.more t' = kmem_st.more s"
    using kalloc_step [OF inv] kalloc_Inr [OF inv run] by blast
  then have p: "p = ?xs ! ?i" "t' = t" using run by auto
  have d: "distinct ?xs" using inv by (simp add: kmem_inv_def)
  have "set ?xs = insert (?xs ! ?i) (set (take ?i ?xs @ drop (Suc ?i) ?xs))"
    using mset_take_drop_Suc [OF t'(2)] by (metis set_mset_add_mset_insert set_mset_mset)
  moreover have "?xs ! ?i \<notin> set (take ?i ?xs @ drop (Suc ?i) ?xs)"
    using distinct_take_drop_Suc(2) [OF d t'(2)] .
  ultimately show "set (free_pages t) = set ?xs - {p}"
    using t'(4) p by simp
  show "p \<in> set ?xs" using t'(2) p by simp
  then have "free_page_ok s p" using inv by (simp add: kmem_inv_def)
  then show "page_aligned p" "p \<noteq> 0" "p < PHYSTOP" "kend s \<le> p" by (auto simp: free_page_ok_def)
  show "length (free_pages t) = length ?xs - 1" using t'(2,4) p by simp
qed (use kalloc_step [OF inv] kalloc_Inr [OF inv run] run in auto)

interpretation kpages: page_allocator kalloc kfree "\<lambda>s. set (free_pages s)" kmem_inv
  by unfold_locales
    (auto dest: kalloc_facts(1-3) kfree_step)

section \<open>Rounding and initialisation\<close>

lemma and_not_4095: "a AND NOT (4096 - 1) = push_bit 12 (drop_bit 12 (a :: u32))"
proof -
  have m: "(4096 - 1 :: u32) = mask 12" by (simp add: mask_eq_exp_minus_1)
  have "bit (a AND NOT (mask 12)) n = bit (push_bit 12 (drop_bit 12 a)) n" if "n < 32" for n
    using that
    by (cases "12 \<le> n")
      (simp_all add: bit_and_iff bit_not_iff bit_mask_iff bit_push_bit_iff bit_drop_bit_eq
        del: of_nat_simps)
  then show ?thesis unfolding m by (intro bit_word_eqI) simp
qed

lemma unat_and_not_4095: "unat (a AND NOT (4096 - 1)) = unat (a :: u32) div 4096 * 4096"
proof -
  have d: "unat (drop_bit 12 a) = unat a div 4096"
    by (simp add: drop_bit_eq_div unat_div)
  have le: "unat a div 4096 * 4096 \<le> unat a" by simp
  have "unat (push_bit 12 (drop_bit 12 a)) = (unat a div 4096 * 4096) mod 4294967296"
    by (simp add: push_bit_eq_mult unat_word_ariths d)
  also have "\<dots> = unat a div 4096 * 4096"
    using le unat_lt_2p32 [of a] by (intro mod_less) linarith
  finally show ?thesis unfolding and_not_4095 .
qed

lemma unat_PGROUNDDOWN: "unat (PGROUNDDOWN a) = unat a div 4096 * 4096"
  unfolding PGROUNDDOWN_def by (rule unat_and_not_4095)

lemma unat_PGROUNDUP:
  assumes "unat a + 4095 < 2 ^ 32"
  shows "unat (PGROUNDUP a) = (unat a + 4095) div 4096 * 4096"
proof -
  have "unat (a + 4096 - 1) = unat a + 4095"
    using assms by (simp add: unat_word_ariths add_diff_eq [symmetric])
  then show ?thesis unfolding PGROUNDUP_def unat_and_not_4095 by simp
qed

lemma page_aligned_PGROUNDDOWN [simp]: "page_aligned (PGROUNDDOWN a)"
  by (simp add: page_aligned_def unat_PGROUNDDOWN)

lemma page_aligned_PGROUNDUP [simp]: "page_aligned (PGROUNDUP a)"
  unfolding page_aligned_def PGROUNDUP_def unat_and_not_4095 by simp

lemma PGROUNDDOWN_aligned: "page_aligned a \<longleftrightarrow> PGROUNDDOWN a = a"
  unfolding word_unat_eq_iff unat_PGROUNDDOWN page_aligned_def
  by (metis add.right_neutral div_mult_mod_eq mod_mult_self2_is_0)

lemma page_aligned_add:
  assumes "page_aligned p"
  shows "page_aligned (p + 4096)"
proof -
  obtain k where k: "unat p = 4096 * k"
    using assms by (rule page_alignedE)
  have "(4096 * k + 4096) mod 4294967296 mod 4096 = (4096 * k + 4096) mod 4096"
    by (rule mod_mod_cancel) simp
  then show ?thesis
    unfolding page_aligned_def by (simp add: unat_word_ariths k)
qed

lemma kfree_ok:
  assumes "page_aligned v" "kend s \<le> v" "v < PHYSTOP"
  shows "\<exists>t. kfree v s = Inr ((), t)"
  using assms by (simp add: kfree_def page_aligned_def PGSIZE_def not_less not_le)

lemma kinit_loop_run:
  assumes "kmem_inv s" "page_aligned p" "kend s \<le> p" "p \<noteq> 0" "\<forall>x \<in> set (free_pages s). x < p"
  shows "\<exists>t. kinit_loop p s = Inr ((), t) \<and> kmem_inv t
     \<and> set (free_pages t) = set (free_pages s)
         \<union> {q. page_aligned q \<and> p \<le> q \<and> unat q + PGSIZE \<le> unat PHYSTOP}"
  using assms
proof (induction p arbitrary: s rule: kinit_loop.induct)
  case (1 p)
  show ?case
  proof (cases "unat p + PGSIZE \<le> unat PHYSTOP")
    case False
    have none: "{q. page_aligned q \<and> p \<le> q \<and> unat q + PGSIZE \<le> unat PHYSTOP} = {}"
      using False by (auto simp: word_le_nat_alt)
    show ?thesis
      using False "1.prems"(1) by (subst kinit_loop.simps) (simp add: none)
  next
    case True
    then have lt: "p < PHYSTOP" by (simp add: word_less_nat_alt PGSIZE_def)
    have u: "unat (p + of_nat PGSIZE) = unat p + 4096"
      using True by (simp add: PGSIZE_def PHYSTOP_def unat_word_ariths)
    obtain t where t: "kfree p s = Inr ((), t)"
      using kfree_ok [OF "1.prems"(2,3) lt] by blast
    have new: "p \<notin> set (free_pages s)" using "1.prems"(5) by auto
    note k = kfree_step [OF "1.prems"(1) t new "1.prems"(4)]
    let ?q = "p + of_nat PGSIZE"
    have pq: "p < ?q" "kend s \<le> ?q" "?q \<noteq> 0"
      using u "1.prems"(3) by (auto simp: word_less_nat_alt word_le_nat_alt word_unat_eq_iff)
    have "\<forall>x \<in> set (free_pages t). x < ?q"
      using k "1.prems"(5) pq(1) by (auto intro: less_trans)
    moreover have "page_aligned ?q"
      using page_aligned_add [OF "1.prems"(2)] by (simp add: PGSIZE_def)
    ultimately obtain v where v: "kinit_loop ?q t = Inr ((), v)" "kmem_inv v"
        "set (free_pages v) = set (free_pages t)
           \<union> {q. page_aligned q \<and> ?q \<le> q \<and> unat q + PGSIZE \<le> unat PHYSTOP}"
      using "1.IH" [OF True, of t] k pq by auto
    have next_page: "p \<le> q \<longleftrightarrow> q = p \<or> ?q \<le> q" if al: "page_aligned q" for q
    proof -
      obtain i where "unat p = 4096 * i" using "1.prems"(2) by (rule page_alignedE)
      moreover obtain j where "unat q = 4096 * j" using al by (rule page_alignedE)
      ultimately show ?thesis
        unfolding word_le_nat_alt word_unat_eq_iff u by auto
    qed
    have "set (free_pages v) = set (free_pages s)
        \<union> {q. page_aligned q \<and> p \<le> q \<and> unat q + PGSIZE \<le> unat PHYSTOP}"
      unfolding v(3) using k next_page True "1.prems"(2) by auto
    moreover have "kinit_loop p s = Inr ((), v)"
      using True t v(1) by (subst kinit_loop.simps) simp
    ultimately show ?thesis using v(2) by blast
  qed
qed

lemma kalloc_history:
  assumes "kmem_inv s" "kalloc s = Inr (p, t)"
  shows "take (nat (num_alloc t)) (allocated t) = take (nat (num_alloc s)) (allocated s) @ [p]"
proof -
  have r: "free_pages s \<noteq> []" "num_alloc s < int NALLOC"
    using kalloc_Inr [OF assms] by auto
  have t: "num_alloc t = num_alloc s + 1" "allocated t = (allocated s)[nat (num_alloc s) := p]"
    using kalloc_step [OF assms(1) r] assms(2) by auto
  have na: "nat (num_alloc s) < length (allocated s)" "nat (num_alloc t) = Suc (nat (num_alloc s))"
    using assms(1) r(2) t(1) by (auto simp: kmem_inv_def nat_less_iff)
  show ?thesis
    unfolding t(2) na(2) using na(1) by (simp add: take_Suc_conv_app_nth)
qed

section \<open>Properties\<close>

text \<open>
  C7. \<open>kalloc\<close> on a well-formed allocator with a free page and room in the history
  always returns: it hands out the page at the random index of the free list, takes
  exactly that page out of the list, keeps the list well formed and acyclic, appends
  the page to the history, and writes only inside pages of the free list.
\<close>

theorem kalloc_correct:
  assumes "kmem_inv s" "free_pages s \<noteq> []" "num_alloc s < int NALLOC"
  shows "\<exists>t. kalloc s = Inr (free_pages s ! kalloc_index s, t)
     \<and> kalloc_index s < length (free_pages s) \<and> kmem_inv t
     \<and> mset (free_pages s) = add_mset (free_pages s ! kalloc_index s) (mset (free_pages t))
     \<and> take (nat (num_alloc t)) (allocated t)
         = take (nat (num_alloc s)) (allocated s) @ [free_pages s ! kalloc_index s]
     \<and> (\<forall>a. page_no a \<notin> page_no ` set (free_pages s) \<longrightarrow> mem t a = mem s a)"
proof -
  let ?xs = "free_pages s" and ?i = "kalloc_index s"
  obtain t where t: "kalloc s = Inr (?xs ! ?i, t)" "?i < length ?xs" "kmem_inv t"
      "free_pages t = take ?i ?xs @ drop (Suc ?i) ?xs"
      "\<forall>a. page_no a \<notin> page_no ` set ?xs \<longrightarrow> mem t a = mem s a"
      "num_alloc t = num_alloc s + 1"
      "allocated t = (allocated s)[nat (num_alloc s) := ?xs ! ?i]"
    using kalloc_step [OF assms] by blast
  have "take (nat (num_alloc t)) (allocated t) = take (nat (num_alloc s)) (allocated s) @ [?xs ! ?i]"
    using assms(1) t(1) by (rule kalloc_history)
  then show ?thesis
    using t mset_take_drop_Suc [OF t(2)] by auto
qed

definition kmem_example :: kmem_st where
  "kmem_example = \<lparr>rand_seed = 1, mem = (\<lambda>_. 0), kend = 0x100000, freelist = 0x200000,
     allocated = replicate NALLOC 0, num_alloc = 0, size_freelist = 1\<rparr>"

lemma kmem_example_inv:
  "kmem_inv kmem_example" "free_pages kmem_example \<noteq> []" "num_alloc kmem_example < int NALLOC"
  by (simp_all add: kmem_inv_def kmem_example_def free_pages_def free_page_ok_def page_aligned_def
      PHYSTOP_def NALLOC_def load32_def word_le_nat_alt word_less_nat_alt)

theorem kalloc_correct_witness:
  "\<exists>t. kalloc kmem_example
       = Inr (free_pages kmem_example ! kalloc_index kmem_example, t) \<and> kmem_inv t"
  using kalloc_correct [OF kmem_example_inv] by blast

text \<open>
  C24. \<open>kalloc\<close> never reports exhaustion by returning 0: when no page is free it stops
  with a divide error (\<open>xv6_rand() % size_freelist\<close> divides by zero), and when the
  history array of 512 entries is full the next successful removal writes past its
  end.
\<close>

theorem kalloc_exhausted:
  "(size_freelist s = 0 \<longrightarrow> kalloc s = Inl DivZero)
   \<and> (kmem_inv s \<and> free_pages s \<noteq> [] \<and> num_alloc s = int NALLOC
        \<longrightarrow> kalloc s = Inl (Undef ''kalloc: allocated overflow''))"
proof (intro conjI impI)
  assume "size_freelist s = 0"
  then show "kalloc s = Inl DivZero" by (simp add: kalloc_def xv6_rand_run)
qed (auto intro: kalloc_full)

theorem kalloc_exhausted_witness:
  "kalloc (kmem_example\<lparr>size_freelist := 0\<rparr>) = Inl DivZero
   \<and> kalloc (kmem_example\<lparr>num_alloc := 512\<rparr>) = Inl (Undef ''kalloc: allocated overflow'')"
proof -
  have "kmem_inv (kmem_example\<lparr>num_alloc := 512\<rparr>)" "free_pages (kmem_example\<lparr>num_alloc := 512\<rparr>) \<noteq> []"
    by (simp_all add: kmem_inv_def kmem_example_def free_pages_def free_page_ok_def page_aligned_def
      PHYSTOP_def NALLOC_def load32_def word_le_nat_alt word_less_nat_alt)
  then show ?thesis
    using kalloc_exhausted [of "kmem_example\<lparr>size_freelist := 0\<rparr>"]
      kalloc_exhausted [of "kmem_example\<lparr>num_alloc := 512\<rparr>"] by (simp add: NALLOC_def)
qed

lemma alloc_n_history:
  "kmem_inv s \<Longrightarrow> alloc_n kalloc n s = Inr (ps, t) \<Longrightarrow>
     take (nat (num_alloc t)) (allocated t) = take (nat (num_alloc s)) (allocated s) @ ps
     \<and> num_alloc t = num_alloc s + int n \<and> length ps = n \<and> kmem_inv t"
proof (induction n arbitrary: s ps)
  case 0
  then show ?case by simp
next
  case (Suc n)
  from Suc.prems(2) obtain p s1 qs where a: "kalloc s = Inr (p, s1)" "alloc_n kalloc n s1 = Inr (qs, t)"
      and ps: "ps = p # qs"
    by (auto simp: kbind_Inr_iff)
  note h = kalloc_history [OF Suc.prems(1) a(1)]
  note IH = Suc.IH [OF kalloc_facts(1) [OF Suc.prems(1) a(1)] a(2)]
  have "take (nat (num_alloc t)) (allocated t) = take (nat (num_alloc s)) (allocated s) @ ps"
    using IH [THEN conjunct1] h ps by simp
  moreover have "num_alloc t = num_alloc s + int (Suc n)"
    using IH kalloc_facts(7) [OF Suc.prems(1) a(1)] by simp
  ultimately show ?case using IH ps by (metis length_Cons)
qed

text \<open>
  C23. The allocation history is what \<open>dump_allocated\<close> reports: after \<open>n\<close> successful
  calls of \<open>kalloc\<close> the pages handed out are pairwise distinct, came from the free
  list and have left it, and \<open>dump_allocated\<close> asked for \<open>n\<close> frames stores exactly
  these pages, the most recent first; asked for more frames than were ever allocated
  it returns -1 and stores nothing.
\<close>

theorem dump_allocated_history:
  assumes inv: "kmem_inv s" and run: "alloc_n kalloc n s = Inr (ps, t)"
  shows "distinct ps \<and> set ps \<subseteq> set (free_pages s)
     \<and> set (free_pages t) = set (free_pages s) - set ps
     \<and> dump_allocated (int n) t = Inr ((0, rev ps), t)
     \<and> (\<forall>k > num_alloc t. dump_allocated k t = Inr ((-1, []), t))"
proof -
  note h = alloc_n_history [OF inv run]
  have na: "0 \<le> num_alloc s" using inv by (simp add: kmem_inv_def)
  have len: "length (take (nat (num_alloc s)) (allocated s)) = nat (num_alloc s)"
    using inv by (auto simp: kmem_inv_def nat_le_iff)
  have "allocated t ! nat (num_alloc t - 1 - int i) = rev ps ! i" if i: "i < n" for i
  proof -
    have k: "nat (num_alloc t - 1 - int i) = nat (num_alloc s) + (n - 1 - i)"
        "nat (num_alloc s) + (n - 1 - i) < nat (num_alloc t)"
      using i h na by auto
    have "allocated t ! nat (num_alloc t - 1 - int i)
        = take (nat (num_alloc t)) (allocated t) ! (nat (num_alloc s) + (n - 1 - i))"
      unfolding k(1) using k(2) by (rule nth_take [symmetric])
    also have "\<dots> = ps ! (n - 1 - i)"
      unfolding h [THEN conjunct1] using nth_append_length_plus [of "take (nat (num_alloc s)) (allocated s)" ps]
      unfolding len .
    finally show ?thesis using h i by (simp add: rev_nth)
  qed
  then have "map (\<lambda>i. allocated t ! nat (num_alloc t - 1 - int i)) [0..<n] = rev ps"
    using h by (intro nth_equalityI) auto
  then have "dump_allocated (int n) t = Inr ((0, rev ps), t)"
    using h na by (simp add: dump_allocated_def)
  then show ?thesis
    using kpages.alloc_n_distinct [OF inv run] by (auto simp: dump_allocated_def)
qed

lemma kmem_example_alloc: "\<exists>ps t. alloc_n kalloc 1 kmem_example = Inr (ps, t)"
  using kalloc_step [OF kmem_example_inv] by (auto simp: kbind_Inr_iff)

theorem dump_allocated_history_witness:
  "\<exists>ps t. alloc_n kalloc 1 kmem_example = Inr (ps, t)
     \<and> dump_allocated (int 1) t = Inr ((0, rev ps), t)"
  using kmem_example_alloc dump_allocated_history [OF kmem_example_inv(1), of 1] by blast

text \<open>
  C31. \<open>kinit\<close> on an empty allocator always returns with a well-formed free list that
  holds exactly the whole pages between the end of the kernel image and
  \<open>PHYSTOP\<close>, each once.
\<close>

theorem kinit_correct:
  assumes "freelist s = 0" "size_freelist s = 0" "num_alloc s = 0"
    and "length (allocated s) = NALLOC" "0 < kend s" "kend s < PHYSTOP"
  shows "\<exists>t. kinit s = Inr ((), t) \<and> kmem_inv t
     \<and> set (free_pages t) = {q. page_aligned q \<and> kend s \<le> q \<and> unat q + PGSIZE \<le> unat PHYSTOP}"
proof -
  let ?p = "PGROUNDUP (kend s)"
  have e: "unat (kend s) < 16777216" "0 < unat (kend s)"
    using assms(5,6) by (simp_all add: PHYSTOP_def word_less_nat_alt unat_gt_0)
  then have p: "unat ?p = (unat (kend s) + 4095) div 4096 * 4096"
    by (simp add: unat_PGROUNDUP)
  have ge: "unat (kend s) \<le> unat ?p" "unat ?p < unat (kend s) + 4096"
    unfolding p using div_mult_mod_eq [of "unat (kend s) + 4095" 4096] mod_less_divisor [of 4096 "unat (kend s) + 4095"]
    by linarith+
  have inv: "kmem_inv s" "free_pages s = []"
    using assms by (simp_all add: kmem_inv_def free_pages_def)
  have "kend s \<le> ?p" "?p \<noteq> 0"
    using ge e by (auto simp: word_le_nat_alt)
  then obtain t where t: "kinit_loop ?p s = Inr ((), t)" "kmem_inv t"
      "set (free_pages t) = {q. page_aligned q \<and> ?p \<le> q \<and> unat q + PGSIZE \<le> unat PHYSTOP}"
    using kinit_loop_run [OF inv(1) page_aligned_PGROUNDUP] inv(2) by auto
  have "?p \<le> q \<longleftrightarrow> kend s \<le> q" if al: "page_aligned q" for q
  proof -
    obtain j where j: "unat q = 4096 * j" using al by (rule page_alignedE)
    have "unat ?p \<le> 4096 * j \<longleftrightarrow> unat (kend s) \<le> 4096 * j"
      using ge unfolding p by auto
    then show ?thesis unfolding word_le_nat_alt j .
  qed
  then show ?thesis
    using t by (auto simp: kinit_def)
qed

theorem kinit_correct_witness:
  "\<exists>t. kinit (kmem_example\<lparr>freelist := 0, size_freelist := 0\<rparr>) = Inr ((), t) \<and> kmem_inv t"
  using kinit_correct [of "kmem_example\<lparr>freelist := 0, size_freelist := 0\<rparr>"]
  by (simp add: kmem_example_def PHYSTOP_def word_less_nat_alt) blast

end
