(* ===== verification/Vm.thy ===== *)
theory Vm
  imports Kalloc
begin

text \<open>
  Two-level page tables, \<open>kernel/vm.c\<close>, and the protection calls \<open>mprotect\<close> and
  \<open>munprotect\<close> of \<open>kernel/proc.c\<close>. A page directory and its page tables are pages of
  the physical memory; every operation reads and writes their 32-bit entries there.
  The lemmas abstract a page directory to the map from virtual pages to entries.
\<close>

section \<open>Model\<close>

definition PTE_P :: u32 where "PTE_P = 0x001"
definition PTE_W :: u32 where "PTE_W = 0x002"
definition PTE_U :: u32 where "PTE_U = 0x004"
definition USERTOP :: u32 where "USERTOP = 0xA0000"
definition NPDENTRIES :: nat where "NPDENTRIES = 1024"

definition PDX :: "addr \<Rightarrow> u32" where
  "PDX la = drop_bit 22 la AND 0x3FF"

definition PTX :: "addr \<Rightarrow> u32" where
  "PTX la = drop_bit 12 la AND 0x3FF"

definition PTE_ADDR :: "u32 \<Rightarrow> addr" where
  "PTE_ADDR pte = pte AND NOT 0xFFF"

text \<open>\<open>kpgdir\<close> is the kernel's own page directory, \<open>cr3\<close> the hardware register that
  selects the current one, \<open>kdata\<close> the linker's symbol \<open>data\<close>.\<close>

record vm_st = kmem_st +
  kpgdir :: addr
  cr3 :: addr
  kdata :: addr

text \<open>The address of element \<open>i\<close> of an array of 32-bit entries.\<close>

definition entry :: "addr \<Rightarrow> u32 \<Rightarrow> addr" where
  "entry p i = p + 4 * i"

definition load_word :: "addr \<Rightarrow> ('z kmem_st_scheme, u32) kop" where
  "load_word a = kget (\<lambda>s. load32 (mem s) a)"

definition store_word :: "addr \<Rightarrow> u32 \<Rightarrow> ('z kmem_st_scheme, unit) kop" where
  "store_word a v = kmod (\<lambda>s. s\<lparr>mem := store32 (mem s) a v\<rparr>)"

definition zero_page :: "addr \<Rightarrow> ('z kmem_st_scheme, unit) kop" where
  "zero_page p = kmod (\<lambda>s. s\<lparr>mem := memset (mem s) p 0 PGSIZE\<rparr>)"

definition walkpgdir :: "addr \<Rightarrow> addr \<Rightarrow> bool \<Rightarrow> ('z kmem_st_scheme, addr) kop" where
  "walkpgdir pgdir va create =
     kbind (load_word (entry pgdir (PDX va))) (\<lambda>pde.
     if pde AND PTE_P \<noteq> 0 then kret (entry (PTE_ADDR pde) (PTX va))
     else if \<not> create then kret 0
     else
     kbind kalloc (\<lambda>pgtab.
     if pgtab = 0 then kret 0
     else
     kbind (zero_page pgtab) (\<lambda>_.
     kbind (store_word (entry pgdir (PDX va)) (pgtab OR PTE_P OR PTE_W OR PTE_U)) (\<lambda>_.
     kret (entry pgtab (PTX va))))))"

lemma page_step_decreases:
  fixes lst a :: u32
  assumes "\<not> unat (lst - a) < PGSIZE"
  shows "unat (lst - (a + of_nat PGSIZE)) < unat (lst - a)"
proof -
  have "unat (d - 4096) = unat d - 4096" if "\<not> unat d < 4096" for d :: u32
    using that by (simp add: unat_sub_if')
  from this [of "lst - a"] have "unat (lst - a - 4096) = unat (lst - a) - 4096"
    using assms by (simp add: PGSIZE_def)
  moreover have "lst - (a + of_nat PGSIZE) = lst - a - 4096"
    by (simp add: PGSIZE_def)
  ultimately have "unat (lst - (a + of_nat PGSIZE)) = unat (lst - a) - 4096"
    by (simp only:)
  then show ?thesis
    using assms by (simp add: PGSIZE_def)
qed

lemma unat_page_offset: "unat (va - PGROUNDDOWN va) < PGSIZE"
proof -
  have "unat (PGROUNDDOWN va) \<le> unat va"
    by (simp add: unat_PGROUNDDOWN)
  then have "unat (va - PGROUNDDOWN va) = unat va - unat (PGROUNDDOWN va)"
    by (simp add: unat_sub_if')
  then show ?thesis
    by (simp add: unat_PGROUNDDOWN PGSIZE_def minus_mult_div_eq_mod)
qed

text \<open>
  The loop of \<open>mappages\<close> stops when \<open>a\<close> equals \<open>last\<close>. Both advance by whole pages
  from page-aligned values, so it always gets there; a distance that is not a
  multiple of the page size would never be closed, which is the \<open>Diverge\<close> branch.
\<close>

function mappages_loop :: "addr \<Rightarrow> addr \<Rightarrow> addr \<Rightarrow> u32 \<Rightarrow> u32 \<Rightarrow> ('z kmem_st_scheme, int) kop" where
  "mappages_loop pgdir a lst pa perm =
     kbind (walkpgdir pgdir a True) (\<lambda>pte.
     if pte = 0 then kret (-1)
     else
     kbind (load_word pte) (\<lambda>old.
     if old AND PTE_P \<noteq> 0 then kfail (Panic ''remap'')
     else
     kbind (store_word pte (pa OR perm OR PTE_P)) (\<lambda>_.
     if a = lst then kret 0
     else if unat (lst - a) < PGSIZE then kfail Diverge
     else mappages_loop pgdir (a + of_nat PGSIZE) lst (pa + of_nat PGSIZE) perm)))"
  by pat_completeness auto
termination
proof (relation "measure (\<lambda>(pgdir, a, lst, pa, perm). unat (lst - a))", goal_cases)
  case (2 pgdir a lst pa perm)
  then show ?case
    using page_step_decreases [of lst a] by simp
qed simp

declare mappages_loop.simps [simp del]

definition mappages :: "addr \<Rightarrow> addr \<Rightarrow> u32 \<Rightarrow> u32 \<Rightarrow> u32 \<Rightarrow> ('z kmem_st_scheme, int) kop" where
  "mappages pgdir la sz pa perm =
     mappages_loop pgdir (PGROUNDDOWN la) (PGROUNDDOWN (la + sz - 1)) pa perm"

text \<open>The table \<open>kmap\<close> of kernel mappings: start, end, permissions.\<close>

definition kmap :: "'z vm_st_scheme \<Rightarrow> (addr \<times> addr \<times> u32) list" where
  "kmap s = [(USERTOP, 0x100000, PTE_W), (0x100000, kdata s, 0), (kdata s, PHYSTOP, PTE_W),
     (0xFE000000, 0, PTE_W)]"

primrec setupkvm_loop :: "addr \<Rightarrow> (addr \<times> addr \<times> u32) list \<Rightarrow> ('z kmem_st_scheme, addr) kop" where
  "setupkvm_loop pgdir [] = kret pgdir"
| "setupkvm_loop pgdir (k # ks) =
     (case k of (p, e, perm) \<Rightarrow>
       kbind (mappages pgdir p (e - p) p perm) (\<lambda>r.
       if r < 0 then kret 0 else setupkvm_loop pgdir ks))"

definition setupkvm :: "('z vm_st_scheme, addr) kop" where
  "setupkvm =
     kbind kalloc (\<lambda>pgdir.
     if pgdir = 0 then kret 0
     else
     kbind (zero_page pgdir) (\<lambda>_.
     kbind (kget kmap) (\<lambda>ks. setupkvm_loop pgdir ks)))"

definition kvmalloc :: "('z vm_st_scheme, unit) kop" where
  "kvmalloc = kbind setupkvm (\<lambda>p. kmod (\<lambda>s. s\<lparr>kpgdir := p\<rparr>))"

definition switchkvm :: "('z vm_st_scheme, unit) kop" where
  "switchkvm = kmod (\<lambda>s. s\<lparr>cr3 := kpgdir s\<rparr>)"

text \<open>
  \<open>inituvm\<close>: \<open>init\<close> is the image of the first process, its bytes given as a list.
\<close>

definition inituvm :: "addr \<Rightarrow> u8 list \<Rightarrow> ('z vm_st_scheme, unit) kop" where
  "inituvm pgdir init =
     (if length init \<ge> PGSIZE then kfail (Panic ''inituvm: more than a page'')
      else
      kbind kalloc (\<lambda>m.
      kbind (zero_page m) (\<lambda>_.
      kbind (mappages pgdir 0 (of_nat PGSIZE) m (PTE_W OR PTE_U)) (\<lambda>_.
      kmod (\<lambda>s. s\<lparr>mem := fold (\<lambda>i f. f(m + of_nat i := init ! i)) [0..<length init] (mem s)\<rparr>)))))"

text \<open>
  \<open>deallocuvm\<close>: the loop over pages would wrap around the address space only if
  \<open>oldsz\<close> lay in the last page; then it never ends.
\<close>

function deallocuvm_loop :: "addr \<Rightarrow> u32 \<Rightarrow> u32 \<Rightarrow> ('z kmem_st_scheme, unit) kop" where
  "deallocuvm_loop pgdir a oldsz =
     (if a < oldsz then
        kbind (walkpgdir pgdir a False) (\<lambda>pte.
        kbind (if pte = 0 then kret 0 else load_word pte) (\<lambda>e.
        kbind (if pte \<noteq> 0 \<and> e AND PTE_P \<noteq> 0
               then (if PTE_ADDR e = 0 then kfail (Panic ''kfree'')
                     else kbind (kfree (PTE_ADDR e)) (\<lambda>_. store_word pte 0))
               else kret ()) (\<lambda>_.
        if a + of_nat PGSIZE \<le> a then kfail Diverge
        else deallocuvm_loop pgdir (a + of_nat PGSIZE) oldsz)))
      else kret ())"
  by pat_completeness auto
termination
proof (relation "measure (\<lambda>(pgdir, a, oldsz). 2 ^ 32 - unat a)", goal_cases)
  case (2 pgdir a oldsz)
  then have "unat a < unat (a + of_nat PGSIZE)"
    by (simp add: word_less_nat_alt not_le)
  then show ?case
    using unat_lt_2p32 [of a] by simp
qed simp

declare deallocuvm_loop.simps [simp del]

definition deallocuvm :: "addr \<Rightarrow> u32 \<Rightarrow> u32 \<Rightarrow> ('z kmem_st_scheme, u32) kop" where
  "deallocuvm pgdir oldsz newsz =
     (if newsz \<ge> oldsz then kret oldsz
      else kbind (deallocuvm_loop pgdir (PGROUNDUP newsz) oldsz) (\<lambda>_. kret newsz))"

function allocuvm_loop :: "addr \<Rightarrow> u32 \<Rightarrow> u32 \<Rightarrow> u32 \<Rightarrow> ('z kmem_st_scheme, u32) kop" where
  "allocuvm_loop pgdir a oldsz newsz =
     (if a < newsz then
        kbind kalloc (\<lambda>m.
        if m = 0 then kbind (deallocuvm pgdir newsz oldsz) (\<lambda>_. kret 0)
        else
        kbind (zero_page m) (\<lambda>_.
        kbind (mappages pgdir a (of_nat PGSIZE) m (PTE_W OR PTE_U)) (\<lambda>_.
        if a + of_nat PGSIZE \<le> a then kfail Diverge
        else allocuvm_loop pgdir (a + of_nat PGSIZE) oldsz newsz)))
      else kret newsz)"
  by pat_completeness auto
termination
proof (relation "measure (\<lambda>(pgdir, a, oldsz, newsz). 2 ^ 32 - unat a)", goal_cases)
  case (2 pgdir a oldsz newsz)
  then have "unat a < unat (a + of_nat PGSIZE)"
    by (simp add: word_less_nat_alt not_le)
  then show ?case
    using unat_lt_2p32 [of a] by simp
qed simp

declare allocuvm_loop.simps [simp del]

definition allocuvm :: "addr \<Rightarrow> u32 \<Rightarrow> u32 \<Rightarrow> ('z kmem_st_scheme, u32) kop" where
  "allocuvm pgdir oldsz newsz =
     (if newsz > USERTOP then kret 0
      else if newsz < oldsz then kret oldsz
      else allocuvm_loop pgdir (PGROUNDUP oldsz) oldsz newsz)"

definition freevm :: "addr \<Rightarrow> ('z kmem_st_scheme, unit) kop" where
  "freevm pgdir =
     (if pgdir = 0 then kfail (Panic ''freevm: no pgdir'')
      else
      kbind (deallocuvm pgdir USERTOP 0) (\<lambda>_.
      kbind (kfor [0..<NPDENTRIES] (\<lambda>i.
        kbind (load_word (entry pgdir (of_nat i))) (\<lambda>e.
        kwhen (e AND PTE_P \<noteq> 0) (kfree (PTE_ADDR e))))) (\<lambda>_.
      kfree pgdir)))"

definition copy_page :: "addr \<Rightarrow> addr \<Rightarrow> ('z kmem_st_scheme, unit) kop" where
  "copy_page dst src = kmod (\<lambda>s. s\<lparr>mem := memmove (mem s) dst src PGSIZE\<rparr>)"

function copyuvm_loop :: "addr \<Rightarrow> addr \<Rightarrow> u32 \<Rightarrow> u32 \<Rightarrow> ('z kmem_st_scheme, addr) kop" where
  "copyuvm_loop d pgdir i sz =
     (if i < sz then
        kbind (walkpgdir pgdir i False) (\<lambda>pte.
        if pte = 0 then kfail (Panic ''copyuvm: pte should exist'')
        else
        kbind (load_word pte) (\<lambda>e.
        if e AND PTE_P = 0 then kfail (Panic ''copyuvm: page not present'')
        else
        kbind kalloc (\<lambda>m.
        if m = 0 then kbind (freevm d) (\<lambda>_. kret 0)
        else
        kbind (copy_page m (PTE_ADDR e)) (\<lambda>_.
        kbind (mappages d i (of_nat PGSIZE) m
                 (if e AND PTE_W = 0 then PTE_U else PTE_W OR PTE_U)) (\<lambda>r.
        if r < 0 then kbind (freevm d) (\<lambda>_. kret 0)
        else if i + of_nat PGSIZE \<le> i then kfail Diverge
        else copyuvm_loop d pgdir (i + of_nat PGSIZE) sz)))))
      else kret d)"
  by pat_completeness auto
termination
proof (relation "measure (\<lambda>(d, pgdir, i, sz). 2 ^ 32 - unat i)", goal_cases)
  case (2 d pgdir i sz)
  then have "unat i < unat (i + of_nat PGSIZE)"
    by (simp add: word_less_nat_alt not_le)
  then show ?case
    using unat_lt_2p32 [of i] by simp
qed simp

declare copyuvm_loop.simps [simp del]

definition copyuvm :: "addr \<Rightarrow> u32 \<Rightarrow> ('z vm_st_scheme, addr) kop" where
  "copyuvm pgdir sz =
     kbind setupkvm (\<lambda>d. if d = 0 then kret 0 else copyuvm_loop d pgdir 0 sz)"

text \<open>
  \<open>uva2ka\<close> does not test the pointer \<open>walkpgdir\<close> returns: for an address whose page
  directory entry is absent it dereferences the null pointer.
\<close>

definition uva2ka :: "addr \<Rightarrow> addr \<Rightarrow> ('z kmem_st_scheme, addr) kop" where
  "uva2ka pgdir uva =
     kbind (walkpgdir pgdir uva False) (\<lambda>pte.
     if pte = 0 then kfail (Undef ''uva2ka: *pte'')
     else
     kbind (load_word pte) (\<lambda>e.
     if e AND PTE_P = 0 then kret 0
     else if e AND PTE_U = 0 then kret 0
     else kret (PTE_ADDR e)))"

text \<open>
  \<open>copyout\<close>: the kernel buffer \<open>p\<close> is given by its bytes; every round copies at least
  one byte.
\<close>

definition write_bytes :: "addr \<Rightarrow> u8 list \<Rightarrow> ('z kmem_st_scheme, unit) kop" where
  "write_bytes a bs = kmod (\<lambda>s. s\<lparr>mem := fold (\<lambda>i f. f(a + of_nat i := bs ! i)) [0..<length bs] (mem s)\<rparr>)"

definition copyout_n :: "u32 \<Rightarrow> nat \<Rightarrow> nat" where
  "copyout_n va len = min (PGSIZE - unat (va - PGROUNDDOWN va)) len"

function copyout :: "addr \<Rightarrow> u32 \<Rightarrow> u8 list \<Rightarrow> ('z kmem_st_scheme, int) kop" where
  "copyout pgdir va buf =
     (if buf = [] then kret 0
      else
      kbind (uva2ka pgdir (PGROUNDDOWN va)) (\<lambda>pa0.
      if pa0 = 0 then kret (-1)
      else
      let n = copyout_n va (length buf) in
      kbind (write_bytes (pa0 + (va - PGROUNDDOWN va)) (take n buf)) (\<lambda>_.
      copyout pgdir (PGROUNDDOWN va + of_nat PGSIZE) (drop n buf))))"
  by pat_completeness auto
termination
proof (relation "measure (\<lambda>(pgdir, va, buf). length buf)", goal_cases)
  case (2 pgdir va buf pa0 n)
  have "unat (va - PGROUNDDOWN va) < PGSIZE"
    by (rule unat_page_offset)
  then have "0 < n"
    using 2 by (simp add: copyout_n_def)
  then show ?case
    using 2 by simp
qed simp

declare copyout.simps [simp del]

text \<open>
  \<open>mprotect\<close> and \<open>munprotect\<close> run the same loop over the \<open>len\<close> pages from \<open>addr\<close> and
  differ in the mask; \<open>pgdir\<close> is \<open>proc->pgdir\<close>. A page whose page table is absent is
  passed over, one whose entry is absent ends the call with \<open>-1\<close>. The products of
  \<open>int\<close> values wrap around at 32 bits.
\<close>

function protect_loop :: "(u32 \<Rightarrow> u32) \<Rightarrow> addr \<Rightarrow> addr \<Rightarrow> addr \<Rightarrow> ('z kmem_st_scheme, int) kop" where
  "protect_loop f pgdir addr lst =
     kbind (load_word (entry pgdir (PDX addr))) (\<lambda>pde.
     kbind (if pde AND PTE_P \<noteq> 0
            then kbind (load_word (entry (PTE_ADDR pde) (PTX addr))) (\<lambda>e.
                 if e AND PTE_P \<noteq> 0
                 then kbind (store_word (entry (PTE_ADDR pde) (PTX addr)) (f e)) (\<lambda>_. kret True)
                 else kret False)
            else kret True) (\<lambda>ok.
     if \<not> ok then kret (-1)
     else if addr = lst then kret 0
     else if unat (lst - addr) < PGSIZE then kfail Diverge
     else protect_loop f pgdir (addr + of_nat PGSIZE) lst))"
  by pat_completeness auto
termination
proof (relation "measure (\<lambda>(f, pgdir, a, lst). unat (lst - a))", goal_cases)
  case (2 f pgdir a lst)
  then show ?case
    using page_step_decreases [of lst a] by simp
qed simp

declare protect_loop.simps [simp del]

definition mprotect :: "addr \<Rightarrow> addr \<Rightarrow> int \<Rightarrow> ('z kmem_st_scheme, int) kop" where
  "mprotect pgdir addr len =
     (if addr \<noteq> PGROUNDDOWN addr then kret (-1)
      else if len \<le> 0 then kret (-1)
      else protect_loop (\<lambda>e. e AND 0xFFFFFFFD) pgdir addr (addr + of_int ((len - 1) * int PGSIZE)))"

definition munprotect :: "addr \<Rightarrow> addr \<Rightarrow> int \<Rightarrow> ('z kmem_st_scheme, int) kop" where
  "munprotect pgdir addr len =
     (if addr \<noteq> PGROUNDDOWN addr then kret (-1)
      else if len \<le> 0 then kret (-1)
      else protect_loop (\<lambda>e. e OR 0x2) pgdir addr (addr + of_int ((len - 1) * int PGSIZE)))"

section \<open>Address spaces\<close>

abbreviation present :: "u32 \<Rightarrow> bool" where
  "present e \<equiv> e AND PTE_P \<noteq> 0"

definition pde :: "memory \<Rightarrow> addr \<Rightarrow> addr \<Rightarrow> u32" where
  "pde m d va = load32 m (entry d (PDX va))"

text \<open>The entry that governs \<open>va\<close>, 0 when its page table is absent.\<close>

definition pte_of :: "memory \<Rightarrow> addr \<Rightarrow> addr \<Rightarrow> u32" where
  "pte_of m d va =
     (if present (pde m d va) then load32 m (entry (PTE_ADDR (pde m d va)) (PTX va)) else 0)"

text \<open>The pages a page directory occupies: itself and its page tables.\<close>

definition pt_pages :: "memory \<Rightarrow> addr \<Rightarrow> addr set" where
  "pt_pages m d = insert d {PTE_ADDR (pde m d va) | va. present (pde m d va)}"

definition pgdir_ok :: "'z kmem_st_scheme \<Rightarrow> addr \<Rightarrow> bool" where
  "pgdir_ok s d \<longleftrightarrow>
     (\<forall>p \<in> pt_pages (mem s) d. free_page_ok s p \<and> p \<notin> set (free_pages s))
     \<and> (\<forall>va. present (pde (mem s) d va) \<longrightarrow> PTE_ADDR (pde (mem s) d va) \<noteq> d)
     \<and> (\<forall>va vb. present (pde (mem s) d va) \<longrightarrow> present (pde (mem s) d vb) \<longrightarrow> PDX va \<noteq> PDX vb \<longrightarrow>
           PTE_ADDR (pde (mem s) d va) \<noteq> PTE_ADDR (pde (mem s) d vb))"

subsection \<open>Indices and entries\<close>

lemma unat_and_3ff: "unat (x AND 0x3FF :: u32) = unat x mod 1024"
proof -
  have "x AND 0x3FF = take_bit 10 x"
    by (simp add: take_bit_eq_mask mask_eq_exp_minus_1)
  then show ?thesis
    by (simp add: take_bit_eq_mod unat_mod)
qed

lemma unat_PDX: "unat (PDX a) = unat a div 4194304"
proof -
  have "unat a div 4194304 < 1024"
    using unat_lt_2p32 [of a] by (simp add: less_mult_imp_div_less)
  then show ?thesis
    by (simp add: PDX_def unat_and_3ff drop_bit_eq_div unat_div)
qed

lemma unat_PTX: "unat (PTX a) = unat a div 4096 mod 1024"
  by (simp add: PTX_def unat_and_3ff drop_bit_eq_div unat_div)

lemma PDX_less: "unat (PDX a) < 1024"
  using unat_lt_2p32 [of a] by (simp add: unat_PDX less_mult_imp_div_less)

lemma PTX_less: "unat (PTX a) < 1024"
  by (simp add: unat_PTX)

lemma page_no_PDX_PTX: "page_no a = unat (PDX a) * 1024 + unat (PTX a)"
proof -
  have "unat a div 4194304 = unat a div 4096 div 1024"
    by (simp add: div_mult2_eq [symmetric])
  then show ?thesis
    by (simp add: page_no_def unat_PDX unat_PTX)
qed

lemma same_page_iff: "page_no a = page_no b \<longleftrightarrow> PDX a = PDX b \<and> PTX a = PTX b"
proof
  assume eq: "page_no a = page_no b"
  have "unat (PDX x) = page_no x div 1024" "unat (PTX x) = page_no x mod 1024" for x
    using PTX_less [of x] by (simp_all add: page_no_PDX_PTX)
  with eq show "PDX a = PDX b \<and> PTX a = PTX b"
    by (simp add: word_unat_eq_iff)
qed (simp add: page_no_PDX_PTX)

lemma unat_entry:
  assumes "page_aligned p" "unat i < 1024"
  shows "unat (entry p i) = unat p + 4 * unat i"
proof -
  obtain k where k: "unat p = 4096 * k"
    using assms(1) by (rule page_alignedE)
  have "k < 1048576"
    using unat_lt_2p32 [of p] k by simp
  then have "unat p + 4 * unat i < 4294967296"
    using k assms(2) by simp
  moreover have "unat (4 * i) = 4 * unat i"
    using assms(2) by (simp add: unat_word_ariths)
  ultimately show ?thesis
    by (simp add: entry_def unat_word_ariths)
qed

lemma entry_0 [simp]: "entry p 0 = p"
  by (simp add: entry_def)

lemma entry_aligned4:
  assumes "page_aligned p" "unat i < 1024"
  shows "aligned4 (entry p i)"
proof -
  obtain k where k: "unat p = 4096 * k"
    using assms(1) by (rule page_alignedE)
  have "(4096 * k + 4 * unat i) = 4 * (1024 * k + unat i)"
    by simp
  then show ?thesis
    unfolding aligned4_def unat_entry [OF assms] k by (metis mod_mult_self1_is_0)
qed

lemma entry_page_no:
  assumes "page_aligned p" "unat i < 1024"
  shows "page_no (entry p i) = page_no p"
proof -
  obtain k where k: "unat p = 4096 * k"
    using assms(1) by (rule page_alignedE)
  show ?thesis
    using assms(2) unfolding page_no_def unat_entry [OF assms] k by simp
qed

lemma entry_eq_iff:
  assumes "page_aligned p" "page_aligned q" "unat i < 1024" "unat j < 1024"
  shows "entry p i = entry q j \<longleftrightarrow> p = q \<and> i = j"
proof
  assume eq: "entry p i = entry q j"
  then have "page_no p = page_no q"
    using entry_page_no assms by metis
  then have "p = q"
    using page_aligned_eq_iff assms by blast
  have "unat p + 4 * unat i = unat q + 4 * unat j"
    using eq unat_entry [OF assms(1,3)] unat_entry [OF assms(2,4)] by simp
  then have "i = j"
    using \<open>p = q\<close> by (simp add: word_unat_eq_iff)
  with \<open>p = q\<close> show "p = q \<and> i = j" ..
qed simp

lemmas entry_simps = entry_aligned4 entry_page_no entry_eq_iff PDX_less PTX_less

lemma page_aligned_PTE_ADDR [simp]: "page_aligned (PTE_ADDR e)"
  using page_aligned_PGROUNDDOWN [of e] by (simp add: PTE_ADDR_def PGROUNDDOWN_def)

lemma PTE_ADDR_or:
  assumes "page_aligned p" "PTE_ADDR f = 0"
  shows "PTE_ADDR (p OR f) = p"
proof -
  have "PTE_ADDR p = p"
    using assms(1) by (simp add: PGROUNDDOWN_aligned PTE_ADDR_def PGROUNDDOWN_def)
  then show ?thesis
    using assms(2) by (simp add: PTE_ADDR_def bit.conj_disj_distrib2)
qed

lemma present_or [simp]: "(p OR PTE_P) AND PTE_P = PTE_P" "PTE_P \<noteq> 0" "PTE_ADDR PTE_P = 0"
  "PTE_ADDR PTE_W = 0" "PTE_ADDR PTE_U = 0"
  by (simp_all add: PTE_P_def PTE_W_def PTE_U_def PTE_ADDR_def bit.conj_disj_distrib2)

lemma present_orI: "present f \<Longrightarrow> present (p OR f)"
  by (simp add: bit.conj_disj_distrib2 or_eq_0_iff)

lemma PTE_ADDR_or_0 [simp]: "PTE_ADDR (a OR b) = 0 \<longleftrightarrow> PTE_ADDR a = 0 \<and> PTE_ADDR b = 0"
  by (simp add: PTE_ADDR_def bit.conj_disj_distrib2 or_eq_0_iff)

subsection \<open>Frames\<close>

lemma load_word_run [simp]: "load_word a s = Inr (load32 (mem s) a, s)"
  by (simp add: load_word_def)

lemma store_word_run [simp]: "store_word a v s = Inr ((), s\<lparr>mem := store32 (mem s) a v\<rparr>)"
  by (simp add: store_word_def)

lemma zero_page_run [simp]: "zero_page p s = Inr ((), s\<lparr>mem := memset (mem s) p 0 PGSIZE\<rparr>)"
  by (simp add: zero_page_def)

lemma kmem_inv_frame:
  assumes inv: "kmem_inv s" and eq: "\<And>a. page_no a \<in> page_no ` set (free_pages s) \<Longrightarrow> m a = mem s a"
  shows "free_pages (s\<lparr>mem := m\<rparr>) = free_pages s" "kmem_inv (s\<lparr>mem := m\<rparr>)"
proof -
  have al: "\<And>x. x \<in> set (free_pages s) \<Longrightarrow> page_aligned x"
    using inv by (auto simp: kmem_inv_def free_page_ok_def)
  have "linked (mem s) (freelist s) (free_pages s)"
    using inv by (simp add: kmem_inv_def)
  then have l: "linked m (freelist s) (free_pages s)"
    using linked_pages_cong [of "free_pages s" m "mem s"] al eq by blast
  then show f: "free_pages (s\<lparr>mem := m\<rparr>) = free_pages s"
    using inv length_free_pages [of s] by (intro free_pages_eqI) (simp_all add: kmem_inv_def)
  show "kmem_inv (s\<lparr>mem := m\<rparr>)"
    using inv l f by (simp add: kmem_inv_def free_page_ok_def)
qed

lemma pde_cong:
  assumes "page_aligned d" "\<And>a. page_no a = page_no d \<Longrightarrow> m a = m' a"
  shows "pde m d va = pde m' d va"
  unfolding pde_def using assms
  by (intro load32_other_page) (simp_all add: entry_simps)

lemma pt_pages_cong:
  assumes "page_aligned d" "\<And>a. page_no a = page_no d \<Longrightarrow> m a = m' a"
  shows "pt_pages m d = pt_pages m' d"
  unfolding pt_pages_def by (simp add: pde_cong [OF assms])

lemma pte_of_cong:
  assumes d: "page_aligned d" and eq: "\<And>a. page_no a \<in> page_no ` pt_pages m d \<Longrightarrow> m' a = m a"
  shows "pte_of m' d va = pte_of m d va"
proof -
  have pd: "pde m' d va = pde m d va"
    using d eq by (intro pde_cong) (simp_all add: pt_pages_def)
  have "load32 m' (entry (PTE_ADDR (pde m d va)) (PTX va)) = load32 m (entry (PTE_ADDR (pde m d va)) (PTX va))"
    if "present (pde m d va)"
  proof (rule load32_other_page)
    show "aligned4 (entry (PTE_ADDR (pde m d va)) (PTX va))"
      by (simp add: entry_simps)
    have "PTE_ADDR (pde m d va) \<in> pt_pages m d"
      using that by (auto simp: pt_pages_def)
    then show "m' b = m b" if "page_no b = page_no (entry (PTE_ADDR (pde m d va)) (PTX va))" for b
      using that eq by (simp add: entry_simps)
  qed
  then show ?thesis
    by (simp add: pte_of_def pd)
qed

lemma pte_of_same_page: "page_no a = page_no b \<Longrightarrow> pte_of m d a = pte_of m d b"
  by (simp add: same_page_iff pte_of_def pde_def)

lemma pgdir_okD:
  assumes "pgdir_ok s d"
  shows "page_aligned d" "d \<noteq> 0" "d \<notin> set (free_pages s)" "d < PHYSTOP" "kend s \<le> d"
  using assms by (auto simp: pgdir_ok_def pt_pages_def free_page_ok_def)

lemma pgdir_ok_table:
  assumes "pgdir_ok s d" "present (pde (mem s) d va)"
  shows "free_page_ok s (PTE_ADDR (pde (mem s) d va))" "PTE_ADDR (pde (mem s) d va) \<notin> set (free_pages s)"
    "PTE_ADDR (pde (mem s) d va) \<noteq> d" "PTE_ADDR (pde (mem s) d va) \<noteq> 0"
  using assms by (auto simp: pgdir_ok_def pt_pages_def free_page_ok_def)

lemma pgdir_ok_PDX:
  assumes "pgdir_ok s d" "present (pde (mem s) d va)" "present (pde (mem s) d vb)"
  shows "PTE_ADDR (pde (mem s) d va) = PTE_ADDR (pde (mem s) d vb) \<longleftrightarrow> PDX va = PDX vb"
  using assms by (auto simp: pgdir_ok_def pde_def)

text \<open>
  \<open>pt_extends d s t\<close>: \<open>t\<close> follows \<open>s\<close> by steps that write only to the page tables of
  \<open>d\<close> and to pages taken from the free list.
\<close>

definition pt_extends :: "addr \<Rightarrow> 'z kmem_st_scheme \<Rightarrow> 'z kmem_st_scheme \<Rightarrow> bool" where
  "pt_extends d s t \<longleftrightarrow>
     kmem_inv t \<and> pgdir_ok t d \<and> kend t = kend s \<and> kmem_st.more t = kmem_st.more s
     \<and> set (free_pages t) \<subseteq> set (free_pages s)
     \<and> pt_pages (mem t) d \<subseteq> pt_pages (mem s) d \<union> (set (free_pages s) - set (free_pages t))
     \<and> (\<forall>a. page_no a \<notin> page_no ` (set (free_pages s) \<union> pt_pages (mem s) d) \<longrightarrow> mem t a = mem s a)"

lemma pt_extends_refl: "kmem_inv s \<Longrightarrow> pgdir_ok s d \<Longrightarrow> pt_extends d s s"
  by (simp add: pt_extends_def)

lemma pt_extends_trans:
  assumes "pt_extends d s t" "pt_extends d t u"
  shows "pt_extends d s u"
proof -
  have sub: "set (free_pages t) \<union> pt_pages (mem t) d \<subseteq> set (free_pages s) \<union> pt_pages (mem s) d"
    using assms(1) by (auto simp: pt_extends_def)
  have "mem u a = mem s a" if "page_no a \<notin> page_no ` (set (free_pages s) \<union> pt_pages (mem s) d)" for a
  proof -
    have "page_no a \<notin> page_no ` (set (free_pages t) \<union> pt_pages (mem t) d)"
      using that sub by blast
    then show ?thesis
      using assms that unfolding pt_extends_def by metis
  qed
  then show ?thesis
    using assms by (auto simp: pt_extends_def)
qed

lemma page_no_neq: "page_aligned p \<Longrightarrow> page_aligned q \<Longrightarrow> p \<noteq> q \<Longrightarrow> page_no p \<noteq> page_no q"
  by (simp add: page_aligned_eq_iff)

lemma pgdir_ok_cong:
  assumes "pgdir_ok s d" "\<And>va. pde (mem t) d va = pde (mem s) d va" "kend t = kend s"
    "set (free_pages t) \<subseteq> set (free_pages s)"
  shows "pgdir_ok t d"
proof -
  have "pt_pages (mem t) d = pt_pages (mem s) d"
    using assms(2) by (simp add: pt_pages_def)
  then show ?thesis
    using assms by (auto simp: pgdir_ok_def free_page_ok_def)
qed

lemma store_pte:
  fixes v :: u32
  assumes inv: "kmem_inv s" and ok: "pgdir_ok s d" and pr: "present (pde (mem s) d va)"
  defines "t \<equiv> s\<lparr>mem := store32 (mem s) (entry (PTE_ADDR (pde (mem s) d va)) (PTX va)) v\<rparr>"
  shows "pt_extends d s t" "pde (mem t) d vb = pde (mem s) d vb" "free_pages t = free_pages s"
    "pte_of (mem t) d vb = (if page_no vb = page_no va then v else pte_of (mem s) d vb)"
proof -
  let ?T = "PTE_ADDR (pde (mem s) d va)" and ?e = "entry (PTE_ADDR (pde (mem s) d va)) (PTX va)"
  note T = pgdir_ok_table [OF ok pr]
  note d = pgdir_okD [OF ok]
  have e: "aligned4 ?e" "page_no ?e = page_no ?T"
    by (simp_all add: entry_simps)
  have other: "mem t a = mem s a" if "page_no a \<noteq> page_no ?T" for a
    using that e by (simp add: t_def mem_simps)
  have fr: "mem t a = mem s a" if "page_no a \<in> page_no ` set (free_pages s)" for a
    using other T(2) inv that page_aligned_eq_iff [of _ ?T]
    by (auto simp: kmem_inv_def free_page_ok_def image_iff) (metis page_aligned_PTE_ADDR)
  have t: "t = s\<lparr>mem := mem t\<rparr>"
    by (simp add: t_def)
  show f: "free_pages t = free_pages s"
    using kmem_inv_frame(1) [OF inv fr] t by simp
  have i: "kmem_inv t"
    using kmem_inv_frame(2) [OF inv fr] t by simp
  have pd: "pde (mem t) d vc = pde (mem s) d vc" for vc
    using other page_no_neq [OF d(1) page_aligned_PTE_ADDR] T(3) d(1) by (intro pde_cong) auto
  then show "pde (mem t) d vb = pde (mem s) d vb" .
  have po: "pgdir_ok t d"
    using ok pd by (rule pgdir_ok_cong) (simp_all add: f, simp add: t_def)
  have "?T \<in> pt_pages (mem s) d"
    using pr by (auto simp: pt_pages_def)
  then have "mem t a = mem s a" if "page_no a \<notin> page_no ` pt_pages (mem s) d" for a
    using that other by blast
  then show "pt_extends d s t"
    using i po f pd by (auto simp: pt_extends_def pt_pages_def) (simp_all add: t_def)
  show "pte_of (mem t) d vb = (if page_no vb = page_no va then v else pte_of (mem s) d vb)"
  proof (cases "present (pde (mem s) d vb)")
    case True
    let ?f = "entry (PTE_ADDR (pde (mem s) d vb)) (PTX vb)"
    have "?f = ?e \<longleftrightarrow> page_no vb = page_no va"
      by (simp add: entry_simps same_page_iff pgdir_ok_PDX [OF ok True pr])
    moreover have "aligned4 ?f"
      by (simp add: entry_simps)
    ultimately show ?thesis
      using True e(1) by (auto simp: pte_of_def pd) (auto simp: t_def mem_simps)
  next
    case False
    then have "page_no vb \<noteq> page_no va"
      using pr by (auto simp: same_page_iff pde_def)
    then show ?thesis
      using False by (simp add: pte_of_def pd)
  qed
qed

lemma walkpgdir_present:
  "present (pde (mem s) d va) \<Longrightarrow>
     walkpgdir d va c s = Inr (entry (PTE_ADDR (pde (mem s) d va)) (PTX va), s)"
  by (simp add: walkpgdir_def pde_def)

lemma walkpgdir_absent: "\<not> present (pde (mem s) d va) \<Longrightarrow> walkpgdir d va False s = Inr (0, s)"
  by (simp add: walkpgdir_def pde_def)

lemma entry_nonzero:
  assumes "page_aligned p" "p \<noteq> 0" "unat i < 1024"
  shows "entry p i \<noteq> 0"
proof -
  have "unat p \<noteq> 0" using assms(2) by (simp add: unat_eq_0)
  then have "unat (entry p i) \<noteq> 0"
    using unat_entry [OF assms(1,3)] by simp
  then show ?thesis by auto
qed

text \<open>
  A page table is added to \<open>d\<close>: \<open>m\<close> is the memory after the fresh page \<open>p\<close> is cleared
  and linked at the directory entry of \<open>va\<close>.
\<close>

lemma new_table:
  assumes ok: "pgdir_ok s d" and ab: "\<not> present (pde (mem s) d va)"
    and p: "page_aligned p" "p \<in> set (free_pages s)"
    and fr: "\<And>a. page_no a \<notin> page_no ` set (free_pages s) \<Longrightarrow> m1 a = mem s a"
    and al: "\<forall>x \<in> set (free_pages s). page_aligned x"
  defines "e \<equiv> p OR PTE_P OR PTE_W OR PTE_U"
  defines "m \<equiv> store32 (memset m1 p 0 4096) (entry d (PDX va)) e"
  shows "page_no a \<noteq> page_no p \<Longrightarrow> page_no a \<noteq> page_no d \<Longrightarrow> m a = m1 a"
    and "pde m d vb = (if PDX vb = PDX va then e else pde (mem s) d vb)"
    and "PTE_ADDR e = p" "present e"
    and "pte_of m d vb = pte_of (mem s) d vb"
proof -
  note d = pgdir_okD [OF ok]
  have ed: "aligned4 (entry d (PDX x))" "page_no (entry d (PDX x)) = page_no d" for x
    using d(1) by (simp_all add: entry_simps)
  have dp: "page_no d \<noteq> page_no p"
    using d(1,3) p by (intro page_no_neq) auto
  have dfree: "page_no d \<notin> page_no ` set (free_pages s)"
    using d(1,3) al page_aligned_eq_iff by blast
  show m: "m a = m1 a" if "page_no a \<noteq> page_no p" "page_no a \<noteq> page_no d" for a
    using that ed by (simp add: m_def mem_simps memset_page [OF p(1)])
  show e: "PTE_ADDR e = p"
    unfolding e_def by (simp add: PTE_ADDR_or p(1) or.assoc)
  show pr: "present e"
    unfolding e_def by (metis or.assoc or.commute present_or(1,2))
  have pd1: "load32 (memset m1 p 0 4096) (entry d (PDX x)) = pde (mem s) d x" for x
  proof -
    have "load32 (memset m1 p 0 4096) (entry d (PDX x)) = load32 m1 (entry d (PDX x))"
      using p(1) ed dp by (intro load32_memset_other) simp_all
    also have "\<dots> = load32 (mem s) (entry d (PDX x))"
      using ed dfree by (intro load32_other_page) (simp_all add: fr)
    finally show ?thesis by (simp add: pde_def)
  qed
  show pd: "pde m d vb = (if PDX vb = PDX va then e else pde (mem s) d vb)" for vb
  proof (cases "PDX vb = PDX va")
    case True
    then show ?thesis by (simp add: pde_def m_def)
  next
    case False
    then have "entry d (PDX vb) \<noteq> entry d (PDX va)"
      using d(1) by (simp add: entry_simps)
    then have "pde m d vb = load32 (memset m1 p 0 4096) (entry d (PDX vb))"
      using ed by (simp add: pde_def m_def mem_simps)
    then show ?thesis
      using False pd1 by simp
  qed
  show "pte_of m d vb = pte_of (mem s) d vb"
  proof (cases "PDX vb = PDX va")
    case True
    have "load32 m (entry p (PTX vb)) = load32 (memset m1 p 0 4096) (entry p (PTX vb))"
      unfolding m_def using p(1) ed dp
      by (intro load32_other_page) (simp_all add: entry_simps mem_simps)
    also have "\<dots> = 0"
      using p(1) by (intro load32_memset_page_0) (simp_all add: entry_simps)
    finally show ?thesis
      using True ab e pr by (simp add: pte_of_def pd pde_def [of "mem s"])
  next
    case False
    have "load32 m (entry T (PTX vb)) = load32 (mem s) (entry T (PTX vb))"
      if "present (pde (mem s) d vb)" "T = PTE_ADDR (pde (mem s) d vb)" for T
    proof (rule load32_other_page)
      have T: "T \<noteq> d" "T \<notin> set (free_pages s)" "page_aligned T"
        using pgdir_ok_table [OF ok that(1)] that(2) by auto
      then show "aligned4 (entry T (PTX vb))"
        by (simp add: entry_simps)
      have "page_no T \<noteq> page_no p" "page_no T \<noteq> page_no d" "page_no T \<notin> page_no ` set (free_pages s)"
        using T p d(1) al page_aligned_eq_iff by blast+
      then show "m b = mem s b" if "page_no b = page_no (entry T (PTX vb))" for b
        using that T m [of b] fr [of b] by (simp add: entry_simps)
    qed
    then show ?thesis
      using False by (simp add: pte_of_def pd)
  qed
qed

lemma walkpgdir_create:
  assumes inv: "kmem_inv s" and ok: "pgdir_ok s d" and run: "walkpgdir d va True s = Inr (q, t)"
  shows "pt_extends d s t" "present (pde (mem t) d va)"
    "q = entry (PTE_ADDR (pde (mem t) d va)) (PTX va)" "q \<noteq> 0"
    "pte_of (mem t) d vb = pte_of (mem s) d vb"
proof -
  have "pt_extends d s t \<and> present (pde (mem t) d va)
    \<and> q = entry (PTE_ADDR (pde (mem t) d va)) (PTX va) \<and> pte_of (mem t) d vb = pte_of (mem s) d vb"
  proof (cases "present (pde (mem s) d va)")
    case True
    then show ?thesis
      using run walkpgdir_present [OF True] pt_extends_refl [OF inv ok] by auto
  next
    case False
    obtain p s1 where a: "kalloc s = Inr (p, s1)"
      and q: "q = entry p (PTX va)"
      and t: "t = s1\<lparr>mem := store32 (memset (mem s1) p 0 4096) (entry d (PDX va))
                  (p OR PTE_P OR PTE_W OR PTE_U)\<rparr>"
      using run False kalloc_facts(10) [OF inv]
      by (fastforce simp: walkpgdir_def pde_def kbind_Inr_iff PGSIZE_def split: if_splits)
    note A = kalloc_facts [OF inv a] and d = pgdir_okD [OF ok]
    have al: "\<forall>x \<in> set (free_pages s). page_aligned x"
      using inv by (auto simp: kmem_inv_def free_page_ok_def)
    note N = new_table [OF ok False A(9,2) A(4) [rule_format] al]
    have pd: "pde (mem t) d vb = (if PDX vb = PDX va then p OR PTE_P OR PTE_W OR PTE_U else pde (mem s) d vb)" for vb
      using N(2) by (simp add: t)
    have fr: "mem t a = mem s1 a" if "page_no a \<in> page_no ` set (free_pages s1)" for a
    proof -
      have "page_no a \<noteq> page_no p" "page_no a \<noteq> page_no d"
        using that A(2,3,9) al d page_aligned_eq_iff by (auto; blast)+
      then show ?thesis using N(1) by (simp add: t)
    qed
    have t': "t = s1\<lparr>mem := mem t\<rparr>" by (simp add: t)
    have f: "free_pages t = free_pages s1" and i: "kmem_inv t"
      using kmem_inv_frame [OF A(1) fr] t' by simp_all
    have okp: "free_page_ok t p"
      using A(5,9-12) by (simp add: free_page_ok_def t)
    have pp: "pt_pages (mem t) d \<subseteq> insert p (pt_pages (mem s) d)"
      using N(3) by (auto simp: pt_pages_def pd split: if_splits)
    have new: "PTE_ADDR (pde (mem s) d x) \<noteq> p" if "present (pde (mem s) d x)" for x
      using pgdir_ok_table(2) [OF ok that] A(2) by auto
    have fpo: "free_page_ok t x = free_page_ok s x" for x
      using A(5) by (simp add: free_page_ok_def t)
    have "free_page_ok t x \<and> x \<notin> set (free_pages t)" if "x \<in> pt_pages (mem t) d" for x
      using that pp ok okp A(3) fpo f by (auto simp: pgdir_ok_def)
    moreover have "PTE_ADDR (pde (mem t) d x) \<noteq> d" if "present (pde (mem t) d x)" for x
      using that N(3) d(3) A(2) ok by (auto simp: pd pgdir_ok_def split: if_splits)
    moreover have "PTE_ADDR (pde (mem t) d x) \<noteq> PTE_ADDR (pde (mem t) d y)"
      if "present (pde (mem t) d x)" "present (pde (mem t) d y)" "PDX x \<noteq> PDX y" for x y
      using that N(3) new [of x] new [of y] ok by (simp add: pd pgdir_ok_def split: if_splits)
    ultimately have po: "pgdir_ok t d"
      unfolding pgdir_ok_def by blast
    have m: "mem t a = mem s a" if "page_no a \<notin> page_no ` (set (free_pages s) \<union> pt_pages (mem s) d)" for a
    proof -
      have "page_no a \<noteq> page_no p" "page_no a \<noteq> page_no d" "page_no a \<notin> page_no ` set (free_pages s)"
        using that A(2) by (auto simp: pt_pages_def)
      then show ?thesis using N(1) A(4) by (simp add: t)
    qed
    have "kmem_st.more t = kmem_st.more s1" "kend t = kend s1"
      by (simp_all add: t)
    then have "pt_extends d s t"
      using i po f A(2,3,5,6) pp m by (auto simp: pt_extends_def)
    then show ?thesis
      using pd N(3,4,5) q by (simp add: t)
  qed
  moreover from this have "q \<noteq> 0"
    using pgdir_ok_table(4) [of t d va] entry_nonzero [OF page_aligned_PTE_ADDR _ PTX_less]
    by (simp add: pt_extends_def)
  ultimately show "pt_extends d s t" "present (pde (mem t) d va)"
    "q = entry (PTE_ADDR (pde (mem t) d va)) (PTX va)" "q \<noteq> 0"
    "pte_of (mem t) d vb = pte_of (mem s) d vb"
    by auto
qed

lemma walkpgdir_Inl:
  assumes "kmem_inv s" "walkpgdir d va c s = Inl f"
  shows "f = DivZero \<or> f = Undef ''kalloc: allocated overflow''"
proof -
  have "kalloc s = Inl f"
    using assms(2) by (cases "kalloc s") (auto simp: walkpgdir_def split: if_splits)
  then show ?thesis
    using kalloc_Inl [OF assms(1)] by blast
qed

subsection \<open>Mapping a range of pages\<close>

definition page_range :: "addr \<Rightarrow> nat \<Rightarrow> addr \<Rightarrow> bool" where
  "page_range a n va \<longleftrightarrow> page_no a \<le> page_no va \<and> page_no va \<le> page_no a + n"

definition maps_to :: "u32 \<Rightarrow> addr \<Rightarrow> u32 \<Rightarrow> addr \<Rightarrow> u32" where
  "maps_to pa a perm va = (pa + of_nat ((page_no va - page_no a) * 4096)) OR perm OR PTE_P"

lemma page_step:
  assumes "page_aligned a" "unat a + 4096 * Suc n < 4294967296"
  shows "page_aligned (a + 4096)" "unat (a + 4096) = unat a + 4096" "page_no (a + 4096) = Suc (page_no a)"
proof -
  show "unat (a + 4096) = unat a + 4096"
    using assms(2) by (simp add: unat_word_ariths)
  then show "page_aligned (a + 4096)" "page_no (a + 4096) = Suc (page_no a)"
    using assms(1) by (simp_all add: page_aligned_def page_no_def)
qed

lemma range_distance:
  fixes a :: u32
  assumes "unat a + 4096 * Suc n < 4294967296"
  shows "unat ((a + of_nat (4096 * Suc n)) - a) = 4096 * Suc n"
proof -
  have "4096 * Suc n < 4294967296" using assms by simp
  then have "unat (of_nat (4096 * Suc n) :: u32) = 4096 * Suc n"
    unfolding unat_of_nat by simp
  then show ?thesis
    by (simp only: add_diff_cancel_left')
qed

lemma range_Suc_neq:
  fixes a :: u32
  assumes "unat a + 4096 * Suc n < 4294967296"
  shows "a \<noteq> a + of_nat (4096 * Suc n)"
proof
  assume "a = a + of_nat (4096 * Suc n)"
  then have "unat ((a + of_nat (4096 * Suc n)) - a) = 0" by simp
  then show False unfolding range_distance [OF assms] by simp
qed

lemma page_range_0: "page_range a 0 va \<longleftrightarrow> page_no va = page_no a"
  by (auto simp: page_range_def)

lemma page_range_Suc:
  "page_no b = Suc (page_no a) \<Longrightarrow> page_range a (Suc n) va \<longleftrightarrow> page_no va = page_no a \<or> page_range b n va"
  by (auto simp: page_range_def)

lemma maps_to_Suc:
  assumes "page_no b = Suc (page_no a)" "page_range b n va"
  shows "maps_to (pa + 4096) b perm va = maps_to pa a perm va"
proof -
  have "page_no va - page_no a = Suc (page_no va - page_no b)"
    using assms by (auto simp: page_range_def)
  then show ?thesis by (simp add: maps_to_def algebra_simps)
qed

lemma maps_to_first: "page_no va = page_no a \<Longrightarrow> maps_to pa a perm va = pa OR perm OR PTE_P"
  by (simp add: maps_to_def)

text \<open>One round of the loop: it fills the entry of \<open>a\<close>.\<close>

lemma mappages_round:
  assumes inv: "kmem_inv s" and ok: "pgdir_ok s d"
  shows "(\<exists>t. mappages_loop d a lst pa perm s =
            (if a = lst then Inr (0, t)
             else if unat (lst - a) < PGSIZE then Inl Diverge
             else mappages_loop d (a + 4096) lst (pa + 4096) perm t)
          \<and> \<not> present (pte_of (mem s) d a) \<and> pt_extends d s t
          \<and> (\<forall>vb. pte_of (mem t) d vb
                = (if page_no vb = page_no a then pa OR perm OR PTE_P else pte_of (mem s) d vb)))
       \<or> mappages_loop d a lst pa perm s = Inl (Panic ''remap'') \<and> present (pte_of (mem s) d a)
       \<or> (\<exists>f. mappages_loop d a lst pa perm s = Inl f
            \<and> (f = DivZero \<or> f = Undef ''kalloc: allocated overflow''))"
proof (cases "walkpgdir d a True s")
  case (Inl f)
  then show ?thesis
    using walkpgdir_Inl [OF inv Inl] by (simp add: mappages_loop.simps [of d a])
next
  case (Inr r)
  obtain q s1 where w: "walkpgdir d a True s = Inr (q, s1)"
    using Inr by (cases r) auto
  note W = walkpgdir_create [OF inv ok w]
  have s1: "kmem_inv s1" "pgdir_ok s1 d"
    using W(1) by (auto simp: pt_extends_def)
  have ld: "load32 (mem s1) q = pte_of (mem s) d a"
    using W(2,3) W(5) [of a, symmetric] by (simp add: pte_of_def)
  show ?thesis
  proof (cases "present (pte_of (mem s) d a)")
    case True
    then show ?thesis
      using w W(4) ld by (simp add: mappages_loop.simps [of d a])
  next
    case False
    let ?t = "s1\<lparr>mem := store32 (mem s1) q (pa OR perm OR PTE_P)\<rparr>"
    note S = store_pte [OF s1 W(2), of "pa OR perm OR PTE_P", folded W(3)]
    have "mappages_loop d a lst pa perm s =
            (if a = lst then Inr (0, ?t)
             else if unat (lst - a) < PGSIZE then Inl Diverge
             else mappages_loop d (a + 4096) lst (pa + 4096) perm ?t)"
      using w W(4) ld False by (simp add: mappages_loop.simps [of d a] PGSIZE_def)
    then show ?thesis
      using False pt_extends_trans [OF W(1) S(1)] S(4) W(5) by (intro disjI1 exI [of _ ?t]) simp
  qed
qed

definition kalloc_fault :: "fault \<Rightarrow> bool" where
  "kalloc_fault f \<longleftrightarrow> f = DivZero \<or> f = Undef ''kalloc: allocated overflow''"

definition mapped_range :: "addr \<Rightarrow> addr \<Rightarrow> nat \<Rightarrow> u32 \<Rightarrow> u32 \<Rightarrow> 'z kmem_st_scheme \<Rightarrow> 'z kmem_st_scheme \<Rightarrow> bool" where
  "mapped_range d a n pa perm s t \<longleftrightarrow>
     pt_extends d s t
     \<and> (\<forall>va. page_range a n va \<longrightarrow> \<not> present (pte_of (mem s) d va))
     \<and> (\<forall>va. pte_of (mem t) d va = (if page_range a n va then maps_to pa a perm va else pte_of (mem s) d va))"

lemma mapped_range_Suc:
  assumes b: "page_no b = Suc (page_no a)"
    and np: "\<not> present (pte_of (mem s) d a)" and ex: "pt_extends d s t"
    and lk: "\<forall>vb. pte_of (mem t) d vb = (if page_no vb = page_no a then pa OR perm OR PTE_P else pte_of (mem s) d vb)"
    and u: "mapped_range d b n (pa + 4096) perm t u"
  shows "mapped_range d a (Suc n) pa perm s u"
proof -
  have first: "\<not> page_range b n va" if "page_no va = page_no a" for va
    using b that by (simp add: page_range_def)
  have "\<not> present (pte_of (mem s) d va)" if "page_range a (Suc n) va" for va
    using that u lk np pte_of_same_page [of va a "mem s" d]
    by (cases "page_no va = page_no a") (auto simp: mapped_range_def page_range_Suc [OF b])
  moreover have "pte_of (mem u) d va = (if page_range a (Suc n) va then maps_to pa a perm va else pte_of (mem s) d va)" for va
  proof (cases "page_range b n va")
    case True
    then show ?thesis
      using u by (simp add: mapped_range_def page_range_Suc [OF b] maps_to_Suc [OF b])
  next
    case False
    then show ?thesis
      using u lk first by (simp add: mapped_range_def page_range_Suc [OF b] maps_to_first)
  qed
  ultimately show ?thesis
    using pt_extends_trans [OF ex] u by (simp add: mapped_range_def)
qed

lemma mappages_loop_spec:
  assumes "kmem_inv s" "pgdir_ok s d" "page_aligned a" "unat a + 4096 * n < 4294967296"
  shows "(\<exists>t. mappages_loop d a (a + of_nat (4096 * n)) pa perm s = Inr (0, t) \<and> mapped_range d a n pa perm s t)
    \<or> mappages_loop d a (a + of_nat (4096 * n)) pa perm s = Inl (Panic ''remap'')
        \<and> (\<exists>va. page_range a n va \<and> present (pte_of (mem s) d va))
    \<or> (\<exists>f. mappages_loop d a (a + of_nat (4096 * n)) pa perm s = Inl f \<and> kalloc_fault f)"
  using assms
proof (induction n arbitrary: a pa s)
  case 0
  then show ?case
    using mappages_round [OF 0(1,2), of a a pa perm]
    by (auto simp: mapped_range_def page_range_0 maps_to_first kalloc_fault_def) (metis pte_of_same_page)+
next
  case (Suc n)
  let ?l = "a + of_nat (4096 * Suc n)" and ?b = "a + 4096"
  note st = page_step [OF Suc.prems(3,4)]
  have ne: "a \<noteq> ?l" "\<not> unat (?l - a) < PGSIZE"
    using range_Suc_neq [OF Suc.prems(4)] range_distance [OF Suc.prems(4)] by (simp_all only: PGSIZE_def) simp_all
  have l: "?l = ?b + of_nat (4096 * n)"
    by simp
  have bn: "unat ?b + 4096 * n < 4294967296"
    using st(2) Suc.prems(4) by simp
  consider (step) t where "mappages_loop d a ?l pa perm s = mappages_loop d ?b ?l (pa + 4096) perm t"
      "\<not> present (pte_of (mem s) d a)" "pt_extends d s t"
      "\<forall>vb. pte_of (mem t) d vb = (if page_no vb = page_no a then pa OR perm OR PTE_P else pte_of (mem s) d vb)"
    | (remap) "mappages_loop d a ?l pa perm s = Inl (Panic ''remap'')" "present (pte_of (mem s) d a)"
    | (fault) f where "mappages_loop d a ?l pa perm s = Inl f" "kalloc_fault f"
    using mappages_round [OF Suc.prems(1,2), of a ?l pa perm]
    unfolding kalloc_fault_def if_not_P [OF ne(1)] if_not_P [OF ne(2)] by blast
  then show ?case
  proof cases
    case step
    have t: "kmem_inv t" "pgdir_ok t d"
      using step(3) by (auto simp: pt_extends_def)
    have "\<exists>va. page_range a (Suc n) va \<and> present (pte_of (mem s) d va)"
      if later: "\<exists>va. page_range ?b n va \<and> present (pte_of (mem t) d va)"
    proof -
      from later obtain va where va: "page_range ?b n va" "present (pte_of (mem t) d va)"
        by blast
      then have "page_no va \<noteq> page_no a"
        by (simp add: page_range_def st(3))
      then show ?thesis
        using va step(4) page_range_Suc [OF st(3)] by auto
    qed
    then show ?thesis
      using Suc.IH [OF t st(1) bn, of "pa + 4096"] mapped_range_Suc [OF st(3) step(2,3,4)]
      unfolding step(1) unfolding l by blast
  next
    case remap
    then show ?thesis by (auto simp: page_range_def)
  next
    case fault
    then show ?thesis by blast
  qed
qed

lemma PGROUNDDOWN_page_no: "page_no (PGROUNDDOWN a) = page_no a"
  by (simp add: page_no_def unat_PGROUNDDOWN)

lemma PGROUNDDOWN_distance:
  assumes "unat a \<le> unat b"
  shows "PGROUNDDOWN b = PGROUNDDOWN a + of_nat (4096 * (page_no b - page_no a))"
    and "unat (PGROUNDDOWN a) + 4096 * (page_no b - page_no a) < 4294967296"
proof -
  have le: "unat a div 4096 \<le> unat b div 4096"
    using assms by (rule div_le_mono)
  have eq: "unat (PGROUNDDOWN a) + 4096 * (page_no b - page_no a) = unat (PGROUNDDOWN b)"
    using le by (simp add: unat_PGROUNDDOWN page_no_def diff_mult_distrib2)
  then show "unat (PGROUNDDOWN a) + 4096 * (page_no b - page_no a) < 4294967296"
    using unat_lt_2p32 [of "PGROUNDDOWN b"] by simp
  have "PGROUNDDOWN b = of_nat (unat (PGROUNDDOWN b))"
    by simp
  also have "\<dots> = of_nat (unat (PGROUNDDOWN a)) + of_nat (4096 * (page_no b - page_no a))"
    unfolding eq [symmetric] of_nat_add ..
  finally show "PGROUNDDOWN b = PGROUNDDOWN a + of_nat (4096 * (page_no b - page_no a))"
    by simp
qed

lemma mappages_spec:
  assumes "kmem_inv s" "pgdir_ok s d" "0 < sz" "unat la + unat sz \<le> 2 ^ 32"
  defines "n \<equiv> page_no (la + sz - 1) - page_no la"
  shows "(\<exists>t. mappages d la sz pa perm s = Inr (0, t) \<and> mapped_range d la n pa perm s t)
    \<or> mappages d la sz pa perm s = Inl (Panic ''remap'')
        \<and> (\<exists>va. page_range la n va \<and> present (pte_of (mem s) d va))
    \<or> (\<exists>f. mappages d la sz pa perm s = Inl f \<and> kalloc_fault f)"
proof -
  have sz: "0 < unat sz"
    using assms(3) by (simp add: word_less_nat_alt)
  have "unat (la + (sz - 1)) = unat la + (unat sz - 1)"
    using assms(3,4) sz by (simp add: unat_word_ariths(1) unat_minus_one word_neq_0_conv)
  then have le: "unat la \<le> unat (la + sz - 1)"
    by (simp add: add_diff_eq)
  have r: "page_range (PGROUNDDOWN la) n va = page_range la n va"
    "maps_to pa (PGROUNDDOWN la) perm va = maps_to pa la perm va" for va
    by (simp_all add: page_range_def maps_to_def PGROUNDDOWN_page_no)
  then have m: "mapped_range d (PGROUNDDOWN la) n pa perm s t = mapped_range d la n pa perm s t" for t
    by (simp add: mapped_range_def)
  show ?thesis
    using mappages_loop_spec [OF assms(1,2) page_aligned_PGROUNDDOWN PGROUNDDOWN_distance(2) [OF le], of pa perm]
    unfolding mappages_def PGROUNDDOWN_distance(1) [OF le] n_def [symmetric] r m .
qed

subsection \<open>Protection\<close>

text \<open>\<open>gap m d va\<close>: the page table of \<open>va\<close> is there, its entry is absent; this is what
  makes \<open>mprotect\<close> give up.\<close>

definition gap :: "memory \<Rightarrow> addr \<Rightarrow> addr \<Rightarrow> bool" where
  "gap m d va \<longleftrightarrow> present (pde m d va) \<and> \<not> present (pte_of m d va)"

definition no_gap :: "memory \<Rightarrow> addr \<Rightarrow> addr \<Rightarrow> addr \<Rightarrow> bool" where
  "no_gap m d a va \<longleftrightarrow> (\<forall>vb. page_no a \<le> page_no vb \<and> page_no vb \<le> page_no va \<longrightarrow> \<not> gap m d vb)"

definition protected_range ::
  "(u32 \<Rightarrow> u32) \<Rightarrow> addr \<Rightarrow> addr \<Rightarrow> nat \<Rightarrow> int \<Rightarrow> 'z kmem_st_scheme \<Rightarrow> 'z kmem_st_scheme \<Rightarrow> bool" where
  "protected_range f d a n r s t \<longleftrightarrow>
     pt_extends d s t \<and> free_pages t = free_pages s \<and> (\<forall>va. pde (mem t) d va = pde (mem s) d va)
     \<and> r = (if \<forall>va. page_range a n va \<longrightarrow> \<not> gap (mem s) d va then 0 else -1)
     \<and> (\<forall>va. pte_of (mem t) d va =
           (if page_range a n va \<and> no_gap (mem s) d a va \<and> present (pte_of (mem s) d va)
            then f (pte_of (mem s) d va) else pte_of (mem s) d va))"

lemma gap_same_page: "page_no a = page_no b \<Longrightarrow> gap m d a = gap m d b"
  by (simp add: gap_def pte_of_same_page [of a b] same_page_iff pde_def)

lemma protect_round:
  assumes inv: "kmem_inv s" and ok: "pgdir_ok s d"
  shows "gap (mem s) d a \<and> protect_loop f d a lst s = Inr (-1, s)
    \<or> \<not> gap (mem s) d a \<and> (\<exists>t. protect_loop f d a lst s =
            (if a = lst then Inr (0, t)
             else if unat (lst - a) < PGSIZE then Inl Diverge
             else protect_loop f d (a + 4096) lst t)
          \<and> pt_extends d s t \<and> free_pages t = free_pages s \<and> (\<forall>va. pde (mem t) d va = pde (mem s) d va)
          \<and> (\<forall>vb. pte_of (mem t) d vb
                = (if page_no vb = page_no a \<and> present (pte_of (mem s) d a)
                   then f (pte_of (mem s) d a) else pte_of (mem s) d vb)))"
proof (cases "present (pde (mem s) d a)")
  case False
  then have "pte_of (mem s) d a = 0" by (simp add: pte_of_def)
  then show ?thesis
    using False pt_extends_refl [OF inv ok]
    by (intro disjI2 conjI exI [of _ s]) (simp_all add: gap_def protect_loop.simps [of f d a] pde_def PGSIZE_def)
next
  case True
  let ?e = "entry (PTE_ADDR (pde (mem s) d a)) (PTX a)"
  have ld: "load32 (mem s) ?e = pte_of (mem s) d a"
    using True by (simp add: pte_of_def)
  show ?thesis
  proof (cases "present (pte_of (mem s) d a)")
    case False
    then show ?thesis
      using True ld by (intro disjI1) (simp add: gap_def protect_loop.simps [of f d a] pde_def)
  next
    case p: True
    let ?t = "s\<lparr>mem := store32 (mem s) ?e (f (pte_of (mem s) d a))\<rparr>"
    note S = store_pte [OF inv ok True, of "f (pte_of (mem s) d a)"]
    have "protect_loop f d a lst s =
            (if a = lst then Inr (0, ?t)
             else if unat (lst - a) < PGSIZE then Inl Diverge
             else protect_loop f d (a + 4096) lst ?t)"
      using True p ld by (simp add: protect_loop.simps [of f d a] pde_def PGSIZE_def)
    then show ?thesis
      using p S by (intro disjI2) (auto simp: gap_def)
  qed
qed

lemma protected_range_Suc:
  assumes b: "page_no b = Suc (page_no a)" and ng: "\<not> gap (mem s) d a"
    and t: "pt_extends d s t" "free_pages t = free_pages s" "\<forall>va. pde (mem t) d va = pde (mem s) d va"
      "\<forall>vb. pte_of (mem t) d vb
         = (if page_no vb = page_no a \<and> present (pte_of (mem s) d a)
            then f (pte_of (mem s) d a) else pte_of (mem s) d vb)"
    and u: "protected_range f d b n r t u"
  shows "protected_range f d a (Suc n) r s u"
proof -
  have g: "gap (mem t) d vb = gap (mem s) d vb" if "page_no vb \<noteq> page_no a" for vb
    using that t(3,4) by (simp add: gap_def)
  have ng': "\<not> gap (mem s) d vb" if "page_no vb = page_no a" for vb
    using gap_same_page [OF that] ng by simp
  have bn: "page_no vb \<noteq> page_no a" if "page_no b \<le> page_no vb" for vb
    using that b by simp
  have all: "(\<forall>va. page_range b n va \<longrightarrow> \<not> gap (mem t) d va) \<longleftrightarrow> (\<forall>va. page_range a (Suc n) va \<longrightarrow> \<not> gap (mem s) d va)"
    using g ng' bn by (auto simp: page_range_Suc [OF b]) (auto simp: page_range_def)
  have no: "no_gap (mem t) d b va \<longleftrightarrow> no_gap (mem s) d a va" for va
    using g ng' bn b unfolding no_gap_def by (metis le_antisym not_less_eq_eq Suc_leD)
  have na: "no_gap (mem s) d a va" if "page_no va = page_no a" for va
    using ng' that by (simp add: no_gap_def)
  have "pte_of (mem u) d va = (if page_range a (Suc n) va \<and> no_gap (mem s) d a va \<and> present (pte_of (mem s) d va)
            then f (pte_of (mem s) d va) else pte_of (mem s) d va)" for va
  proof (cases "page_no va = page_no a")
    case True
    then have "\<not> page_range b n va" "page_range a (Suc n) va"
      using b by (simp_all add: page_range_def)
    then show ?thesis
      using u t(4) True na [OF True] pte_of_same_page [OF True, of "mem s" d] by (simp add: protected_range_def)
  next
    case False
    then show ?thesis
      using u t(4) no by (simp add: protected_range_def page_range_Suc [OF b])
  qed
  then show ?thesis
    using u t all pt_extends_trans [OF t(1)] by (simp add: protected_range_def)
qed

lemma protect_loop_spec:
  assumes "kmem_inv s" "pgdir_ok s d" "page_aligned a" "unat a + 4096 * n < 4294967296"
  shows "\<exists>r t. protect_loop f d a (a + of_nat (4096 * n)) s = Inr (r, t) \<and> protected_range f d a n r s t"
  using assms
proof (induction n arbitrary: a s)
  case 0
  show ?case
  proof (cases "gap (mem s) d a")
    case True
    then show ?thesis
      using protect_round [OF 0(1,2), of a f a] pt_extends_refl [OF 0(1,2)]
      by (auto simp: protected_range_def page_range_0 no_gap_def)
  next
    case False
    then obtain t where t: "protect_loop f d a a s = Inr (0, t)"
      "pt_extends d s t" "free_pages t = free_pages s" "\<forall>va. pde (mem t) d va = pde (mem s) d va"
      "\<forall>vb. pte_of (mem t) d vb = (if page_no vb = page_no a \<and> present (pte_of (mem s) d a)
                   then f (pte_of (mem s) d a) else pte_of (mem s) d vb)"
      using protect_round [OF 0(1,2), of a f a] unfolding if_P [OF refl] by blast
    have same: "\<not> gap (mem s) d va" "no_gap (mem s) d a va" "pte_of (mem s) d a = pte_of (mem s) d va"
      if "page_no va = page_no a" for va
    proof -
      show "\<not> gap (mem s) d va" "pte_of (mem s) d a = pte_of (mem s) d va"
        using False gap_same_page [OF that] pte_of_same_page [OF that] by simp_all
      have "\<not> gap (mem s) d vb" if "page_no vb = page_no a" for vb
        using False gap_same_page [OF that] by simp
      then show "no_gap (mem s) d a va"
        using that by (simp add: no_gap_def)
    qed
    have "pte_of (mem t) d va = (if page_no va = page_no a \<and> no_gap (mem s) d a va \<and> present (pte_of (mem s) d va)
        then f (pte_of (mem s) d va) else pte_of (mem s) d va)" for va
      using t(5) [rule_format, of va] same [of va] by (cases "page_no va = page_no a") simp_all
    then have "protected_range f d a 0 0 s t"
      unfolding protected_range_def page_range_0 using t(2-4) same(1) by simp
    then show ?thesis
      using t(1) by auto
  qed
next
  case (Suc n)
  let ?l = "a + of_nat (4096 * Suc n)" and ?b = "a + 4096"
  note st = page_step [OF Suc.prems(3,4)]
  have ne: "a \<noteq> ?l" "\<not> unat (?l - a) < PGSIZE"
    using range_Suc_neq [OF Suc.prems(4)] range_distance [OF Suc.prems(4)] by (simp_all only: PGSIZE_def) simp_all
  have l: "?l = ?b + of_nat (4096 * n)"
    by simp
  have bn: "unat ?b + 4096 * n < 4294967296"
    using st(2) Suc.prems(4) by simp
  show ?case
  proof (cases "gap (mem s) d a")
    case True
    then have "protect_loop f d a ?l s = Inr (-1, s)"
      using protect_round [OF Suc.prems(1,2), of a f ?l] by blast
    moreover have "protected_range f d a (Suc n) (-1) s s"
      using True pt_extends_refl [OF Suc.prems(1,2)]
      by (auto simp: protected_range_def page_range_def no_gap_def)
    ultimately show ?thesis by blast
  next
    case False
    then obtain t where t: "protect_loop f d a ?l s = protect_loop f d ?b ?l t"
      "pt_extends d s t" "free_pages t = free_pages s" "\<forall>va. pde (mem t) d va = pde (mem s) d va"
      "\<forall>vb. pte_of (mem t) d vb = (if page_no vb = page_no a \<and> present (pte_of (mem s) d a)
                   then f (pte_of (mem s) d a) else pte_of (mem s) d vb)"
      using protect_round [OF Suc.prems(1,2), of a f ?l]
      unfolding if_not_P [OF ne(1)] if_not_P [OF ne(2)] by blast
    have "kmem_inv t" "pgdir_ok t d"
      using t(2) by (auto simp: pt_extends_def)
    from Suc.IH [OF this st(1) bn] show ?thesis
      using protected_range_Suc [where f = f, OF st(3) False t(2-5)] unfolding t(1) unfolding l by blast
  qed
qed

lemma protect_spec:
  assumes "kmem_inv s" "pgdir_ok s d" "page_aligned a" "0 < len" "unat a + 4096 * (nat len - 1) < 4294967296"
  shows "\<exists>r t. protect_loop f d a (a + of_int ((len - 1) * int PGSIZE)) s = Inr (r, t)
    \<and> protected_range f d a (nat len - 1) r s t"
proof -
  have "(len - 1) * int PGSIZE = int (4096 * (nat len - 1))"
    using assms(4) by (simp add: PGSIZE_def nat_diff_distrib')
  then have "(of_int ((len - 1) * int PGSIZE) :: u32) = of_nat (4096 * (nat len - 1))"
    by (simp only: of_int_of_nat_eq)
  then show ?thesis
    using protect_loop_spec [OF assms(1,2,3,5), of f] by simp
qed

lemma PGROUNDDOWN_neq: "addr \<noteq> PGROUNDDOWN addr \<longleftrightarrow> \<not> page_aligned addr"
  by (metis PGROUNDDOWN_aligned)

lemma mprotect_spec:
  assumes "kmem_inv s" "pgdir_ok s d" "page_aligned a" "0 < len" "unat a + 4096 * (nat len - 1) < 4294967296"
  shows "\<exists>r t. mprotect d a len s = Inr (r, t)
    \<and> protected_range (\<lambda>e. e AND 0xFFFFFFFD) d a (nat len - 1) r s t"
  using protect_spec [OF assms, of "\<lambda>e. e AND 0xFFFFFFFD"] assms(3,4)
  by (simp add: mprotect_def PGROUNDDOWN_neq)

lemma munprotect_spec:
  assumes "kmem_inv s" "pgdir_ok s d" "page_aligned a" "0 < len" "unat a + 4096 * (nat len - 1) < 4294967296"
  shows "\<exists>r t. munprotect d a len s = Inr (r, t)
    \<and> protected_range (\<lambda>e. e OR 0x2) d a (nat len - 1) r s t"
  using protect_spec [OF assms, of "\<lambda>e. e OR 0x2"] assms(3,4)
  by (simp add: munprotect_def PGROUNDDOWN_neq)

lemma minus_numerals: "(- 3 :: u32) = 0xFFFFFFFD" "(- 4096 :: u32) = 0xFFFFF000"
  by simp_all

lemma clear_W:
  "e AND 0xFFFFFFFD = e AND NOT PTE_W" "(e AND 0xFFFFFFFD) AND PTE_P = e AND PTE_P"
  "PTE_ADDR (e AND 0xFFFFFFFD) = PTE_ADDR e"
  for e :: u32
  by (simp_all add: PTE_W_def PTE_P_def PTE_ADDR_def and.assoc minus_numerals)

lemma set_clear_W: "e AND PTE_W \<noteq> 0 \<Longrightarrow> (e AND 0xFFFFFFFD) OR 0x2 = e"
  for e :: u32
proof -
  assume "e AND PTE_W \<noteq> 0"
  then have b: "bit e 1"
    using and_exp_eq_0_iff_not_bit [of e 1] by (simp add: PTE_W_def)
  have "(e AND NOT (2 ^ k)) OR 2 ^ k = e" if "bit e k" for k
    using that by (intro bit_word_eqI) (auto simp: bit_or_iff bit_and_iff bit_not_iff bit_exp_iff)
  from this [of 1] show ?thesis
    using b by (simp add: clear_W(1) PTE_W_def)
qed

subsection \<open>Filling fresh pages and other page directories\<close>

text \<open>A page is taken from the free list and filled.\<close>

lemma kalloc_fill:
  assumes inv: "kmem_inv s" and ok: "pgdir_ok s d" and a: "kalloc s = Inr (p, s1)"
    and m: "\<And>x. page_no x \<noteq> page_no p \<Longrightarrow> m x = mem s1 x"
  defines "t \<equiv> s1\<lparr>mem := m\<rparr>"
  shows "pt_extends d s t" "free_pages t = free_pages s1" "pt_pages (mem t) d = pt_pages (mem s) d"
    "pte_of (mem t) d va = pte_of (mem s) d va"
proof -
  note A = kalloc_facts [OF inv a] and d = pgdir_okD [OF ok]
  have al: "page_aligned x" if "x \<in> set (free_pages s)" for x
    using inv that by (auto simp: kmem_inv_def free_page_ok_def)
  have "m x = mem s1 x" if "page_no x \<in> page_no ` set (free_pages s1)" for x
    using that A(2,3,9) al page_aligned_eq_iff by (intro m) auto
  from kmem_inv_frame [OF A(1) this] have f: "free_pages t = free_pages s1" and i: "kmem_inv t"
    by (simp_all add: t_def)
  show "free_pages t = free_pages s1"
    by (rule f)
  have fr: "mem t x = mem s x" if "page_no x \<notin> page_no ` set (free_pages s)" for x
    using that m [of x] A(2,4) by (auto simp: t_def)
  have out: "page_no q \<notin> page_no ` set (free_pages s)" if "q \<in> pt_pages (mem s) d" for q
    using that ok al page_aligned_eq_iff by (auto simp: pgdir_ok_def free_page_ok_def)
  have pd: "pde (mem t) d vb = pde (mem s) d vb" for vb
    using d(1) fr out [of d] by (intro pde_cong) (simp_all add: pt_pages_def)
  show pp: "pt_pages (mem t) d = pt_pages (mem s) d"
    by (simp add: pt_pages_def pd)
  show "pte_of (mem t) d va = pte_of (mem s) d va"
  proof (rule pte_of_cong [OF d(1)])
    show "mem t x = mem s x" if "page_no x \<in> page_no ` pt_pages (mem s) d" for x
      using that out by (intro fr) (auto; metis imageI)
  qed
  have e: "kend t = kend s" "kmem_st.more t = kmem_st.more s"
    using A(5,6) by (simp_all add: t_def)
  have sub: "set (free_pages t) \<subseteq> set (free_pages s)"
    using A(3) f by auto
  have "pgdir_ok t d"
    using ok pd e(1) sub by (rule pgdir_ok_cong)
  then show "pt_extends d s t"
    using i e sub pp fr by (auto simp: pt_extends_def)
qed

lemma pt_extends_other:
  assumes ex: "pt_extends d s t" and g: "pgdir_ok s g"
    and dj: "pt_pages (mem s) g \<inter> pt_pages (mem s) d = {}"
    and inv: "kmem_inv s" and ok: "pgdir_ok s d"
  shows "pgdir_ok t g" "pte_of (mem t) g va = pte_of (mem s) g va"
    "pt_pages (mem t) g = pt_pages (mem s) g" "pt_pages (mem t) g \<inter> pt_pages (mem t) d = {}"
proof -
  note G = pgdir_okD [OF g]
  have al: "page_aligned x" if "x \<in> set (free_pages s) \<union> pt_pages (mem s) d" for x
    using that inv ok by (auto simp: kmem_inv_def pgdir_ok_def free_page_ok_def)
  have gal: "page_aligned x" "x \<notin> set (free_pages s) \<union> pt_pages (mem s) d" if "x \<in> pt_pages (mem s) g" for x
    using that g dj by (auto simp: pgdir_ok_def free_page_ok_def)
  have fr: "mem t x = mem s x" if x: "page_no x \<in> page_no ` pt_pages (mem s) g" for x
  proof -
    from x obtain q where q: "q \<in> pt_pages (mem s) g" "page_no x = page_no q"
      by auto
    have "page_no q \<noteq> page_no z" if "z \<in> set (free_pages s) \<union> pt_pages (mem s) d" for z
      using gal [OF q(1)] al [OF that] that page_aligned_eq_iff by blast
    then have "page_no x \<notin> page_no ` (set (free_pages s) \<union> pt_pages (mem s) d)"
      using q(2) by auto
    then show ?thesis using ex by (simp add: pt_extends_def)
  qed
  have pd: "pde (mem t) g vb = pde (mem s) g vb" for vb
    using G(1) fr by (intro pde_cong) (simp_all add: pt_pages_def)
  then show pp: "pt_pages (mem t) g = pt_pages (mem s) g"
    by (simp add: pt_pages_def)
  show "pgdir_ok t g"
    using g pd by (rule pgdir_ok_cong) (use ex in \<open>simp_all add: pt_extends_def\<close>)
  show "pte_of (mem t) g va = pte_of (mem s) g va"
    using G(1) fr by (rule pte_of_cong)
  show "pt_pages (mem t) g \<inter> pt_pages (mem t) d = {}"
    using dj ex gal(2) unfolding pp pt_extends_def by blast
qed

subsection \<open>Copying an address space\<close>

text \<open>
  \<open>in_size i sz va\<close>: the page of \<open>va\<close> is one the loop of \<open>copyuvm\<close> still visits from
  \<open>i\<close> on.
\<close>

definition in_size :: "u32 \<Rightarrow> u32 \<Rightarrow> addr \<Rightarrow> bool" where
  "in_size i sz va \<longleftrightarrow> page_no i \<le> page_no va \<and> page_no va * 4096 < unat sz"

definition copied_page :: "addr \<Rightarrow> addr \<Rightarrow> 'z kmem_st_scheme \<Rightarrow> 'z kmem_st_scheme \<Rightarrow> addr \<Rightarrow> bool" where
  "copied_page g d s t va \<longleftrightarrow>
     (let e = pte_of (mem s) g va; e' = pte_of (mem t) d va in
        present e' \<and> e' AND PTE_W = e AND PTE_W \<and> e' AND PTE_U \<noteq> 0
        \<and> PTE_ADDR e' \<in> set (free_pages s) - set (free_pages t)
        \<and> (\<forall>off. unat off < 4096 \<longrightarrow> mem t (PTE_ADDR e' + off) = mem s (PTE_ADDR e + off)))"

definition copy_src_ok :: "addr \<Rightarrow> addr \<Rightarrow> u32 \<Rightarrow> u32 \<Rightarrow> 'z kmem_st_scheme \<Rightarrow> bool" where
  "copy_src_ok g d i sz s \<longleftrightarrow>
     kmem_inv s \<and> pgdir_ok s d \<and> pgdir_ok s g \<and> pt_pages (mem s) g \<inter> pt_pages (mem s) d = {}
     \<and> (\<forall>va. in_size i sz va \<longrightarrow> present (pte_of (mem s) g va)
           \<and> PTE_ADDR (pte_of (mem s) g va) \<notin> set (free_pages s) \<union> pt_pages (mem s) d
           \<and> \<not> present (pte_of (mem s) d va))"

lemma page_no_off: "page_aligned p \<Longrightarrow> unat off < 4096 \<Longrightarrow> page_no (p + off) = page_no p"
  using in_page_iff [of p "p + off"] by simp

lemma present_pte_pde: "present (pte_of m d va) \<Longrightarrow> present (pde m d va)"
  by (auto simp: pte_of_def split: if_splits)

lemma walk_load:
  assumes "pgdir_ok s g" "present (pte_of (mem s) g va)"
  shows "walkpgdir g va c s = Inr (entry (PTE_ADDR (pde (mem s) g va)) (PTX va), s)"
    "entry (PTE_ADDR (pde (mem s) g va)) (PTX va) \<noteq> 0"
    "load32 (mem s) (entry (PTE_ADDR (pde (mem s) g va)) (PTX va)) = pte_of (mem s) g va"
proof -
  note pr = present_pte_pde [OF assms(2)]
  show "walkpgdir g va c s = Inr (entry (PTE_ADDR (pde (mem s) g va)) (PTX va), s)"
    by (rule walkpgdir_present [OF pr])
  show "entry (PTE_ADDR (pde (mem s) g va)) (PTX va) \<noteq> 0"
    using pgdir_ok_table(4) [OF assms(1) pr] by (intro entry_nonzero) (simp_all add: PTX_less)
  show "load32 (mem s) (entry (PTE_ADDR (pde (mem s) g va)) (PTX va)) = pte_of (mem s) g va"
    using pr by (simp add: pte_of_def)
qed

lemma memmove_page:
  assumes "page_aligned p" "page_aligned q"
  shows "page_no x \<noteq> page_no p \<Longrightarrow> memmove m p q PGSIZE x = m x"
    and "unat off < 4096 \<Longrightarrow> memmove m p q PGSIZE (p + off) = m (q + off)"
proof -
  have le: "unat z + 4096 \<le> 2 ^ 32" if al: "page_aligned z" for z
  proof -
    obtain k where k: "unat z = 4096 * k"
      using al by (rule page_alignedE)
    then have "k < 1048576" using unat_lt_2p32 [of z] by simp
    then show ?thesis using k by simp
  qed
  have mv: "memmove m p q PGSIZE x = (if unat (x - p) < 4096 then m (q + (x - p)) else m x)" for x
    using memmove_apply [of q 4096 p m x] le [OF assms(1)] le [OF assms(2)] by (simp add: PGSIZE_def)
  show "page_no x \<noteq> page_no p \<Longrightarrow> memmove m p q PGSIZE x = m x"
    by (simp add: mv in_page_iff [OF assms(1)])
  show "unat off < 4096 \<Longrightarrow> memmove m p q PGSIZE (p + off) = m (q + off)"
    by (simp add: mv)
qed

lemma page_aligned_and_flag: "page_aligned p \<Longrightarrow> p AND PTE_W = 0" "page_aligned p \<Longrightarrow> p AND PTE_U = 0"
proof -
  assume "page_aligned p"
  then have eq: "p AND NOT 0xFFF = p"
    using PGROUNDDOWN_aligned [of p] by (simp add: PGROUNDDOWN_def)
  have "(p AND NOT 0xFFF) AND PTE_W = 0" "(p AND NOT 0xFFF) AND PTE_U = 0"
    by (simp_all add: PTE_W_def PTE_U_def and.assoc)
  then show "p AND PTE_W = 0" "p AND PTE_U = 0"
    unfolding eq by simp_all
qed

lemma and_W_cases: "e AND PTE_W = 0 \<or> e AND PTE_W = PTE_W"
proof -
  have "e AND 2 ^ k = (if bit e k then 2 ^ k else 0)" for k
    by (intro bit_word_eqI) (auto simp: bit_and_iff bit_exp_iff)
  from this [of 1] show ?thesis
    by (simp add: PTE_W_def)
qed

lemma child_flags:
  assumes "page_aligned p"
  shows "PTE_ADDR (p OR (if e AND PTE_W = 0 then PTE_U else PTE_W OR PTE_U) OR PTE_P) = p"
    "(p OR (if e AND PTE_W = 0 then PTE_U else PTE_W OR PTE_U) OR PTE_P) AND PTE_W = e AND PTE_W"
    "(p OR (if e AND PTE_W = 0 then PTE_U else PTE_W OR PTE_U) OR PTE_P) AND PTE_U \<noteq> 0"
proof -
  have c: "PTE_U AND PTE_W = 0" "PTE_P AND PTE_W = 0" "PTE_U AND PTE_U \<noteq> 0" "PTE_W AND PTE_W = PTE_W"
    by (simp_all add: PTE_U_def PTE_W_def PTE_P_def)
  show "PTE_ADDR (p OR (if e AND PTE_W = 0 then PTE_U else PTE_W OR PTE_U) OR PTE_P) = p"
    using assms by (simp add: PTE_ADDR_or or.assoc)
  show "(p OR (if e AND PTE_W = 0 then PTE_U else PTE_W OR PTE_U) OR PTE_P) AND PTE_W = e AND PTE_W"
    using and_W_cases [of e] c page_aligned_and_flag [OF assms] by (auto simp: bit.conj_disj_distrib2)
  show "(p OR (if e AND PTE_W = 0 then PTE_U else PTE_W OR PTE_U) OR PTE_P) AND PTE_U \<noteq> 0"
    using c by (auto simp: bit.conj_disj_distrib2 or_eq_0_iff)
qed

lemma page_no_notin:
  "page_aligned p \<Longrightarrow> (\<And>z. z \<in> S \<Longrightarrow> page_aligned z) \<Longrightarrow> p \<notin> S \<Longrightarrow> page_no p \<notin> page_no ` S"
  using page_aligned_eq_iff by blast

lemma of_nat_PGSIZE: "of_nat PGSIZE = (4096 :: u32)"
  by (simp add: PGSIZE_def)

lemma copy_round:
  assumes ok: "copy_src_ok g d i sz s" and i: "page_aligned i" "i < sz" "unat i + 4096 < 4294967296"
  shows "(\<exists>t. copyuvm_loop d g i sz s = copyuvm_loop d g (i + 4096) sz t \<and> pt_extends d s t
        \<and> copied_page g d s t i \<and> PTE_ADDR (pte_of (mem t) d i) \<notin> pt_pages (mem t) d
        \<and> (\<forall>va. page_no va \<noteq> page_no i \<longrightarrow> pte_of (mem t) d va = pte_of (mem s) d va))
    \<or> (\<exists>f. copyuvm_loop d g i sz s = Inl f \<and> kalloc_fault f)"
proof -
  have inv: "kmem_inv s" "pgdir_ok s d" "pgdir_ok s g"
    using ok by (simp_all add: copy_src_ok_def)
  have "in_size i sz i"
    using i by (simp add: in_size_def page_no_def page_aligned_def word_less_nat_alt)
  then have src: "present (pte_of (mem s) g i)" "\<not> present (pte_of (mem s) d i)"
    "PTE_ADDR (pte_of (mem s) g i) \<notin> set (free_pages s)"
    using ok by (auto simp: copy_src_ok_def)
  note W = walk_load [OF inv(3) src(1)]
  let ?e = "pte_of (mem s) g i"
  let ?perm = "if ?e AND PTE_W = 0 then PTE_U else PTE_W OR PTE_U"
  show ?thesis
  proof (cases "kalloc s")
    case (Inl f)
    then have "copyuvm_loop d g i sz s = Inl f"
      using i(2) W src(1) by (simp add: copyuvm_loop.simps [of d g i])
    then show ?thesis
      using kalloc_Inl [OF inv(1) Inl] by (auto simp: kalloc_fault_def)
  next
    case (Inr r)
    then obtain p s1 where a: "kalloc s = Inr (p, s1)"
      by (cases r) auto
    note A = kalloc_facts [OF inv(1) a]
    let ?m = "memmove (mem s1) p (PTE_ADDR ?e) PGSIZE"
    let ?s2 = "s1\<lparr>mem := ?m\<rparr>"
    note M = memmove_page [OF A(9) page_aligned_PTE_ADDR [of ?e], of _ "mem s1"]
    note F = kalloc_fill [OF inv(1,2) a M(1)]
    have s2: "kmem_inv ?s2" "pgdir_ok ?s2 d"
      using F(1) by (simp_all add: pt_extends_def)
    have rng: "page_no (i + 4096 - 1) - page_no i = 0"
    proof -
      have "unat (i + 4096 - 1) = unat i + 4095"
        using i(3) by (simp add: unat_word_ariths)
      then show ?thesis
        using i(1) by (auto simp only: page_no_def elim!: page_alignedE) simp
    qed
    have loop: "copyuvm_loop d g i sz s =
        kbind (mappages d i 4096 p ?perm) (\<lambda>r.
          if r < 0 then kbind (freevm d) (\<lambda>_. kret 0)
          else if i + 4096 \<le> i then kfail Diverge
          else copyuvm_loop d g (i + 4096) sz) ?s2"
      using i(2) W src(1) a A(10) by (simp add: copyuvm_loop.simps [of d g i, unfolded of_nat_PGSIZE] copy_page_def)
    have nw: "\<not> i + 4096 \<le> i"
      using i(3) by (simp add: word_le_nat_alt unat_word_ariths)
    have np: "\<not> present (pte_of (mem ?s2) d va)" if "page_no va = page_no i" for va
      using F(4) [of va] pte_of_same_page [OF that] src(2) by simp
    have "unat i + unat (4096 :: u32) \<le> 2 ^ 32"
      using i(3) by simp
    note mp = mappages_spec [OF s2 _ this, of p ?perm, unfolded rng page_range_0]
    consider (ok) t where "mappages d i 4096 p ?perm ?s2 = Inr (0, t)" "mapped_range d i 0 p ?perm ?s2 t"
      | (fault) f where "mappages d i 4096 p ?perm ?s2 = Inl f" "kalloc_fault f"
      using mp np by auto
    then show ?thesis
    proof cases
      case fault
      then show ?thesis by (simp add: loop)
    next
      case ok
      have ex2: "pt_extends d ?s2 t"
        using ok(2) by (simp add: mapped_range_def)
      note ex = pt_extends_trans [OF F(1) ex2]
      have pte: "pte_of (mem t) d i = p OR ?perm OR PTE_P"
        using ok(2) by (simp add: mapped_range_def page_range_0 maps_to_first)
      note fl = child_flags [OF A(9), of ?e]
      have pn: "p \<notin> set (free_pages ?s2)" "p \<notin> pt_pages (mem ?s2) d"
        using F(2,3) A(2,3) inv(2) by (auto simp: pgdir_ok_def)
      have pout: "p \<notin> set (free_pages t)" "p \<notin> pt_pages (mem t) d"
        using pn ex2 by (auto simp: pt_extends_def)
      have al: "page_aligned z" if "z \<in> set (free_pages ?s2) \<union> pt_pages (mem ?s2) d" for z
        using that s2 by (auto simp: kmem_inv_def pgdir_ok_def free_page_ok_def)
      have "mem t (p + off) = mem s (PTE_ADDR ?e + off)" if off: "unat off < 4096" for off
      proof -
        have "page_no (p + off) \<notin> page_no ` (set (free_pages ?s2) \<union> pt_pages (mem ?s2) d)"
          unfolding page_no_off [OF A(9) off] using A(9) al pn by (intro page_no_notin) auto
        then have "mem t (p + off) = mem s1 (PTE_ADDR ?e + off)"
          using ex2 M(2) [OF off] by (simp add: pt_extends_def)
        moreover have "page_no (PTE_ADDR ?e + off) \<notin> page_no ` set (free_pages s)"
          unfolding page_no_off [OF page_aligned_PTE_ADDR off] using src(3) inv(1)
          by (intro page_no_notin) (auto simp: kmem_inv_def free_page_ok_def)
        ultimately show ?thesis using A(4) by simp
      qed
      then have "copied_page g d s t i"
        using fl pte pout A(2) by (simp add: copied_page_def Let_def bit.conj_disj_distrib2 or_eq_0_iff)
      moreover have "pte_of (mem t) d va = pte_of (mem s) d va" if "page_no va \<noteq> page_no i" for va
        using ok(2) that F(4) [of va] by (simp add: mapped_range_def page_range_0)
      moreover have "copyuvm_loop d g i sz s = copyuvm_loop d g (i + 4096) sz t"
        using ok(1) nw by (simp add: loop)
      ultimately show ?thesis
        using ex pte fl(1) pout(2) by auto
    qed
  qed
qed

definition copied_all :: "addr \<Rightarrow> addr \<Rightarrow> u32 \<Rightarrow> u32 \<Rightarrow> 'z kmem_st_scheme \<Rightarrow> 'z kmem_st_scheme \<Rightarrow> bool" where
  "copied_all g d i sz s t \<longleftrightarrow>
     pt_extends d s t \<and> (\<forall>va. in_size i sz va \<longrightarrow> copied_page g d s t va)
     \<and> (\<forall>va. \<not> in_size i sz va \<longrightarrow> pte_of (mem t) d va = pte_of (mem s) d va)
     \<and> (\<forall>va vb. in_size i sz va \<longrightarrow> in_size i sz vb \<longrightarrow> page_no va \<noteq> page_no vb \<longrightarrow>
           PTE_ADDR (pte_of (mem t) d va) \<noteq> PTE_ADDR (pte_of (mem t) d vb))"

lemma in_size_Suc:
  assumes "page_aligned i" "i < sz" "page_no j = Suc (page_no i)"
  shows "in_size i sz va \<longleftrightarrow> page_no va = page_no i \<or> in_size j sz va"
proof -
  have "page_no i * 4096 < unat sz"
    using assms(1,2) by (simp add: page_no_def page_aligned_def word_less_nat_alt)
  then show ?thesis
    using assms(3) by (auto simp: in_size_def)
qed

lemma frame_content:
  assumes ok: "kmem_inv s" "pgdir_ok s d" and ex: "pt_extends d s t"
    and p: "page_aligned p" "p \<notin> set (free_pages s) \<union> pt_pages (mem s) d" and off: "unat off < 4096"
  shows "mem t (p + off) = mem s (p + off)"
proof -
  have "page_aligned z" if "z \<in> set (free_pages s) \<union> pt_pages (mem s) d" for z
    using that ok by (auto simp: kmem_inv_def pgdir_ok_def free_page_ok_def)
  then have "page_no p \<notin> page_no ` (set (free_pages s) \<union> pt_pages (mem s) d)"
    using p by (intro page_no_notin) auto
  then show ?thesis
    using ex page_no_off [OF p(1) off] by (simp add: pt_extends_def)
qed

lemma copy_src_ok_step:
  assumes ok: "copy_src_ok g d i sz s" and ex: "pt_extends d s t"
    and oth: "\<forall>va. page_no va \<noteq> page_no i \<longrightarrow> pte_of (mem t) d va = pte_of (mem s) d va"
    and j: "page_no j = Suc (page_no i)"
  shows "copy_src_ok g d j sz t"
proof -
  have s: "kmem_inv s" "pgdir_ok s d" "pgdir_ok s g" "pt_pages (mem s) g \<inter> pt_pages (mem s) d = {}"
    using ok by (simp_all add: copy_src_ok_def)
  note O = pt_extends_other [OF ex s(3,4,1,2)]
  have sub: "set (free_pages t) \<union> pt_pages (mem t) d \<subseteq> set (free_pages s) \<union> pt_pages (mem s) d"
    using ex by (auto simp: pt_extends_def)
  have "present (pte_of (mem t) g va) \<and> PTE_ADDR (pte_of (mem t) g va) \<notin> set (free_pages t) \<union> pt_pages (mem t) d
      \<and> \<not> present (pte_of (mem t) d va)" if "in_size j sz va" for va
  proof -
    have "page_no va \<noteq> page_no i" "in_size i sz va"
      using that j by (auto simp: in_size_def)
    then show ?thesis
      using ok oth sub O(2) [of va] by (auto simp: copy_src_ok_def)
  qed
  then show ?thesis
    using O(1,4) ex by (simp add: copy_src_ok_def pt_extends_def)
qed

lemma copied_all_step:
  assumes ok: "copy_src_ok g d i sz s" and i: "page_aligned i" "i < sz" and j: "page_no j = Suc (page_no i)"
    and ex: "pt_extends d s t" and cp: "copied_page g d s t i"
    and new: "PTE_ADDR (pte_of (mem t) d i) \<notin> pt_pages (mem t) d"
    and oth: "\<forall>va. page_no va \<noteq> page_no i \<longrightarrow> pte_of (mem t) d va = pte_of (mem s) d va"
    and u: "copied_all g d j sz t u"
  shows "copied_all g d i sz s u"
proof -
  have s: "kmem_inv s" "pgdir_ok s d" "pgdir_ok s g" "pt_pages (mem s) g \<inter> pt_pages (mem s) d = {}"
    using ok by (simp_all add: copy_src_ok_def)
  have t: "kmem_inv t" "pgdir_ok t d" "set (free_pages t) \<subseteq> set (free_pages s)"
    using ex by (simp_all add: pt_extends_def)
  have tu: "pt_extends d t u" "set (free_pages u) \<subseteq> set (free_pages t)"
    using u by (simp_all add: copied_all_def pt_extends_def)
  note O = pt_extends_other [OF ex s(3,4,1,2)]
  have nj: "\<not> in_size j sz va" if "page_no va = page_no i" for va
    using that j by (simp add: in_size_def)
  let ?p = "PTE_ADDR (pte_of (mem t) d i)"
  have p: "?p \<notin> set (free_pages t)" "?p \<in> set (free_pages s)"
    using cp by (simp_all add: copied_page_def Let_def)
  have first: "pte_of (mem u) d va = pte_of (mem t) d i" if "page_no va = page_no i" for va
    using u nj [OF that] pte_of_same_page [OF that, of "mem t" d] by (simp add: copied_all_def)
  have c1: "copied_page g d s u va" if va: "page_no va = page_no i" for va
  proof -
    have "?p \<notin> set (free_pages t) \<union> pt_pages (mem t) d"
      using p(1) new by simp
    then have "mem u (?p + off) = mem t (?p + off)" if "unat off < 4096" for off
      using frame_content [OF t(1,2) tu(1) page_aligned_PTE_ADDR _ that] by blast
    then show ?thesis
      using cp first [OF va] p(2) tu(2) pte_of_same_page [OF va, of "mem s" g]
      by (auto simp: copied_page_def Let_def)
  qed
  have c2: "copied_page g d s u va" if va: "in_size j sz va" for va
  proof -
    have "in_size i sz va"
      using va j by (simp add: in_size_def)
    then have nin: "PTE_ADDR (pte_of (mem s) g va) \<notin> set (free_pages s) \<union> pt_pages (mem s) d"
      using ok by (simp add: copy_src_ok_def)
    have "mem t (PTE_ADDR (pte_of (mem s) g va) + off) = mem s (PTE_ADDR (pte_of (mem s) g va) + off)"
      if "unat off < 4096" for off
      by (rule frame_content [OF s(1,2) ex page_aligned_PTE_ADDR nin that])
    moreover have "copied_page g d t u va"
      using u va by (simp add: copied_all_def)
    ultimately show ?thesis
      using O(2) [of va] t(3) by (auto simp: copied_page_def Let_def)
  qed
  have later: "PTE_ADDR (pte_of (mem u) d va) \<in> set (free_pages t)" if "in_size j sz va" for va
    using u that by (auto simp: copied_all_def copied_page_def Let_def)
  have "PTE_ADDR (pte_of (mem u) d va) \<noteq> PTE_ADDR (pte_of (mem u) d vb)"
    if "in_size i sz va" "in_size i sz vb" "page_no va \<noteq> page_no vb" for va vb
    using that u first later p(1) by (auto simp: in_size_Suc [OF i j] copied_all_def) metis+
  moreover have "pte_of (mem u) d va = pte_of (mem s) d va" if "\<not> in_size i sz va" for va
    using that u oth by (simp add: in_size_Suc [OF i j] copied_all_def)
  ultimately show ?thesis
    using c1 c2 pt_extends_trans [OF ex tu(1)] by (simp add: copied_all_def in_size_Suc [OF i j])
qed

lemma copyuvm_loop_spec:
  assumes "copy_src_ok g d i sz s" "page_aligned i" "sz \<le> USERTOP"
  shows "(\<exists>t. copyuvm_loop d g i sz s = Inr (d, t) \<and> copied_all g d i sz s t)
    \<or> (\<exists>f. copyuvm_loop d g i sz s = Inl f \<and> kalloc_fault f)"
  using assms(1,2)
proof (induction "unat sz - unat i" arbitrary: i s rule: less_induct)
  case less
  show ?case
  proof (cases "i < sz")
    case False
    then have "\<not> in_size i sz va" for va
      using less.prems(2) by (auto simp: in_size_def page_no_def page_aligned_def word_less_nat_alt)
    then show ?thesis
      using False less.prems(1) pt_extends_refl [of s d]
      by (simp add: copyuvm_loop.simps [of d g i] copied_all_def copy_src_ok_def)
  next
    case True
    then have lt: "unat i < unat sz" "unat sz \<le> 655360"
      using assms(3) by (simp_all add: word_less_nat_alt word_le_nat_alt USERTOP_def)
    note st = page_step [of i 0, OF less.prems(2)]
    have i: "unat i + 4096 < 4294967296"
      using lt by simp
    note R = copy_round [OF less.prems True i]
    have dec: "unat sz - unat (i + 4096) < unat sz - unat i"
      using st(2) i lt by simp
    show ?thesis
    proof (cases "\<exists>f. copyuvm_loop d g i sz s = Inl f \<and> kalloc_fault f")
      case False
      then obtain t where t: "copyuvm_loop d g i sz s = copyuvm_loop d g (i + 4096) sz t" "pt_extends d s t"
        "copied_page g d s t i" "PTE_ADDR (pte_of (mem t) d i) \<notin> pt_pages (mem t) d"
        "\<forall>va. page_no va \<noteq> page_no i \<longrightarrow> pte_of (mem t) d va = pte_of (mem s) d va"
        using R by blast
      have j: "page_no (i + 4096) = Suc (page_no i)" "page_aligned (i + 4096)"
        using st i by simp_all
      show ?thesis
        using less.hyps [OF dec copy_src_ok_step [OF less.prems(1) t(2,5) j(1)] j(2)]
          copied_all_step [OF less.prems True j(1) t(2-5)]
        unfolding t(1) by blast
    qed blast
  qed
qed

subsection \<open>What the operations on memory leave alone\<close>

text \<open>
  The allocator and the page tables are the lowest layer of the kernel state: an
  operation on them returns with all higher layers as they were.
\<close>

definition keeps_more :: "('z kmem_st_scheme, 'a) kop \<Rightarrow> bool" where
  "keeps_more m \<longleftrightarrow> (\<forall>c. keeps (\<lambda>s. kmem_st.more s = c) m)"

lemma keeps_moreD: "keeps_more m \<Longrightarrow> m s = Inr (x, t) \<Longrightarrow> kmem_st.more t = kmem_st.more s"
  by (auto simp: keeps_more_def keeps_def)

lemma keeps_more_basic [simp]:
  "keeps_more (kret x)" "keeps_more (kfail e)" "keeps_more (kget f)"
  "keeps_more (load_word a)" "keeps_more (store_word a v)" "keeps_more (zero_page p)" "keeps_more (copy_page p q)"
  "keeps_more (write_bytes a bs)"
  by (auto simp: keeps_more_def load_word_def store_word_def zero_page_def copy_page_def write_bytes_def
      intro!: keeps_kmod)

lemma keeps_more_kbind [intro]:
  "keeps_more m \<Longrightarrow> (\<And>x. keeps_more (f x)) \<Longrightarrow> keeps_more (kbind m f)"
  by (auto simp: keeps_more_def intro!: keeps_kbind)

lemma keeps_more_kfor [intro]: "(\<And>x. keeps_more (f x)) \<Longrightarrow> keeps_more (kfor xs f)"
  by (induction xs) auto

lemma keeps_more_if [simp]:
  "(b \<Longrightarrow> keeps_more m) \<Longrightarrow> (\<not> b \<Longrightarrow> keeps_more n) \<Longrightarrow> keeps_more (if b then m else n)"
  by simp

lemma keeps_more_kwhen [simp]: "keeps_more m \<Longrightarrow> keeps_more (kwhen b m)"
  by (simp add: kwhen_def)

lemma keeps_more_kalloc [simp]: "keeps_more kalloc"
  unfolding keeps_more_def keeps_def kalloc_def
  by (auto simp: kbind_Inr_iff xv6_rand_run Let_def split: if_splits option.splits)

lemma keeps_more_kfree [simp]: "keeps_more (kfree v)"
  by (auto simp: keeps_more_def keeps_def kfree_def split: if_splits)

lemma keeps_more_walkpgdir [simp]: "keeps_more (walkpgdir d va c)"
  unfolding walkpgdir_def by (intro keeps_more_kbind keeps_more_if keeps_more_basic keeps_more_kalloc)

lemma keeps_more_mappages_loop [simp]: "keeps_more (mappages_loop d a lst pa perm)"
proof (induction d a lst pa perm rule: mappages_loop.induct)
  case (1 d a lst pa perm)
  then show ?case
    by (subst mappages_loop.simps)
      (intro keeps_more_kbind keeps_more_if keeps_more_basic keeps_more_walkpgdir; simp)
qed

lemma keeps_more_mappages [simp]: "keeps_more (mappages d la sz pa perm)"
  by (simp add: mappages_def)

lemma keeps_more_deallocuvm_loop [simp]: "keeps_more (deallocuvm_loop d a oldsz)"
proof (induction d a oldsz rule: deallocuvm_loop.induct)
  case (1 d a oldsz)
  then show ?case
    by (subst deallocuvm_loop.simps)
      (intro keeps_more_kbind keeps_more_if keeps_more_basic keeps_more_walkpgdir keeps_more_kfree; simp)
qed

lemma keeps_more_deallocuvm [simp]: "keeps_more (deallocuvm d oldsz newsz)"
  unfolding deallocuvm_def by (intro keeps_more_kbind keeps_more_if keeps_more_basic keeps_more_deallocuvm_loop)

lemma keeps_more_allocuvm_loop [simp]: "keeps_more (allocuvm_loop d a oldsz newsz)"
proof (induction d a oldsz newsz rule: allocuvm_loop.induct)
  case (1 d a oldsz newsz)
  then show ?case
    by (subst allocuvm_loop.simps)
      (intro keeps_more_kbind keeps_more_if keeps_more_basic keeps_more_mappages keeps_more_kalloc
        keeps_more_deallocuvm; simp)
qed

lemma keeps_more_allocuvm [simp]: "keeps_more (allocuvm d oldsz newsz)"
  by (simp add: allocuvm_def)

lemma keeps_more_freevm [simp]: "keeps_more (freevm d)"
  unfolding freevm_def
  by (intro keeps_more_kbind keeps_more_if keeps_more_basic keeps_more_deallocuvm keeps_more_kfor
      keeps_more_kwhen keeps_more_kfree)

lemma keeps_more_setupkvm_loop [simp]: "keeps_more (setupkvm_loop d ks)"
proof (induction ks)
  case (Cons k ks)
  then show ?case
    by (cases k) (auto intro!: keeps_more_kbind)
qed (auto simp: keeps_more_def keeps_def)

lemma keeps_more_copyuvm_loop [simp]: "keeps_more (copyuvm_loop d g i sz)"
proof (induction d g i sz rule: copyuvm_loop.induct)
  case (1 d g i sz)
  then show ?case
    by (subst copyuvm_loop.simps)
      (intro keeps_more_kbind keeps_more_if keeps_more_basic keeps_more_walkpgdir keeps_more_mappages
        keeps_more_kalloc keeps_more_freevm; simp)
qed

lemma keeps_more_setupkvm [simp]: "keeps_more (setupkvm :: ('z vm_st_scheme, addr) kop)"
  unfolding setupkvm_def
  by (intro keeps_more_kbind keeps_more_if keeps_more_basic keeps_more_kalloc keeps_more_setupkvm_loop)

lemma keeps_more_copyuvm [simp]: "keeps_more (copyuvm g sz :: ('z vm_st_scheme, addr) kop)"
  unfolding copyuvm_def
  by (intro keeps_more_kbind keeps_more_if keeps_more_basic keeps_more_setupkvm keeps_more_copyuvm_loop)

section \<open>Properties\<close>

text \<open>
  C10. \<open>mappages\<close> on a well-formed page directory and a non-empty range that does not
  wrap around always stops. Either it returns 0, and then the page directory maps
  every page of the range to consecutive frames from \<open>pa\<close> with the permissions given,
  every other virtual address is mapped as before, and only the directory's own
  tables and pages from the free list were written; or it stops with the panic
  \<open>remap\<close>, and some page of the range was already mapped; or the allocator failed.
  It never returns \<open>-1\<close>.
\<close>

theorem mappages_correct:
  assumes "kmem_inv s" "pgdir_ok s d" "0 < sz" "unat la + unat sz \<le> 2 ^ 32"
  shows "(\<exists>t. mappages d la sz pa perm s = Inr (0, t) \<and> kmem_inv t \<and> pgdir_ok t d
        \<and> (\<forall>va. page_no la \<le> page_no va \<and> page_no va \<le> page_no (la + sz - 1) \<longrightarrow>
              pte_of (mem t) d va = ((pa + of_nat ((page_no va - page_no la) * 4096)) OR perm OR PTE_P))
        \<and> (\<forall>va. \<not> (page_no la \<le> page_no va \<and> page_no va \<le> page_no (la + sz - 1)) \<longrightarrow>
              pte_of (mem t) d va = pte_of (mem s) d va)
        \<and> (\<forall>a. page_no a \<notin> page_no ` (set (free_pages s) \<union> pt_pages (mem s) d) \<longrightarrow> mem t a = mem s a))
    \<or> mappages d la sz pa perm s = Inl (Panic ''remap'')
        \<and> (\<exists>va. page_no la \<le> page_no va \<and> page_no va \<le> page_no (la + sz - 1) \<and> present (pte_of (mem s) d va))
    \<or> mappages d la sz pa perm s = Inl DivZero
    \<or> mappages d la sz pa perm s = Inl (Undef ''kalloc: allocated overflow'')"
proof -
  have sz: "0 < unat sz"
    using assms(3) by (simp add: word_less_nat_alt)
  have "unat (la + (sz - 1)) = unat la + (unat sz - 1)"
    using assms(3,4) sz by (simp add: unat_word_ariths(1) unat_minus_one word_neq_0_conv)
  then have "page_no la \<le> page_no (la + sz - 1)"
    unfolding page_no_def by (intro div_le_mono) (simp add: add_diff_eq)
  then have r: "page_range la (page_no (la + sz - 1) - page_no la) va
      \<longleftrightarrow> page_no la \<le> page_no va \<and> page_no va \<le> page_no (la + sz - 1)" for va
    by (auto simp: page_range_def)
  show ?thesis
    using mappages_spec [OF assms, of pa perm]
    unfolding mapped_range_def r maps_to_def pt_extends_def kalloc_fault_def by auto
qed

text \<open>A page directory at \<open>0x200000\<close> with one page table, which maps page 0.\<close>

definition vm_example :: kmem_st where
  "vm_example = \<lparr>rand_seed = 1,
     mem = store32 (store32 (\<lambda>_. 0) 0x200000 0x201007) 0x201000 0x202007,
     kend = 0x100000, freelist = 0x203000,
     allocated = replicate NALLOC 0, num_alloc = 0, size_freelist = 1\<rparr>"

lemma vm_example_free [simp]: "free_pages vm_example = [0x203000]"
  by (simp add: free_pages_def vm_example_def)

lemma vm_example_inv: "kmem_inv vm_example"
  unfolding kmem_inv_def vm_example_free
  by (simp add: vm_example_def free_page_ok_def page_aligned_def PHYSTOP_def NALLOC_def load32_def
      store32_def word_le_nat_alt word_less_nat_alt)

lemma vm_example_pde: "pde (mem vm_example) 0x200000 va = (if PDX va = 0 then 0x201007 else 0)"
proof -
  have al: "page_aligned 0x200000" "page_aligned 0x201000"
    by (simp_all add: page_aligned_def)
  have e: "entry 0x200000 (PDX va) = 0x200000 \<longleftrightarrow> PDX va = 0" "entry 0x200000 (PDX va) \<noteq> 0x201000"
    using entry_eq_iff [OF al(1,1) PDX_less, of 0 va] entry_eq_iff [OF al(1,2) PDX_less, of 0 va]
    by (simp_all add: entry_def)
  show ?thesis
    using e al by (simp add: pde_def vm_example_def mem_simps entry_simps page_aligned_aligned4 load32_def [of "\<lambda>_. 0"])
qed

lemma vm_example_ok: "pgdir_ok vm_example 0x200000"
proof -
  have "pt_pages (mem vm_example) 0x200000 = {0x200000, 0x201000}"
    by (auto simp: pt_pages_def vm_example_pde PTE_P_def PTE_ADDR_def) (auto simp: PDX_def intro: exI [of _ 0])
  moreover have "free_page_ok vm_example 0x200000" "free_page_ok vm_example 0x201000"
    by (simp_all add: free_page_ok_def page_aligned_def vm_example_def PHYSTOP_def
        word_le_nat_alt word_less_nat_alt)
  ultimately show ?thesis
    by (auto simp: pgdir_ok_def vm_example_pde PTE_P_def PTE_ADDR_def split: if_splits)
qed

lemma vm_example_pte: "pte_of (mem vm_example) 0x200000 0 = 0x202007"
  "pte_of (mem vm_example) 0x200000 0x1000 = 0"
  unfolding pte_of_def vm_example_pde
  by (simp_all add: PDX_def PTX_def PTE_P_def PTE_ADDR_def entry_def vm_example_def load32_def store32_def)

lemma mappages_example:
  "\<exists>t. mappages 0x200000 0x1000 4096 0x300000 PTE_U vm_example = Inr (0, t)"
proof -
  have "present (pde (mem vm_example) 0x200000 0x1000)"
    "PTE_ADDR (pde (mem vm_example) 0x200000 0x1000) = 0x201000"
    by (simp_all add: vm_example_pde PDX_def PTE_P_def PTE_ADDR_def)
  moreover have "load32 (mem vm_example) (entry 0x201000 (PTX 0x1000)) = 0" "entry 0x201000 (PTX 0x1000) \<noteq> 0"
    using vm_example_pte(2) calculation by (simp_all add: pte_of_def) (simp add: entry_def PTX_def)
  ultimately show ?thesis
    by (simp add: mappages_def PGROUNDDOWN_def mappages_loop.simps walkpgdir_present)
qed

theorem mappages_correct_witness:
  "\<exists>t. mappages 0x200000 0x1000 4096 0x300000 PTE_U vm_example = Inr (0, t)
     \<and> pte_of (mem t) 0x200000 0x1000 = 0x300005 \<and> pte_of (mem t) 0x200000 0 = 0x202007"
proof -
  obtain t where t: "mappages 0x200000 0x1000 4096 0x300000 PTE_U vm_example = Inr (0, t)"
    using mappages_example by blast
  have "pte_of (mem t) 0x200000 0x1000 = 0x300005 \<and> pte_of (mem t) 0x200000 0 = 0x202007"
    using mappages_correct [OF vm_example_inv vm_example_ok, of 4096 "0x1000" "0x300000" PTE_U] t
    by (auto simp: page_no_def PTE_U_def PTE_P_def vm_example_pte)
  with t show ?thesis by blast
qed

text \<open>
  C6. \<open>mprotect\<close> rejects an address that is not page-aligned and a length that is not
  positive, changing nothing. Otherwise (for a range that does not wrap around) it
  returns, 0 exactly when no page of the range lacks its entry under an existing page
  table, and the write bit is cleared in the entries of the range up to the first
  such page and in no other entry; present and user bits and frame numbers stay. A
  range whose page tables are all absent is accepted with 0.
\<close>

theorem mprotect_correct:
  assumes "kmem_inv s" "pgdir_ok s d"
  shows "(\<not> page_aligned a \<or> len \<le> 0 \<longrightarrow> mprotect d a len s = Inr (-1, s))
    \<and> (page_aligned a \<and> 0 < len \<and> unat a + 4096 * (nat len - 1) < 4294967296 \<longrightarrow>
       (\<exists>r t. mprotect d a len s = Inr (r, t) \<and> kmem_inv t \<and> pgdir_ok t d
        \<and> r = (if \<forall>va. page_range a (nat len - 1) va \<longrightarrow> \<not> gap (mem s) d va then 0 else -1)
        \<and> (\<forall>va. pte_of (mem t) d va =
             (if page_range a (nat len - 1) va \<and> no_gap (mem s) d a va \<and> present (pte_of (mem s) d va)
              then pte_of (mem s) d va AND NOT PTE_W else pte_of (mem s) d va))
        \<and> (\<forall>va. PTE_ADDR (pte_of (mem t) d va) = PTE_ADDR (pte_of (mem s) d va)
             \<and> present (pte_of (mem t) d va) = present (pte_of (mem s) d va))))"
proof (intro conjI impI)
  assume "\<not> page_aligned a \<or> len \<le> 0"
  then show "mprotect d a len s = Inr (-1, s)"
    by (auto simp: mprotect_def PGROUNDDOWN_neq)
next
  assume "page_aligned a \<and> 0 < len \<and> unat a + 4096 * (nat len - 1) < 4294967296"
  then obtain r t where t: "mprotect d a len s = Inr (r, t)"
    "protected_range (\<lambda>e. e AND 0xFFFFFFFD) d a (nat len - 1) r s t"
    using mprotect_spec [OF assms] by blast
  have "PTE_ADDR (pte_of (mem t) d va) = PTE_ADDR (pte_of (mem s) d va)
      \<and> present (pte_of (mem t) d va) = present (pte_of (mem s) d va)" for va
    using t(2) clear_W(2,3) by (simp add: protected_range_def)
  then show "\<exists>r t. mprotect d a len s = Inr (r, t) \<and> kmem_inv t \<and> pgdir_ok t d
        \<and> r = (if \<forall>va. page_range a (nat len - 1) va \<longrightarrow> \<not> gap (mem s) d va then 0 else -1)
        \<and> (\<forall>va. pte_of (mem t) d va =
             (if page_range a (nat len - 1) va \<and> no_gap (mem s) d a va \<and> present (pte_of (mem s) d va)
              then pte_of (mem s) d va AND NOT PTE_W else pte_of (mem s) d va))
        \<and> (\<forall>va. PTE_ADDR (pte_of (mem t) d va) = PTE_ADDR (pte_of (mem s) d va)
             \<and> present (pte_of (mem t) d va) = present (pte_of (mem s) d va))"
    using t by (intro exI [of _ r] exI [of _ t]) (simp add: protected_range_def pt_extends_def clear_W(1))
qed

lemma vm_example_no_gap: "page_no va = 0 \<Longrightarrow> \<not> gap (mem vm_example) 0x200000 va"
  using pte_of_same_page [of va 0 "mem vm_example" "0x200000"]
  by (simp add: gap_def vm_example_pte page_no_def PTE_P_def)

theorem mprotect_correct_witness:
  "\<exists>t. mprotect 0x200000 0 1 vm_example = Inr (0, t) \<and> pte_of (mem t) 0x200000 0 = 0x202005
     \<and> mprotect 0x200000 5 1 vm_example = Inr (-1, vm_example)"
proof -
  have "\<not> page_aligned 5"
    by (simp add: page_aligned_def)
  moreover have "no_gap (mem vm_example) 0x200000 0 0"
    using vm_example_no_gap by (simp add: no_gap_def page_no_def)
  ultimately show ?thesis
    using mprotect_correct [OF vm_example_inv vm_example_ok, of 0 1]
      mprotect_correct [OF vm_example_inv vm_example_ok, of 5 1] vm_example_no_gap
    by (auto simp: page_range_def vm_example_pte PTE_P_def PTE_W_def page_no_def)
qed

text \<open>
  C13. Protecting a range of writable pages and unprotecting it again restores the
  address space: after \<open>mprotect\<close> returned 0, \<open>munprotect\<close> on the same range returns
  0 and every virtual address has the entry it had before both calls.
\<close>

theorem munprotect_mprotect:
  assumes "kmem_inv s" "pgdir_ok s d" "page_aligned a" "0 < len" "unat a + 4096 * (nat len - 1) < 4294967296"
    and run: "mprotect d a len s = Inr (0, t)"
    and w: "\<forall>va. page_range a (nat len - 1) va \<longrightarrow> present (pte_of (mem s) d va) \<longrightarrow>
              pte_of (mem s) d va AND PTE_W \<noteq> 0"
  shows "\<exists>u. munprotect d a len t = Inr (0, u) \<and> (\<forall>va. pte_of (mem u) d va = pte_of (mem s) d va)"
proof -
  let ?n = "nat len - 1"
  have t: "protected_range (\<lambda>e. e AND 0xFFFFFFFD) d a ?n 0 s t"
    using mprotect_spec [OF assms(1-5)] run by auto
  then have inv: "kmem_inv t" "pgdir_ok t d"
    by (auto simp: protected_range_def pt_extends_def)
  have ng: "\<not> gap (mem s) d va" if "page_range a ?n va" for va
    using t that by (auto simp: protected_range_def split: if_splits)
  have pr: "present (pte_of (mem t) d va) = present (pte_of (mem s) d va)" for va
    using t clear_W(2) by (simp add: protected_range_def)
  then have g: "gap (mem t) d va = gap (mem s) d va" for va
    using t by (simp add: gap_def protected_range_def)
  have no: "no_gap m d a va" if "page_range a ?n va" "\<And>vb. page_range a ?n vb \<Longrightarrow> \<not> gap m d vb" for va m
    using that by (auto simp: no_gap_def page_range_def)
  obtain r u where u: "munprotect d a len t = Inr (r, u)" "protected_range (\<lambda>e. e OR 0x2) d a ?n r t u"
    using munprotect_spec [OF inv assms(3-5)] by blast
  have "r = 0"
    using u(2) ng g by (simp add: protected_range_def)
  moreover have "pte_of (mem u) d va = pte_of (mem s) d va" for va
  proof (cases "page_range a ?n va \<and> present (pte_of (mem s) d va)")
    case True
    then have "pte_of (mem t) d va = pte_of (mem s) d va AND 0xFFFFFFFD"
      using t no ng by (simp add: protected_range_def)
    moreover have "pte_of (mem u) d va = pte_of (mem t) d va OR 0x2"
      using u(2) True no ng g pr by (simp add: protected_range_def)
    ultimately show ?thesis
      using set_clear_W w True by simp
  next
    case False
    then show ?thesis
      using t u(2) pr by (auto simp: protected_range_def)
  qed
  ultimately show ?thesis using u(1) by blast
qed

theorem munprotect_mprotect_witness:
  "\<exists>t u. mprotect 0x200000 0 1 vm_example = Inr (0, t) \<and> munprotect 0x200000 0 1 t = Inr (0, u)
     \<and> pte_of (mem u) 0x200000 0 = 0x202007"
proof -
  have al: "page_aligned 0" "(0 :: int) < 1" "unat (0 :: addr) + 4096 * (nat 1 - 1) < 4294967296"
    by simp_all
  obtain r t where t: "mprotect 0x200000 0 1 vm_example = Inr (r, t)"
    "protected_range (\<lambda>e. e AND 0xFFFFFFFD) 0x200000 0 (nat 1 - 1) r vm_example t"
    using mprotect_spec [OF vm_example_inv vm_example_ok al] by blast
  then have r: "r = 0"
    using vm_example_no_gap by (auto simp: protected_range_def page_range_def page_no_def split: if_splits)
  have "pte_of (mem vm_example) 0x200000 va AND PTE_W \<noteq> 0" if "page_range 0 (nat 1 - 1) va" for va
  proof -
    have "page_no va = page_no 0" using that by (simp add: page_range_def page_no_def)
    then have "pte_of (mem vm_example) 0x200000 va = 0x202007"
      using pte_of_same_page vm_example_pte(1) by metis
    then show ?thesis by (simp add: PTE_W_def)
  qed
  then show ?thesis
    using munprotect_mprotect [OF vm_example_inv vm_example_ok al t(1) [unfolded r]] t(1) r vm_example_pte(1)
    by metis
qed

end
