(* ===== verification/Proc_State.thy ===== *)
theory Proc_State
  imports Vm
begin

text \<open>
  The process table and the other global variables of \<open>kernel/proc.c\<close>, as a further
  layer of the kernel state. A \<open>struct proc *\<close> is an index of the table, a null
  pointer is \<open>None\<close>. The trap frame, which the kernel keeps at the top of the kernel
  stack, is a field of the process; the saved kernel context is not modelled.
  Counters (\<open>pid\<close>, ticks, sizes) are unbounded integers.
\<close>

definition NPROC :: nat where "NPROC = 64"
definition NOFILE :: nat where "NOFILE = 16"
definition NLAYER :: nat where "NLAYER = 4"
definition NUM_SEMAPHORES :: nat where "NUM_SEMAPHORES = 32"

text \<open>The length of one row of \<open>mlfq\<close>.\<close>

definition MLFQ_LEN :: nat where "MLFQ_LEN = 512"

datatype procstate = UNUSED | EMBRYO | SLEEPING | RUNNABLE | RUNNING | ZOMBIE

record trapframe =
  tf_edi :: u32
  tf_esi :: u32
  tf_ebp :: u32
  tf_oesp :: u32
  tf_ebx :: u32
  tf_edx :: u32
  tf_ecx :: u32
  tf_eax :: u32
  tf_gs :: u16
  tf_fs :: u16
  tf_es :: u16
  tf_ds :: u16
  tf_trapno :: u32
  tf_err :: u32
  tf_eip :: u32
  tf_cs :: u16
  tf_eflags :: u32
  tf_esp :: u32
  tf_ss :: u16

definition zero_tf :: trapframe where
  "zero_tf = \<lparr>tf_edi = 0, tf_esi = 0, tf_ebp = 0, tf_oesp = 0, tf_ebx = 0, tf_edx = 0, tf_ecx = 0,
     tf_eax = 0, tf_gs = 0, tf_fs = 0, tf_es = 0, tf_ds = 0, tf_trapno = 0, tf_err = 0, tf_eip = 0,
     tf_cs = 0, tf_eflags = 0, tf_esp = 0, tf_ss = 0\<rparr>"

record proc =
  psz :: u32
  pgdir :: addr
  kstack :: addr
  state :: procstate
  pid :: int
  parent :: "nat option"
  tf :: trapframe
  pchan :: chan
  killed :: bool
  ofile :: "nat option list"
  cwd :: "nat option"
  pname :: cstr
  ustack :: addr
  level :: int
  pticks :: "int list"
  wait_ticks :: "int list"
  ticks_curr :: int
  wait_ticks_curr :: int

record semaphore =
  sem_id :: int
  sem_value :: int
  sem_used :: int

record proc_st = vm_st +
  ptable :: "proc list"
  cur :: "nat option"
  initproc :: "nat option"
  nextpid :: int
  mlfq :: "nat option list list"
  mlfq_size :: "int list"
  sem_list :: "semaphore list"
  num_sem :: int
  ticks :: u32

text \<open>The process table as the boot loader leaves it, all zero.\<close>

definition zero_proc :: proc where
  "zero_proc = \<lparr>psz = 0, pgdir = 0, kstack = 0, state = UNUSED, pid = 0, parent = None, tf = zero_tf,
     pchan = NoChan, killed = False, ofile = replicate NOFILE None, cwd = None, pname = (\<lambda>_. 0),
     ustack = 0, level = 0, pticks = replicate NLAYER 0, wait_ticks = replicate NLAYER 0,
     ticks_curr = 0, wait_ticks_curr = 0\<rparr>"

section \<open>Access\<close>

definition procs :: "'z proc_st_scheme \<Rightarrow> nat \<Rightarrow> proc" where
  "procs s i = ptable s ! i"

definition upd_proc :: "nat \<Rightarrow> (proc \<Rightarrow> proc) \<Rightarrow> ('z proc_st_scheme, unit) kop" where
  "upd_proc i f = kmod (\<lambda>s. s\<lparr>ptable := (ptable s)[i := f (ptable s ! i)]\<rparr>)"

text \<open>The variable \<open>proc\<close>; dereferencing it while it is 0 is undefined.\<close>

definition curproc :: "('z proc_st_scheme, nat) kop" where
  "curproc s = (case cur s of None \<Rightarrow> Inl (Undef ''proc == 0'') | Some p \<Rightarrow> Inr (p, s))"

lemma curproc_run [simp, kop_simps]: "cur s = Some p \<Longrightarrow> curproc s = Inr (p, s)"
  by (simp add: curproc_def)

lemma upd_proc_run [simp, kop_simps]:
  "upd_proc i f s = Inr ((), s\<lparr>ptable := (ptable s)[i := f (ptable s ! i)]\<rparr>)"
  by (simp add: upd_proc_def)

text \<open>Element access of an array of \<open>n\<close> elements by a signed index.\<close>

definition in_array :: "nat \<Rightarrow> int \<Rightarrow> bool" where
  "in_array n i \<longleftrightarrow> 0 \<le> i \<and> i < int n"

section \<open>The process table invariant\<close>

text \<open>
  The shapes of the arrays, and the pointers into the table: every array has its
  declared length, every process pointer is an element of the table.
\<close>

definition proc_shape :: "proc \<Rightarrow> bool" where
  "proc_shape p \<longleftrightarrow> length (ofile p) = NOFILE \<and> length (pticks p) = NLAYER
     \<and> length (wait_ticks p) = NLAYER \<and> 0 \<le> level p \<and> level p < int NLAYER
     \<and> (case parent p of None \<Rightarrow> True | Some i \<Rightarrow> i < NPROC)"

definition ptable_shape :: "'z proc_st_scheme \<Rightarrow> bool" where
  "ptable_shape s \<longleftrightarrow> length (ptable s) = NPROC \<and> (\<forall>p \<in> set (ptable s). proc_shape p)
     \<and> (case cur s of None \<Rightarrow> True | Some i \<Rightarrow> i < NPROC)
     \<and> (case initproc s of None \<Rightarrow> True | Some i \<Rightarrow> i < NPROC)"

lemma ptable_shape_proc: "ptable_shape s \<Longrightarrow> i < NPROC \<Longrightarrow> proc_shape (ptable s ! i)"
  by (simp add: ptable_shape_def)

lemma ptable_shape_upd:
  assumes "ptable_shape s" "i < NPROC \<Longrightarrow> proc_shape (ptable s ! i) \<Longrightarrow> proc_shape q"
  shows "ptable_shape (s\<lparr>ptable := (ptable s)[i := q]\<rparr>)"
proof (cases "i < NPROC")
  case True
  then show ?thesis
    using assms by (auto simp: ptable_shape_def dest: set_update_subset_insert [THEN subsetD])
next
  case False
  then show ?thesis
    using assms(1) by (simp add: ptable_shape_def list_update_beyond)
qed

end
