(* ===== verification/Mlfq.thy ===== *)
theory Mlfq
  imports Proc_State
begin

text \<open>
  The multi-level feedback queue of \<open>kernel/proc.c\<close>: the four rows of 512 process
  pointers with their sizes, \<open>rm_priority\<close>, the scheduler, \<open>boostproc\<close> and
  \<open>getprocinfo\<close>. The lemmas abstract a row to the list of its first \<open>mlfq_size\<close>
  entries.
\<close>

section \<open>Model\<close>

definition limit_total :: "int list" where "limit_total = [64, 32, 16, 8]"
definition limit_rr :: "int list" where "limit_rr = [64, 4, 2, 1]"

text \<open>
  Reads and writes of \<open>mlfq_size[lvl]\<close> and \<open>mlfq[lvl][i]\<close>. An index outside the
  declared bounds is undefined behaviour.
\<close>

definition get_size :: "int \<Rightarrow> ('z proc_st_scheme, int) kop" where
  "get_size lvl =
     (if in_array NLAYER lvl then kget (\<lambda>s. mlfq_size s ! nat lvl) else kfail (Undef ''mlfq_size''))"

definition set_size :: "int \<Rightarrow> int \<Rightarrow> ('z proc_st_scheme, unit) kop" where
  "set_size lvl n =
     (if in_array NLAYER lvl then kmod (\<lambda>s. s\<lparr>mlfq_size := (mlfq_size s)[nat lvl := n]\<rparr>)
      else kfail (Undef ''mlfq_size''))"

definition get_mlfq :: "int \<Rightarrow> int \<Rightarrow> ('z proc_st_scheme, nat option) kop" where
  "get_mlfq lvl i =
     (if in_array NLAYER lvl \<and> in_array MLFQ_LEN i then kget (\<lambda>s. mlfq s ! nat lvl ! nat i)
      else kfail (Undef ''mlfq''))"

definition set_mlfq :: "int \<Rightarrow> int \<Rightarrow> nat option \<Rightarrow> ('z proc_st_scheme, unit) kop" where
  "set_mlfq lvl i p =
     (if in_array NLAYER lvl \<and> in_array MLFQ_LEN i
      then kmod (\<lambda>s. s\<lparr>mlfq := (mlfq s)[nat lvl := (mlfq s ! nat lvl)[nat i := p]]\<rparr>)
      else kfail (Undef ''mlfq''))"

text \<open>An entry that is dereferenced: a null pointer is a fault.\<close>

definition mlfq_proc :: "int \<Rightarrow> int \<Rightarrow> ('z proc_st_scheme, nat) kop" where
  "mlfq_proc lvl i =
     kbind (get_mlfq lvl i) (\<lambda>p. case p of None \<Rightarrow> kfail (Undef ''mlfq: null process'') | Some q \<Rightarrow> kret q)"

text \<open>\<open>mlfq[lvl][mlfq_size[lvl]] = p; mlfq_size[lvl] += 1\<close>\<close>

definition mlfq_append :: "int \<Rightarrow> nat \<Rightarrow> ('z proc_st_scheme, unit) kop" where
  "mlfq_append lvl p =
     kbind (get_size lvl) (\<lambda>n.
     kbind (set_mlfq lvl n (Some p)) (\<lambda>_.
     set_size lvl (n + 1)))"

text \<open>The loop of \<open>rm_priority\<close>, with the number of iterations left.\<close>

primrec rm_shift :: "int \<Rightarrow> int \<Rightarrow> nat \<Rightarrow> ('z proc_st_scheme, unit) kop" where
  "rm_shift lvl i 0 = kret ()"
| "rm_shift lvl i (Suc n) =
     kbind (get_mlfq lvl (i + 1)) (\<lambda>p.
     kbind (set_mlfq lvl i p) (\<lambda>_.
     kbind (set_mlfq lvl (i + 1) None) (\<lambda>_.
     rm_shift lvl (i + 1) n)))"

definition rm_priority :: "int \<Rightarrow> int \<Rightarrow> ('z proc_st_scheme, unit) kop" where
  "rm_priority lvl index =
     kbind (get_size lvl) (\<lambda>n.
     kbind (if n > 1 then rm_shift lvl index (nat (n - 1 - index)) else set_mlfq lvl index None) (\<lambda>_.
     set_size lvl (n - 1)))"

text \<open>
  Every \<open>RUNNABLE\<close> process waits one tick at its own level.
\<close>

definition wait_tick :: "proc \<Rightarrow> proc" where
  "wait_tick p =
     (if state p = RUNNABLE \<and> pid p > 0
      then p\<lparr>wait_ticks := (wait_ticks p)[nat (level p) := wait_ticks p ! nat (level p) + 1],
             wait_ticks_curr := wait_ticks_curr p + 1\<rparr>
      else p)"

text \<open>\<open>switchuvm\<close> as far as it concerns the address space.\<close>

definition switchuvm :: "nat \<Rightarrow> ('z proc_st_scheme, unit) kop" where
  "switchuvm p =
     kbind (kget (\<lambda>s. pgdir (procs s p))) (\<lambda>d.
     if d = 0 then kfail (Panic ''switchuvm: no pgdir'') else kmod (\<lambda>s. s\<lparr>cr3 := d\<rparr>))"

text \<open>Before the switch to the chosen process \<open>p\<close> of level \<open>lvl\<close>.\<close>

definition sched_pick :: "int \<Rightarrow> nat \<Rightarrow> ('z proc_st_scheme, unit) kop" where
  "sched_pick lvl p =
     kbind (kmod (\<lambda>s. s\<lparr>cur := Some p\<rparr>)) (\<lambda>_.
     kbind (kmod (\<lambda>s. s\<lparr>ptable := map wait_tick (ptable s)\<rparr>)) (\<lambda>_.
     kbind (switchuvm p) (\<lambda>_.
     upd_proc p (\<lambda>q. q\<lparr>state := RUNNING, ticks_curr := ticks_curr q + 1, wait_ticks_curr := 0,
                      pticks := (pticks q)[nat lvl := pticks q ! nat lvl + 1]\<rparr>))))"

text \<open>After the process came back: downgrading or round robin. \<open>i\<close> is the index at
  which the scheduler found it.\<close>

definition sched_requeue :: "int \<Rightarrow> int \<Rightarrow> nat \<Rightarrow> ('z proc_st_scheme, unit) kop" where
  "sched_requeue lvl i p =
     kbind (kget (\<lambda>s. ticks_curr (procs s p))) (\<lambda>tc.
     if lvl > 0 \<and> tc \<ge> limit_total ! nat lvl then
       kbind (rm_priority lvl i) (\<lambda>_.
       kbind (mlfq_append (lvl - 1) p) (\<lambda>_.
       upd_proc p (\<lambda>q. q\<lparr>ticks_curr := 0, wait_ticks_curr := 0,
                        wait_ticks := (wait_ticks q)[nat lvl := 0], level := lvl - 1\<rparr>)))
     else if tc mod limit_rr ! nat lvl = 0 then
       kbind (rm_priority lvl i) (\<lambda>_. mlfq_append lvl p)
     else kret ())"

text \<open>The promotion loop of one level, \<open>n\<close> bounding the iterations left: the index
  grows in every round and the size of the row never does.\<close>

primrec promote_level :: "int \<Rightarrow> int \<Rightarrow> nat \<Rightarrow> ('z proc_st_scheme, unit) kop" where
  "promote_level lvl i 0 = kret ()"
| "promote_level lvl i (Suc n) =
     kbind (get_size lvl) (\<lambda>m.
     if i < m then
       kbind (mlfq_proc lvl i) (\<lambda>p.
       kbind (kget (\<lambda>s. procs s p)) (\<lambda>q.
       if \<not> in_array NLAYER (level q) then kfail (Undef ''limit_total'')
       else
       kbind (if wait_ticks_curr q \<ge> 10 * limit_total ! nat (level q) then
           kbind (rm_priority lvl i) (\<lambda>_.
           kbind (mlfq_append (lvl + 1) p) (\<lambda>_.
           upd_proc p (\<lambda>q. q\<lparr>ticks_curr := 0, wait_ticks_curr := 0,
                            wait_ticks := (wait_ticks q)[nat lvl := 0], level := level q + 1\<rparr>)))
         else kret ()) (\<lambda>_.
       promote_level lvl (i + 1) n)))
     else kret ())"

definition promote :: "('z proc_st_scheme, unit) kop" where
  "promote = kfor [3, 2, 1, 0] (\<lambda>lvl.
     kbind (get_size lvl) (\<lambda>m. promote_level lvl 0 (nat m)))"

text \<open>The search for a \<open>RUNNABLE\<close> process in one level, from index \<open>i\<close> on.\<close>

primrec scan_level :: "int \<Rightarrow> int \<Rightarrow> nat \<Rightarrow> ('z proc_st_scheme, (int \<times> nat) option) kop" where
  "scan_level lvl i 0 = kret None"
| "scan_level lvl i (Suc n) =
     kbind (mlfq_proc lvl i) (\<lambda>p.
     kbind (kget (\<lambda>s. state (procs s p))) (\<lambda>st.
     if st = RUNNABLE then kret (Some (i, p)) else scan_level lvl (i + 1) n))"

primrec scan_levels :: "int list \<Rightarrow> ('z proc_st_scheme, (int \<times> int \<times> nat) option) kop" where
  "scan_levels [] = kret None"
| "scan_levels (lvl # ls) =
     kbind (get_size lvl) (\<lambda>m.
     kbind (scan_level lvl 0 (nat m)) (\<lambda>r.
     case r of Some (i, p) \<Rightarrow> kret (Some (lvl, i, p)) | None \<Rightarrow> scan_levels ls))"

text \<open>
  One pass of the scheduler's outer loop. \<open>swtch\<close> stands for the assembly routine
  together with all that runs until a process switches back. The promotion loop
  reuses the variable \<open>lvl\<close>, which is \<open>-1\<close> afterwards, so the inner loop then tests
  \<open>mlfq_size[-1]\<close>, the integer \<open>below\<close> the array: when it is not positive the pass
  ends, otherwise the code reads \<open>mlfq[-1]\<close>.
\<close>

definition scheduler_pass ::
  "('z proc_st_scheme, unit) kop \<Rightarrow> int \<Rightarrow> ('z proc_st_scheme, (int \<times> int \<times> nat) option) kop" where
  "scheduler_pass swtch below =
     kbind (scan_levels [3, 2, 1, 0]) (\<lambda>r.
     case r of
       None \<Rightarrow> kret None
     | Some (lvl, i, p) \<Rightarrow>
         kbind (sched_pick lvl p) (\<lambda>_.
         kbind swtch (\<lambda>_.
         kbind switchkvm (\<lambda>_.
         kbind (kmod (\<lambda>s. s\<lparr>cur := None\<rparr>)) (\<lambda>_.
         kbind (sched_requeue lvl i p) (\<lambda>_.
         kbind promote (\<lambda>_.
         if below > 0 then kfail (Undef ''mlfq[-1]'') else kret (Some (lvl, i, p)))))))))"

text \<open>The search of \<open>boostproc\<close> for the current process in its row, by pid.\<close>

primrec boost_find :: "int \<Rightarrow> int \<Rightarrow> int \<Rightarrow> nat \<Rightarrow> ('z proc_st_scheme, int) kop" where
  "boost_find lvl pd i 0 = kret (-1)"
| "boost_find lvl pd i (Suc n) =
     kbind (mlfq_proc lvl i) (\<lambda>p.
     kbind (kget (\<lambda>s. pid (procs s p))) (\<lambda>q.
     if pd = q then kret i else boost_find lvl pd (i + 1) n))"

definition boostproc :: "('z proc_st_scheme, int) kop" where
  "boostproc =
     kbind curproc (\<lambda>p.
     kbind (kget (\<lambda>s. level (procs s p))) (\<lambda>lvl.
     if lvl = 3 then kret 0
     else
     kbind (kget (\<lambda>s. pid (procs s p))) (\<lambda>pd.
     kbind (get_size lvl) (\<lambda>n.
     kbind (boost_find lvl pd 0 (nat n)) (\<lambda>index.
     if index = -1 then kret 0
     else
     kbind (rm_priority lvl index) (\<lambda>_.
     kbind (mlfq_append (lvl + 1) p) (\<lambda>_.
     kbind (upd_proc p (\<lambda>q. q\<lparr>ticks_curr := 0, wait_ticks_curr := 0,
                             wait_ticks := (wait_ticks q)[nat lvl := 0], level := level q + 1\<rparr>)) (\<lambda>_.
     kret 0))))))))"

text \<open>The table \<open>struct pstat\<close> that \<open>getprocinfo\<close> fills, one record per slot.\<close>

record pstat_slot =
  ps_inuse :: int
  ps_pid :: int
  ps_priority :: int
  ps_state :: procstate
  ps_ticks :: "int list"
  ps_wait_ticks :: "int list"

definition pstat_of :: "proc \<Rightarrow> pstat_slot" where
  "pstat_of p = \<lparr>ps_inuse = 1, ps_pid = pid p, ps_priority = level p, ps_state = state p,
     ps_ticks = pticks p, ps_wait_ticks = wait_ticks p\<rparr>"

primrec info_level :: "int \<Rightarrow> int \<Rightarrow> nat \<Rightarrow> pstat_slot list \<Rightarrow> ('z proc_st_scheme, pstat_slot list) kop" where
  "info_level lvl i 0 st = kret st"
| "info_level lvl i (Suc n) st =
     kbind (mlfq_proc lvl i) (\<lambda>p.
     kbind (kget (\<lambda>s. procs s p)) (\<lambda>q.
     if \<not> in_array NPROC i then kfail (Undef ''pstat'')
     else info_level lvl (i + 1) n (st[nat i := pstat_of q])))"

primrec info_levels :: "int list \<Rightarrow> pstat_slot list \<Rightarrow> ('z proc_st_scheme, pstat_slot list) kop" where
  "info_levels [] st = kret st"
| "info_levels (lvl # ls) st =
     kbind (get_size lvl) (\<lambda>m.
     kbind (info_level lvl 0 (nat m) st) (\<lambda>st. info_levels ls st))"

definition getprocinfo :: "pstat_slot list option \<Rightarrow> ('z proc_st_scheme, int \<times> pstat_slot list) kop" where
  "getprocinfo allstat =
     (case allstat of
        None \<Rightarrow> kret (-1, [])
      | Some st \<Rightarrow> kbind (info_levels [3, 2, 1, 0] st) (\<lambda>st. kret (0, st)))"

section \<open>Rows as queues\<close>

definition queue :: "'z proc_st_scheme \<Rightarrow> nat \<Rightarrow> nat list" where
  "queue s l = map the (take (nat (mlfq_size s ! l)) (mlfq s ! l))"

definition row_ok :: "nat option list \<Rightarrow> int \<Rightarrow> bool" where
  "row_ok r n \<longleftrightarrow> length r = MLFQ_LEN \<and> 0 \<le> n \<and> n \<le> int MLFQ_LEN
     \<and> (\<forall>x \<in> set (take (nat n) r). \<exists>p < NPROC. x = Some p)"

definition mlfq_ok :: "'z proc_st_scheme \<Rightarrow> bool" where
  "mlfq_ok s \<longleftrightarrow> length (mlfq s) = NLAYER \<and> length (mlfq_size s) = NLAYER
     \<and> (\<forall>l < NLAYER. row_ok (mlfq s ! l) (mlfq_size s ! l))"

text \<open>\<open>t\<close> differs from \<open>s\<close> in the queues only.\<close>

definition requeued :: "'z proc_st_scheme \<Rightarrow> 'z proc_st_scheme \<Rightarrow> bool" where
  "requeued s t \<longleftrightarrow> (\<exists>m z. t = s\<lparr>mlfq := m, mlfq_size := z\<rparr>)"

lemma mlfq_okD:
  assumes "mlfq_ok s" "l < NLAYER"
  shows "length (mlfq s ! l) = MLFQ_LEN" "0 \<le> mlfq_size s ! l" "mlfq_size s ! l \<le> int MLFQ_LEN"
    "l < length (mlfq s)" "l < length (mlfq_size s)"
  using assms by (auto simp: mlfq_ok_def row_ok_def)

lemma length_queue: "mlfq_ok s \<Longrightarrow> l < NLAYER \<Longrightarrow> int (length (queue s l)) = mlfq_size s ! l"
  using mlfq_okD [of s l] by (simp add: queue_def)

lemma queue_nth:
  assumes "mlfq_ok s" "l < NLAYER" "i < length (queue s l)"
  shows "mlfq s ! l ! i = Some (queue s l ! i)" "queue s l ! i < NPROC" "i < MLFQ_LEN"
proof -
  have i: "i < nat (mlfq_size s ! l)" "i < length (mlfq s ! l)"
    using assms(3) by (auto simp: queue_def)
  then have "mlfq s ! l ! i \<in> set (take (nat (mlfq_size s ! l)) (mlfq s ! l))"
    by (auto simp: in_set_conv_nth intro!: exI [of _ i])
  then obtain p where "p < NPROC" "mlfq s ! l ! i = Some p"
    using assms(1,2) by (auto simp: mlfq_ok_def row_ok_def)
  then show "mlfq s ! l ! i = Some (queue s l ! i)" "queue s l ! i < NPROC"
    using i by (simp_all add: queue_def)
  show "i < MLFQ_LEN"
    using i(2) mlfq_okD(1) [OF assms(1,2)] by simp
qed

lemma queue_less: "mlfq_ok s \<Longrightarrow> l < NLAYER \<Longrightarrow> p \<in> set (queue s l) \<Longrightarrow> p < NPROC"
  by (metis in_set_conv_nth queue_nth(2))

lemma requeuedI [intro]: "requeued s (s\<lparr>mlfq := m, mlfq_size := z\<rparr>)"
  by (auto simp: requeued_def)

lemma requeued_refl [simp]: "requeued s s"
  unfolding requeued_def by (intro exI [of _ "mlfq s"] exI [of _ "mlfq_size s"]) simp

lemma requeued_trans: "requeued s t \<Longrightarrow> requeued t u \<Longrightarrow> requeued s u"
  unfolding requeued_def by force

lemma requeued_sel:
  assumes "requeued s t"
  shows "ptable t = ptable s" "cur t = cur s" "initproc t = initproc s" "nextpid t = nextpid s"
    "sem_list t = sem_list s" "num_sem t = num_sem s" "ticks t = ticks s" "mem t = mem s" "cr3 t = cr3 s"
    "proc_st.more t = proc_st.more s" "procs t = procs s"
  using assms by (auto simp: requeued_def procs_def fun_eq_iff)

subsection \<open>Removing and appending\<close>

primrec row_shift :: "'a option list \<Rightarrow> nat \<Rightarrow> nat \<Rightarrow> 'a option list" where
  "row_shift r i 0 = r"
| "row_shift r i (Suc n) = row_shift (r[i := r ! Suc i, Suc i := None]) (Suc i) n"

lemma length_row_shift [simp]: "length (row_shift r i n) = length r"
  by (induction n arbitrary: r i) auto

lemma take_row_shift:
  "i + n < length r \<Longrightarrow> take (i + n) (row_shift r i n) = take i r @ take n (drop (Suc i) r)"
proof (induction n arbitrary: r i)
  case 0
  then show ?case by simp
next
  case (Suc n)
  let ?r = "r[i := r ! Suc i, Suc i := None]"
  have "take (Suc i + n) (row_shift ?r (Suc i) n) = take (Suc i) ?r @ take n (drop (Suc (Suc i)) ?r)"
    using Suc.prems by (intro Suc.IH) simp
  moreover have "take (Suc i) ?r = take i r @ [r ! Suc i]"
    using Suc.prems by (simp add: take_Suc_conv_app_nth)
  moreover have "take (Suc n) (drop (Suc i) r) = r ! Suc i # take n (drop (Suc (Suc i)) r)"
    using Suc.prems by (simp add: Cons_nth_drop_Suc [symmetric])
  ultimately show ?case by simp
qed

lemma in_array_nat [simp]: "in_array n (int i) \<longleftrightarrow> i < n"
  by (simp add: in_array_def)

lemma in_array_Suc [simp]: "in_array n (int i + 1) \<longleftrightarrow> Suc i < n"
  by (auto simp: in_array_def)

lemma nat_int_Suc [simp]: "nat (int i + 1) = Suc i"
  by simp

lemma rm_shift_run:
  assumes "length (mlfq s) = NLAYER" "l < NLAYER" "i + n < MLFQ_LEN" "length (mlfq s ! l) = MLFQ_LEN"
  shows "rm_shift (int l) (int i) n s
     = Inr ((), s\<lparr>mlfq := (mlfq s)[l := row_shift (mlfq s ! l) i n]\<rparr>)"
  using assms
proof (induction n arbitrary: i s)
  case 0
  then show ?case by simp
next
  case (Suc n)
  let ?t = "s\<lparr>mlfq := (mlfq s)[l := (mlfq s ! l)[i := mlfq s ! l ! Suc i, Suc i := None]]\<rparr>"
  have eq: "int (Suc i) = int i + 1"
    by simp
  have "rm_shift (int l) (int i) (Suc n) s = rm_shift (int l) (int (Suc i)) n ?t"
    unfolding eq using Suc.prems by (simp add: get_mlfq_def set_mlfq_def)
  also have "\<dots> = Inr ((), ?t\<lparr>mlfq := (mlfq ?t)[l := row_shift (mlfq ?t ! l) (Suc i) n]\<rparr>)"
    using Suc.prems by (intro Suc.IH) simp_all
  finally show ?case
    using Suc.prems by simp
qed

lemma rm_priority_run:
  assumes ok: "mlfq_ok s" and l: "l < NLAYER" and i: "i < length (queue s l)"
  shows "\<exists>t. rm_priority (int l) (int i) s = Inr ((), t) \<and> requeued s t \<and> mlfq_ok t
     \<and> queue t l = take i (queue s l) @ drop (Suc i) (queue s l)
     \<and> (\<forall>k. k \<noteq> l \<longrightarrow> queue t k = queue s k)
     \<and> mlfq_size t = (mlfq_size s)[l := mlfq_size s ! l - 1]"
proof -
  note D = mlfq_okD [OF ok l]
  define n where "n = nat (mlfq_size s ! l)"
  define r where "r = mlfq s ! l"
  have n: "mlfq_size s ! l = int n" "n \<le> MLFQ_LEN" "i < n" "length r = MLFQ_LEN" "queue s l = map the (take n r)"
    using D i by (auto simp: n_def r_def queue_def)
  have some: "\<exists>p < NPROC. x = Some p" if "x \<in> set (take n r)" for x
    using that ok l by (simp add: mlfq_ok_def row_ok_def n_def r_def)
  define r' where "r' = (if 1 < n then row_shift r i (n - 1 - i) else r[i := None])"
  have r': "length r' = MLFQ_LEN" "take (n - 1) r' = take i r @ drop (Suc i) (take n r)"
  proof -
    show "length r' = MLFQ_LEN"
      using n by (simp add: r'_def)
    show "take (n - 1) r' = take i r @ drop (Suc i) (take n r)"
    proof (cases "1 < n")
      case True
      have "i + (n - 1 - i) < length r"
        using n by auto
      from take_row_shift [OF this] show ?thesis
        using True n(3) by (simp add: r'_def drop_take)
    next
      case False
      then have "n = 1" "i = 0" using n(3) by auto
      then show ?thesis by (simp add: r'_def)
    qed
  qed
  define t where "t = s\<lparr>mlfq := (mlfq s)[l := r'], mlfq_size := (mlfq_size s)[l := int n - 1]\<rparr>"
  have inm: "in_array MLFQ_LEN (int i)"
    using n by simp
  have run: "rm_priority (int l) (int i) s = Inr ((), t)"
  proof (cases "1 < n")
    case True
    then have "nat (int n - 1 - int i) = n - 1 - i"
      by simp
    moreover have "rm_shift (int l) (int i) (n - 1 - i) s = Inr ((), s\<lparr>mlfq := (mlfq s)[l := r']\<rparr>)"
      using rm_shift_run [of s l i "n - 1 - i"] ok l n True
      by (simp add: mlfq_ok_def r'_def r_def)
    ultimately show ?thesis
      using True l n by (simp add: rm_priority_def get_size_def set_size_def t_def)
  next
    case False
    then show ?thesis
      using l n inm by (simp add: rm_priority_def get_size_def set_size_def set_mlfq_def t_def r'_def r_def)
  qed
  have sub: "set (take (n - 1) r') \<subseteq> set (take n r)"
    unfolding r'(2) using n(3) by (auto dest: in_set_dropD intro: set_take_subset_set_take [THEN subsetD, of i n])
  have q: "queue t l = take i (queue s l) @ drop (Suc i) (queue s l)"
  proof -
    have "nat (int n - 1) = n - 1" by simp
    then have "queue t l = map the (take (n - 1) r')"
      using D by (simp add: queue_def t_def)
    then show ?thesis
      unfolding r'(2) n(5) using n(3) by (simp add: take_map drop_map min_def)
  qed
  have "row_ok r' (int n - 1)"
    using r'(1) n some sub by (auto simp: row_ok_def nat_diff_distrib)
  then have "mlfq_ok t"
    using ok l D by (auto simp: mlfq_ok_def t_def nth_list_update)
  moreover have "queue t k = queue s k" if "k \<noteq> l" for k
    using that by (simp add: queue_def t_def)
  ultimately show ?thesis
    using run q n(1) by (auto simp: t_def)
qed

lemma mlfq_append_run:
  assumes ok: "mlfq_ok s" and l: "l < NLAYER" and p: "p < NPROC"
  shows "if length (queue s l) < MLFQ_LEN
     then \<exists>t. mlfq_append (int l) p s = Inr ((), t) \<and> requeued s t \<and> mlfq_ok t
        \<and> queue t l = queue s l @ [p] \<and> (\<forall>k. k \<noteq> l \<longrightarrow> queue t k = queue s k)
     else mlfq_append (int l) p s = Inl (Undef ''mlfq'')"
proof -
  note D = mlfq_okD [OF ok l]
  define n where "n = nat (mlfq_size s ! l)"
  have n: "mlfq_size s ! l = int n" "length (queue s l) = n"
    using D by (auto simp: n_def queue_def)
  define t where "t = s\<lparr>mlfq := (mlfq s)[l := (mlfq s ! l)[n := Some p]], mlfq_size := (mlfq_size s)[l := int n + 1]\<rparr>"
  show ?thesis
  proof (cases "n < MLFQ_LEN")
    case True
    have run: "mlfq_append (int l) p s = Inr ((), t)"
      using l n True by (simp add: mlfq_append_def get_size_def set_size_def set_mlfq_def t_def)
    have tk: "take (Suc n) ((mlfq s ! l)[n := Some p]) = take n (mlfq s ! l) @ [Some p]"
      using True D by (simp add: take_Suc_conv_app_nth)
    then have q: "queue t l = queue s l @ [p]"
      using D n by (simp add: queue_def t_def)
    have "row_ok ((mlfq s ! l)[n := Some p]) (int n + 1)"
    proof -
      have "\<forall>x \<in> set (take n (mlfq s ! l)). \<exists>p < NPROC. x = Some p"
        using ok l by (simp add: row_ok_def mlfq_ok_def n_def)
      moreover have "nat (int n + 1) = Suc n"
        by simp
      ultimately show ?thesis
        using D True tk p by (simp add: row_ok_def)
    qed
    then have "mlfq_ok t"
      using ok l D by (auto simp: mlfq_ok_def t_def nth_list_update)
    moreover have "queue t k = queue s k" if "k \<noteq> l" for k
      using that by (simp add: queue_def t_def)
    ultimately show ?thesis
      using True run q n by (auto simp: t_def)
  next
    case False
    then show ?thesis
      using l n by (simp add: mlfq_append_def get_size_def set_mlfq_def)
  qed
qed

subsection \<open>Choosing a process\<close>

definition runnable :: "'z proc_st_scheme \<Rightarrow> nat \<Rightarrow> bool" where
  "runnable s p \<longleftrightarrow> state (procs s p) = RUNNABLE"

text \<open>\<open>first_in s l k p\<close>: the first \<open>RUNNABLE\<close> entry of row \<open>l\<close> is \<open>p\<close>, at index \<open>k\<close>.\<close>

definition first_in :: "'z proc_st_scheme \<Rightarrow> nat \<Rightarrow> nat \<Rightarrow> nat \<Rightarrow> bool" where
  "first_in s l k p \<longleftrightarrow> k < length (queue s l) \<and> queue s l ! k = p \<and> runnable s p
     \<and> (\<forall>j < k. \<not> runnable s (queue s l ! j))"

definition none_in :: "'z proc_st_scheme \<Rightarrow> nat \<Rightarrow> bool" where
  "none_in s l \<longleftrightarrow> (\<forall>p \<in> set (queue s l). \<not> runnable s p)"

lemma mlfq_proc_run:
  assumes "mlfq_ok s" "l < NLAYER" "i < length (queue s l)"
  shows "mlfq_proc (int l) (int i) s = Inr (queue s l ! i, s)"
  using queue_nth [OF assms] assms(2) by (simp add: mlfq_proc_def get_mlfq_def)

lemma get_size_run: "mlfq_ok s \<Longrightarrow> l < NLAYER \<Longrightarrow> get_size (int l) s = Inr (int (length (queue s l)), s)"
  by (simp add: get_size_def length_queue)

lemma scan_level_run:
  assumes ok: "mlfq_ok s" and l: "l < NLAYER" and n: "i + n = length (queue s l)"
    and before: "\<forall>j < i. \<not> runnable s (queue s l ! j)"
  shows "scan_level (int l) (int i) n s = Inr (None, s) \<and> none_in s l
    \<or> (\<exists>k p. scan_level (int l) (int i) n s = Inr (Some (int k, p), s) \<and> first_in s l k p)"
  using n before
proof (induction n arbitrary: i)
  case 0
  then show ?case by (auto simp: none_in_def in_set_conv_nth)
next
  case (Suc n)
  have i: "i < length (queue s l)"
    using Suc.prems by simp
  note run = mlfq_proc_run [OF ok l i]
  have eq: "int (Suc i) = int i + 1" by simp
  show ?case
  proof (cases "runnable s (queue s l ! i)")
    case True
    then have "scan_level (int l) (int i) (Suc n) s = Inr (Some (int i, queue s l ! i), s)"
      using run by (simp add: runnable_def)
    moreover have "first_in s l i (queue s l ! i)"
      using True i Suc.prems(2) by (simp add: first_in_def)
    ultimately show ?thesis by blast
  next
    case False
    then have "scan_level (int l) (int i) (Suc n) s = scan_level (int l) (int (Suc i)) n s"
      unfolding eq using run by (simp add: runnable_def)
    moreover have "\<forall>j < Suc i. \<not> runnable s (queue s l ! j)"
      using False Suc.prems(2) by (auto simp: less_Suc_eq)
    ultimately show ?thesis
      using Suc.IH [of "Suc i"] Suc.prems by simp
  qed
qed

lemma scan_levels_run:
  assumes ok: "mlfq_ok s" and l: "\<forall>l \<in> set ls. l < NLAYER"
  shows "scan_levels (map int ls) s = Inr (None, s) \<and> (\<forall>l \<in> set ls. none_in s l)
    \<or> (\<exists>as l bs k p. ls = as @ l # bs \<and> scan_levels (map int ls) s = Inr (Some (int l, int k, p), s)
         \<and> first_in s l k p \<and> (\<forall>m \<in> set as. none_in s m))"
  using l
proof (induction ls)
  case Nil
  then show ?case by simp
next
  case (Cons l ls)
  have l: "l < NLAYER" using Cons.prems by simp
  note sz = get_size_run [OF ok l]
  have z: "0 + length (queue s l) = length (queue s l)" by simp
  consider (none) "scan_level (int l) 0 (length (queue s l)) s = Inr (None, s)" "none_in s l"
    | (some) k p where "scan_level (int l) 0 (length (queue s l)) s = Inr (Some (int k, p), s)" "first_in s l k p"
    using scan_level_run [OF ok l z] by auto
  then show ?case
  proof cases
    case some
    then have "scan_levels (map int (l # ls)) s = Inr (Some (int l, int k, p), s)"
      using sz by simp
    then show ?thesis using some(2) by (intro disjI2 exI [of _ "[]"]) auto
  next
    case none
    then have eq: "scan_levels (map int (l # ls)) s = scan_levels (map int ls) s"
      using sz by simp
    consider "scan_levels (map int ls) s = Inr (None, s)" "\<forall>l \<in> set ls. none_in s l"
      | (later) as m bs k p where "ls = as @ m # bs" "scan_levels (map int ls) s = Inr (Some (int m, int k, p), s)"
         "first_in s m k p" "\<forall>m \<in> set as. none_in s m"
      using Cons by auto
    then show ?thesis
    proof cases
      case 1
      then show ?thesis using eq none(2) by simp
    next
      case later
      then show ?thesis unfolding eq using none(2)
        by (intro disjI2 exI [of _ "l # as"] exI [of _ m] exI [of _ bs] exI [of _ k] exI [of _ p]) simp
    qed
  qed
qed

lemma scan_all:
  assumes ok: "mlfq_ok s"
  shows "scan_levels [3, 2, 1, 0] s = Inr (None, s) \<and> (\<forall>l < NLAYER. none_in s l)
    \<or> (\<exists>l k p. scan_levels [3, 2, 1, 0] s = Inr (Some (int l, int k, p), s) \<and> l < NLAYER
         \<and> first_in s l k p \<and> (\<forall>m. l < m \<and> m < NLAYER \<longrightarrow> none_in s m))"
proof -
  have ls: "map int [3, 2, 1, 0] = [3, 2, 1, 0]" "\<forall>l \<in> set [3, 2, 1, 0 :: nat]. l < NLAYER"
    by (simp_all add: NLAYER_def)
  have all: "(\<forall>l < NLAYER. Q l) \<longleftrightarrow> Q 3 \<and> Q 2 \<and> Q 1 \<and> Q 0" for Q
    by (auto simp: NLAYER_def numeral_eq_Suc less_Suc_eq)
  have split: "l < NLAYER \<and> (\<forall>m. l < m \<and> m < NLAYER \<longrightarrow> m \<in> set as)"
    if "[3, 2, 1, 0] = as @ l # bs" for as bs and l :: nat
    using that by (auto simp: Cons_eq_append_conv NLAYER_def numeral_eq_Suc less_Suc_eq)
  from scan_levels_run [OF ok ls(2)] show ?thesis
  proof (elim disjE exE conjE)
    assume "scan_levels (map int [3, 2, 1, 0]) s = Inr (None, s)" "\<forall>l \<in> set [3, 2, 1, 0]. none_in s l"
    then show ?thesis unfolding ls(1) by (simp add: all)
  next
    fix as l bs k p
    assume h: "[3, 2, 1, 0] = as @ l # bs" "scan_levels (map int [3, 2, 1, 0]) s = Inr (Some (int l, int k, p), s)"
      "first_in s l k p" "\<forall>m \<in> set as. none_in s m"
    then show ?thesis using split [OF h(1)] unfolding ls(1) by blast
  qed
qed

subsection \<open>Conservation of entries\<close>

definition entries :: "'z proc_st_scheme \<Rightarrow> nat multiset" where
  "entries s = (\<Sum>l < NLAYER. mset (queue s l))"

lemma sum_change_one:
  fixes f g :: "nat \<Rightarrow> nat multiset"
  assumes "l < n" "\<forall>k. k \<noteq> l \<longrightarrow> f k = g k"
  shows "(\<Sum>k < n. f k) + g l = (\<Sum>k < n. g k) + f l"
proof -
  have "(\<Sum>k < n. h k) = h l + (\<Sum>k \<in> {..<n} - {l}. h k)" for h :: "nat \<Rightarrow> nat multiset"
    using assms(1) by (intro sum.remove) auto
  moreover have "(\<Sum>k \<in> {..<n} - {l}. f k) = (\<Sum>k \<in> {..<n} - {l}. g k)"
    using assms(2) by (intro sum.cong) auto
  ultimately show ?thesis by (simp add: ac_simps)
qed

lemma entries_rm:
  assumes "l < NLAYER" "i < length (queue s l)" "queue t l = take i (queue s l) @ drop (Suc i) (queue s l)"
    "\<forall>k. k \<noteq> l \<longrightarrow> queue t k = queue s k"
  shows "entries s = add_mset (queue s l ! i) (entries t)"
proof -
  have "mset (queue s l) = add_mset (queue s l ! i) (mset (queue t l))"
    unfolding assms(3) using assms(2) by (simp add: mset_take_drop_Suc)
  then show ?thesis
    using sum_change_one [of l NLAYER "\<lambda>k. mset (queue t k)" "\<lambda>k. mset (queue s k)"] assms(1,4)
    by (simp add: entries_def)
qed

lemma entries_append:
  assumes "l < NLAYER" "queue t l = queue s l @ [p]" "\<forall>k. k \<noteq> l \<longrightarrow> queue t k = queue s k"
  shows "entries t = add_mset p (entries s)"
  using sum_change_one [of l NLAYER "\<lambda>k. mset (queue t k)" "\<lambda>k. mset (queue s k)"] assms
  by (simp add: entries_def)

lemma queue_frame [simp]:
  "queue (s\<lparr>ptable := x\<rparr>) = queue s" "queue (s\<lparr>cur := c\<rparr>) = queue s" "queue (s\<lparr>cr3 := a\<rparr>) = queue s"
  "mlfq_ok (s\<lparr>ptable := x\<rparr>) = mlfq_ok s" "mlfq_ok (s\<lparr>cur := c\<rparr>) = mlfq_ok s" "mlfq_ok (s\<lparr>cr3 := a\<rparr>) = mlfq_ok s"
  "entries (s\<lparr>ptable := x\<rparr>) = entries s" "entries (s\<lparr>cur := c\<rparr>) = entries s" "entries (s\<lparr>cr3 := a\<rparr>) = entries s"
  by (simp_all add: queue_def mlfq_ok_def entries_def fun_eq_iff)

definition mlfq_fault :: "fault \<Rightarrow> bool" where
  "mlfq_fault f \<longleftrightarrow> f \<in> {Undef ''mlfq'', Undef ''mlfq_size'', Undef ''limit_total''}"

text \<open>
  An operation conserves the queues when, from well-formed rows, it returns with
  well-formed rows that hold the same entries, or runs over the bounds of an array.
\<close>

definition conserves :: "('z proc_st_scheme, 'a) kop \<Rightarrow> 'z proc_st_scheme \<Rightarrow> bool" where
  "conserves m s \<longleftrightarrow>
     (case m s of Inl f \<Rightarrow> mlfq_fault f | Inr (x, t) \<Rightarrow> mlfq_ok t \<and> entries t = entries s)"

lemma conserves_kbind:
  assumes "conserves m s" "\<And>x t. m s = Inr (x, t) \<Longrightarrow> mlfq_ok t \<Longrightarrow> conserves (f x) t"
  shows "conserves (kbind m f) s"
  using assms by (auto simp: conserves_def kbind_def split: sum.splits prod.splits)

lemma conserves_kret: "mlfq_ok s \<Longrightarrow> conserves (kret x) s"
  by (simp add: conserves_def)

lemma conserves_kget: "mlfq_ok s \<Longrightarrow> conserves (kget f) s"
  by (simp add: conserves_def)

lemma conserves_upd_proc: "mlfq_ok s \<Longrightarrow> conserves (upd_proc p f) s"
  by (simp add: conserves_def)

text \<open>Taking the entry at \<open>i\<close> out of one row and appending it to another.\<close>

lemma move_run:
  assumes ok: "mlfq_ok s" and l: "l < NLAYER" "m < NLAYER" and i: "i < length (queue s l)"
  shows "if length (queue s m) < MLFQ_LEN \<or> m = l
     then \<exists>t. kbind (rm_priority (int l) (int i)) (\<lambda>_. mlfq_append (int m) (queue s l ! i)) s = Inr ((), t)
        \<and> requeued s t \<and> mlfq_ok t \<and> entries t = entries s
        \<and> queue t m = (if m = l then take i (queue s l) @ drop (Suc i) (queue s l) else queue s m) @ [queue s l ! i]
        \<and> (m \<noteq> l \<longrightarrow> queue t l = take i (queue s l) @ drop (Suc i) (queue s l))
        \<and> (\<forall>k. k \<noteq> l \<longrightarrow> k \<noteq> m \<longrightarrow> queue t k = queue s k)
     else kbind (rm_priority (int l) (int i)) (\<lambda>_. mlfq_append (int m) (queue s l ! i)) s = Inl (Undef ''mlfq'')"
proof -
  obtain t where t: "rm_priority (int l) (int i) s = Inr ((), t)" "requeued s t" "mlfq_ok t"
    "queue t l = take i (queue s l) @ drop (Suc i) (queue s l)" "\<forall>k. k \<noteq> l \<longrightarrow> queue t k = queue s k"
    using rm_priority_run [OF ok l(1) i] by blast
  note et = entries_rm [OF l(1) i t(4,5)]
  have p: "queue s l ! i < NPROC"
    using queue_nth(2) [OF ok l(1) i] .
  have len: "length (queue t l) < length (queue s l)"
    unfolding t(4) using i by simp
  have full: "length (queue s l) \<le> MLFQ_LEN"
    using length_queue [OF ok l(1)] mlfq_okD(3) [OF ok l(1)] by simp
  note A = mlfq_append_run [OF t(3) l(2) p]
  show ?thesis
  proof (cases "length (queue s m) < MLFQ_LEN \<or> m = l")
    case True
    then have "length (queue t m) < MLFQ_LEN"
      using t(5) len full by (cases "m = l") auto
    then obtain u where u: "mlfq_append (int m) (queue s l ! i) t = Inr ((), u)" "requeued t u" "mlfq_ok u"
      "queue u m = queue t m @ [queue s l ! i]" "\<forall>k. k \<noteq> m \<longrightarrow> queue u k = queue t k"
      using A by (auto split: if_splits)
    have "entries u = entries s"
      using entries_append [OF l(2) u(4,5)] et by simp
    moreover have "kbind (rm_priority (int l) (int i)) (\<lambda>_. mlfq_append (int m) (queue s l ! i)) s = Inr ((), u)"
      using t(1) u(1) by simp
    ultimately show ?thesis
      using True u(3) u(4,5) t(4,5) requeued_trans [OF t(2) u(2)] by (cases "m = l") auto
  next
    case False
    then show ?thesis using A t(1,5) by auto
  qed
qed

lemma conserves_move:
  assumes ok: "mlfq_ok s" and l: "l < NLAYER" and i: "i < length (queue s l)" and p: "p = queue s l ! i"
    and m: "m = int k" "k \<le> NLAYER"
  shows "conserves (kbind (rm_priority (int l) (int i)) (\<lambda>_. mlfq_append m p)) s"
proof (cases "k < NLAYER")
  case True
  then show ?thesis
    using move_run [OF ok l True i] m p by (auto simp: conserves_def mlfq_fault_def split: if_splits)
next
  case False
  then have "mlfq_append m p t = Inl (Undef ''mlfq_size'')" for t :: "'a proc_st_scheme"
    using m by (simp add: mlfq_append_def get_size_def)
  then show ?thesis
    using rm_priority_run [OF ok l i] by (auto simp: conserves_def mlfq_fault_def)
qed

lemma conserves_move_upd:
  assumes "mlfq_ok s" "l < NLAYER" "i < length (queue s l)" "p = queue s l ! i" "m = int k" "k \<le> NLAYER"
  shows "conserves (kbind (rm_priority (int l) (int i)) (\<lambda>_. kbind (mlfq_append m p) (\<lambda>_. upd_proc q f))) s"
  unfolding kbind_assoc [symmetric]
  by (rule conserves_kbind [OF conserves_move [OF assms]]) (rule conserves_upd_proc)

lemma conserves_promote_level:
  assumes "mlfq_ok s" "l < NLAYER"
  shows "conserves (promote_level (int l) (int i) n) s"
  using assms(1)
proof (induction n arbitrary: i s)
  case 0
  then show ?case by (simp add: conserves_def)
next
  case (Suc n)
  have sz: "get_size (int l) s = Inr (int (length (queue s l)), s)"
    using get_size_run [OF Suc.prems assms(2)] .
  have eq: "int i + 1 = int (Suc i)" by simp
  show ?case
  proof (cases "i < length (queue s l)")
    case False
    then show ?thesis using sz Suc.prems by (simp add: conserves_def)
  next
    case True
    let ?p = "queue s l ! i"
    let ?q = "procs s ?p"
    note pr = mlfq_proc_run [OF Suc.prems assms(2) True]
    have lv: "int l + 1 = int (Suc l)" by simp
    let ?body = "if wait_ticks_curr ?q \<ge> 10 * limit_total ! nat (level ?q) then
           kbind (rm_priority (int l) (int i)) (\<lambda>_.
           kbind (mlfq_append (int l + 1) ?p) (\<lambda>_.
           upd_proc ?p (\<lambda>q. q\<lparr>ticks_curr := 0, wait_ticks_curr := 0,
                            wait_ticks := (wait_ticks q)[nat (int l) := 0], level := level q + 1\<rparr>)))
         else kret ()"
    have "conserves ?body s"
      using conserves_move_upd [OF Suc.prems assms(2) True refl lv] assms(2) conserves_kret [OF Suc.prems, of "()"]
      by simp
    then have body: "conserves (kbind ?body (\<lambda>_. promote_level (int l) (int (Suc i)) n)) s"
      by (rule conserves_kbind) (rule Suc.IH)
    have "promote_level (int l) (int i) (Suc n) s =
        (if \<not> in_array NLAYER (level ?q) then Inl (Undef ''limit_total'')
         else kbind ?body (\<lambda>_. promote_level (int l) (int (Suc i)) n) s)"
      unfolding eq [symmetric] using sz pr True by simp
    then show ?thesis
      using body by (simp add: conserves_def mlfq_fault_def)
  qed
qed

lemma conserves_promote:
  assumes "mlfq_ok s"
  shows "conserves promote s"
proof -
  let ?f = "\<lambda>lvl. kbind (get_size lvl) (\<lambda>m. promote_level lvl 0 (nat m))"
  have lev: "conserves (?f (int l)) u" if "l < NLAYER" "mlfq_ok u" for l and u :: "'a proc_st_scheme"
  proof (rule conserves_kbind)
    show "conserves (get_size (int l)) u"
      using get_size_run [OF that(2,1)] that(2) by (simp add: conserves_def)
    show "conserves (promote_level (int l) 0 (nat x)) t" if "mlfq_ok t" for x t
      using conserves_promote_level [OF that \<open>l < NLAYER\<close>, of 0] by simp
  qed
  have "conserves (kfor (map int ls) ?f) u" if "\<forall>l \<in> set ls. l < NLAYER" "mlfq_ok u" for ls and u :: "'a proc_st_scheme"
    using that
  proof (induction ls arbitrary: u)
    case Nil
    then show ?case by (simp add: conserves_def)
  next
    case (Cons l ls)
    then show ?case
      using lev [of l u] by (simp add: conserves_kbind)
  qed
  from this [of "[3, 2, 1, 0]" s] show ?thesis
    using assms by (simp add: promote_def NLAYER_def)
qed

lemma conserves_requeue:
  assumes ok: "mlfq_ok s" and l: "l < NLAYER" and i: "i < length (queue s l)" and p: "p = queue s l ! i"
  shows "conserves (sched_requeue (int l) (int i) p) s"
proof -
  have mv: "conserves (kbind (rm_priority (int l) (int i)) (\<lambda>_. mlfq_append (int l) p)) s"
    using conserves_move [OF ok l i p refl] l by simp
  have "conserves (kbind (rm_priority (int l) (int i)) (\<lambda>_. kbind (mlfq_append (int l - 1) p) (\<lambda>_. upd_proc p f))) s"
    if "0 < int l" for f
  proof -
    have eq: "int l - 1 = int (l - 1)" using that by simp
    show ?thesis
      by (rule conserves_move_upd [OF ok l i p eq]) (use l in simp)
  qed
  then show ?thesis
    using mv ok by (auto simp: sched_requeue_def conserves_def)
qed

section \<open>Properties\<close>

lemma sched_pick_run:
  assumes "pgdir (procs s p) \<noteq> 0" "p < NPROC" "length (ptable s) = NPROC"
  shows "\<exists>u. sched_pick l p s = Inr ((), u) \<and> queue u = queue s \<and> mlfq_ok u = mlfq_ok s
     \<and> cur u = Some p \<and> cr3 u = pgdir (procs s p) \<and> state (procs u p) = RUNNING
     \<and> ticks_curr (procs u p) = ticks_curr (procs s p) + 1 \<and> wait_ticks_curr (procs u p) = 0
     \<and> (\<forall>q < NPROC. q \<noteq> p \<longrightarrow> procs u q = wait_tick (procs s q))"
proof -
  have eq: "pgdir (wait_tick q) = pgdir q" "ticks_curr (wait_tick q) = ticks_curr q" for q
    by (simp_all add: wait_tick_def)
  show ?thesis
    using assms by (simp add: sched_pick_def switchuvm_def procs_def eq)
qed


text \<open>Process 0 is \<open>RUNNABLE\<close> at the head of level 3, process 1 queued behind it sleeps.\<close>

definition mlfq_example :: proc_st where
  "mlfq_example = \<lparr>rand_seed = 1, mem = (\<lambda>_. 0), kend = 0x100000, freelist = 0, allocated = replicate NALLOC 0,
     num_alloc = 0, size_freelist = 0, kpgdir = 0x200000, cr3 = 0x200000, kdata = 0x101000,
     ptable = zero_proc\<lparr>state := RUNNABLE, pid := 1, pgdir := 0x201000, level := 3\<rparr>
       # zero_proc\<lparr>state := SLEEPING, pid := 2, pgdir := 0x202000, level := 3\<rparr> # replicate 62 zero_proc,
     cur = None, initproc = Some 0, nextpid = 3,
     mlfq = [replicate 512 None, replicate 512 None, replicate 512 None, Some 0 # Some 1 # replicate 510 None],
     mlfq_size = [0, 0, 0, 2], sem_list = [], num_sem = 0, ticks = 0\<rparr>"

lemma less_NLAYER: "l < NLAYER \<longleftrightarrow> l = 0 \<or> l = 1 \<or> l = 2 \<or> l = 3"
  by (auto simp: NLAYER_def)

lemma mlfq_example_queue:
  "queue mlfq_example 0 = []" "queue mlfq_example 1 = []" "queue mlfq_example 2 = []"
  "queue mlfq_example 3 = [0, 1]"
  by (simp_all add: queue_def mlfq_example_def numeral_2_eq_2 numeral_3_eq_3)

lemma mlfq_example_ok: "mlfq_ok mlfq_example" "length (ptable mlfq_example) = NPROC"
  by (auto simp: mlfq_ok_def row_ok_def mlfq_example_def MLFQ_LEN_def NPROC_def less_NLAYER numeral_2_eq_2 numeral_3_eq_3)
    (simp_all add: NLAYER_def)

lemma mlfq_example_procs:
  "state (procs mlfq_example 0) = RUNNABLE" "state (procs mlfq_example 1) = SLEEPING"
  "p < NPROC \<Longrightarrow> state (procs mlfq_example p) = RUNNABLE \<Longrightarrow> pgdir (procs mlfq_example p) \<noteq> 0"
  by (auto simp: procs_def mlfq_example_def NPROC_def zero_proc_def nth_Cons' split: if_splits)


text \<open>
  C25. What happens to a process when its turn ends. If it is above level 0 and has used
  its allotment of its level it moves to the end of the next lower level, with its
  counters of this level cleared. Otherwise, when its ticks are a multiple of the
  level's time slice, it moves to the end of its own level. Otherwise it keeps its
  place, and nothing changes.
\<close>

theorem sched_requeue_correct:
  assumes ok: "mlfq_ok s" "length (ptable s) = NPROC" and l: "l < NLAYER" and k: "k < length (queue s l)"
    and p: "p = queue s l ! k" and room: "0 < l \<longrightarrow> length (queue s (l - 1)) < MLFQ_LEN"
  shows "\<exists>t. sched_requeue (int l) (int k) p s = Inr ((), t) \<and> mlfq_ok t \<and> entries t = entries s
    \<and> (if 0 < l \<and> limit_total ! l \<le> ticks_curr (procs s p)
       then queue t l = take k (queue s l) @ drop (Suc k) (queue s l)
          \<and> queue t (l - 1) = queue s (l - 1) @ [p]
          \<and> (\<forall>m. m \<noteq> l \<longrightarrow> m \<noteq> l - 1 \<longrightarrow> queue t m = queue s m)
          \<and> procs t p = (procs s p)\<lparr>ticks_curr := 0, wait_ticks_curr := 0,
                wait_ticks := (wait_ticks (procs s p))[l := 0], level := int l - 1\<rparr>
          \<and> (\<forall>q. q \<noteq> p \<longrightarrow> procs t q = procs s q)
       else if ticks_curr (procs s p) mod limit_rr ! l = 0
       then queue t l = take k (queue s l) @ drop (Suc k) (queue s l) @ [p]
          \<and> (\<forall>m. m \<noteq> l \<longrightarrow> queue t m = queue s m) \<and> procs t = procs s
       else t = s)"
proof -
  have pN: "p < NPROC"
    using queue_nth(2) [OF ok(1) l k] p by simp
  consider (down) "0 < l \<and> limit_total ! l \<le> ticks_curr (procs s p)"
    | (rr) "\<not> (0 < l \<and> limit_total ! l \<le> ticks_curr (procs s p))" "ticks_curr (procs s p) mod limit_rr ! l = 0"
    | (stay) "\<not> (0 < l \<and> limit_total ! l \<le> ticks_curr (procs s p))" "ticks_curr (procs s p) mod limit_rr ! l \<noteq> 0"
    by blast
  then show ?thesis
  proof cases
    case down
    let ?f = "\<lambda>q. q\<lparr>ticks_curr := 0, wait_ticks_curr := 0, wait_ticks := (wait_ticks q)[l := 0], level := int l - 1\<rparr>"
    have m: "l - 1 < NLAYER" "l - 1 \<noteq> l" "int (l - 1) = int l - 1"
      using l down by auto
    obtain t where t: "kbind (rm_priority (int l) (int k)) (\<lambda>_. mlfq_append (int (l - 1)) p) s = Inr ((), t)"
      "requeued s t" "mlfq_ok t" "entries t = entries s" "queue t (l - 1) = queue s (l - 1) @ [p]"
      "queue t l = take k (queue s l) @ drop (Suc k) (queue s l)"
      "\<forall>m. m \<noteq> l \<longrightarrow> m \<noteq> l - 1 \<longrightarrow> queue t m = queue s m"
      using move_run [OF ok(1) l m(1) k] room down m(2) p by (auto split: if_splits)
    let ?t = "t\<lparr>ptable := (ptable t)[p := ?f (ptable t ! p)]\<rparr>"
    have "sched_requeue (int l) (int k) p s
        = kbind (kbind (rm_priority (int l) (int k)) (\<lambda>_. mlfq_append (int (l - 1)) p)) (\<lambda>_. upd_proc p ?f) s"
      unfolding kbind_assoc m(3) using down by (simp add: sched_requeue_def)
    then have "sched_requeue (int l) (int k) p s = Inr ((), ?t)"
      using t(1) by simp
    then show ?thesis
      using down t(3-7) requeued_sel(1) [OF t(2)] pN ok(2)
      by (intro exI [of _ ?t]) (simp add: procs_def)
  next
    case rr
    obtain t where t: "kbind (rm_priority (int l) (int k)) (\<lambda>_. mlfq_append (int l) p) s = Inr ((), t)"
      "requeued s t" "mlfq_ok t" "entries t = entries s"
      "queue t l = (take k (queue s l) @ drop (Suc k) (queue s l)) @ [p]"
      "\<forall>m. m \<noteq> l \<longrightarrow> queue t m = queue s m"
      using move_run [OF ok(1) l l k] p by auto
    have "sched_requeue (int l) (int k) p s = Inr ((), t)"
      using rr t(1) by (auto simp: sched_requeue_def)
    then show ?thesis
      using rr t(3-6) requeued_sel(11) [OF t(2)] by (intro exI [of _ t]) simp
  next
    case stay
    have "sched_requeue (int l) (int k) p s = Inr ((), s)"
      using stay by (auto simp: sched_requeue_def)
    then show ?thesis
      using stay ok(1) by (intro exI [of _ s]) simp
  qed
qed

theorem sched_requeue_correct_witness:
  "\<exists>t. sched_requeue 3 0 0 mlfq_example = Inr ((), t) \<and> queue t 3 = [1, 0]"
proof -
  have "queue mlfq_example 3 ! 0 = 0" "length (queue mlfq_example 2) < MLFQ_LEN" "ticks_curr (procs mlfq_example 0) = 0"
    by (simp_all add: mlfq_example_queue MLFQ_LEN_def) (simp add: procs_def mlfq_example_def zero_proc_def)
  then show ?thesis
    using sched_requeue_correct [OF mlfq_example_ok, of 3 0 0]
    by (auto simp: NLAYER_def mlfq_example_queue limit_total_def split: if_splits)
qed

lemma boostproc_head:
  assumes ok: "mlfq_ok s" "length (ptable s) = NPROC" and cur: "cur s = Some p"
    and l: "level (procs s p) = int l" "l < 3" and q: "queue s l = p # qs"
    and room: "length (queue s (Suc l)) < MLFQ_LEN"
  shows "\<exists>t. boostproc s = Inr (0, t) \<and> mlfq_ok t \<and> entries t = entries s
     \<and> queue t l = qs \<and> queue t (Suc l) = queue s (Suc l) @ [p]
     \<and> (\<forall>m. m \<noteq> l \<longrightarrow> m \<noteq> Suc l \<longrightarrow> queue t m = queue s m)
     \<and> level (procs t p) = int l + 1 \<and> ticks_curr (procs t p) = 0 \<and> length (ptable t) = NPROC"
proof -
  let ?f = "\<lambda>q. q\<lparr>ticks_curr := 0, wait_ticks_curr := 0, wait_ticks := (wait_ticks q)[l := 0], level := level q + 1\<rparr>"
  have lN: "l < NLAYER" "Suc l < NLAYER" "Suc l \<noteq> l" "int (Suc l) = int l + 1"
    using l(2) by (simp_all add: NLAYER_def)
  have k: "0 < length (queue s l)" "queue s l ! 0 = p"
    using q by simp_all
  have p: "p < NPROC"
    using queue_nth(2) [OF ok(1) lN(1) k(1)] k(2) by simp
  have find: "boost_find (int l) (pid (procs s p)) 0 (length (queue s l)) s = Inr (0, s)"
    using mlfq_proc_run [OF ok(1) lN(1) k(1)] by (simp add: q)
  obtain t where t: "kbind (rm_priority (int l) 0) (\<lambda>_. mlfq_append (int (Suc l)) p) s = Inr ((), t)"
    "requeued s t" "mlfq_ok t" "entries t = entries s" "queue t (Suc l) = queue s (Suc l) @ [p]" "queue t l = qs"
    "\<forall>m. m \<noteq> l \<longrightarrow> m \<noteq> Suc l \<longrightarrow> queue t m = queue s m"
    using move_run [OF ok(1) lN(1,2) k(1)] room lN(3) k(2) q by auto
  let ?t = "t\<lparr>ptable := (ptable t)[p := ?f (ptable t ! p)]\<rparr>"
  have "boostproc s = kbind (kbind (rm_priority (int l) 0) (\<lambda>_. mlfq_append (int (Suc l)) p))
      (\<lambda>_. kbind (upd_proc p ?f) (\<lambda>_. kret 0)) s"
    unfolding kbind_assoc lN(4) boostproc_def
    using cur l find get_size_run [OF ok(1) lN(1)] by simp
  then have "boostproc s = Inr (0, ?t)"
    using t(1) by simp
  then show ?thesis
    using t(3-7) requeued_sel(1) [OF t(2)] p ok(2) l(1) by (intro exI [of _ ?t]) (simp add: procs_def)
qed


definition boost_example :: proc_st where
  "boost_example = mlfq_example\<lparr>cur := Some 0,
     ptable := zero_proc\<lparr>state := RUNNING, pid := 1, level := 2, ticks_curr := 1\<rparr> # replicate 63 zero_proc,
     mlfq := [replicate 512 None, replicate 512 None, Some 0 # Some 1 # replicate 510 None, replicate 512 None],
     mlfq_size := [0, 0, 2, 0]\<rparr>"


text \<open>The table after one level has been written over it.\<close>

definition overlay :: "'z proc_st_scheme \<Rightarrow> nat \<Rightarrow> pstat_slot list \<Rightarrow> pstat_slot list" where
  "overlay s l st = map (\<lambda>i. if i < length (queue s l) then pstat_of (procs s (queue s l ! i)) else st ! i)
     [0..<length st]"

lemma length_overlay [simp]: "length (overlay s l st) = length st"
  by (simp add: overlay_def)

lemma info_level_run:
  assumes ok: "mlfq_ok s" and l: "l < NLAYER" and n: "i + n = length (queue s l)" "length (queue s l) \<le> NPROC"
    and st: "length st = NPROC"
  shows "\<exists>st'. info_level (int l) (int i) n st s = Inr (st', s) \<and> length st' = NPROC
     \<and> (\<forall>j < NPROC. st' ! j = (if i \<le> j \<and> j < length (queue s l)
            then pstat_of (procs s (queue s l ! j)) else st ! j))"
  using n(1) st
proof (induction n arbitrary: i st)
  case 0
  then show ?case by auto
next
  case (Suc n)
  have i: "i < length (queue s l)" "i < NPROC"
    using Suc.prems(1) n(2) by simp_all
  have eq: "int i + 1 = int (Suc i)" by simp
  let ?st = "st[i := pstat_of (procs s (queue s l ! i))]"
  have "info_level (int l) (int i) (Suc n) st s = info_level (int l) (int (Suc i)) n ?st s"
    unfolding eq [symmetric] using mlfq_proc_run [OF ok l i(1)] i(2) by simp
  moreover obtain st' where "info_level (int l) (int (Suc i)) n ?st s = Inr (st', s)" "length st' = NPROC"
    "\<forall>j < NPROC. st' ! j = (if Suc i \<le> j \<and> j < length (queue s l)
            then pstat_of (procs s (queue s l ! j)) else ?st ! j)"
    using Suc.IH [of "Suc i" ?st] Suc.prems by auto
  ultimately show ?case
    using i Suc.prems(2) by (intro exI [of _ st']) (auto simp: nth_list_update)
qed

lemma info_levels_run:
  assumes ok: "mlfq_ok s" and l: "\<forall>l \<in> set ls. l < NLAYER \<and> length (queue s l) \<le> NPROC"
    and st: "length st = NPROC"
  shows "info_levels (map int ls) st s = Inr (fold (overlay s) ls st, s)"
  using l st
proof (induction ls arbitrary: st)
  case Nil
  then show ?case by simp
next
  case (Cons l ls)
  have l: "l < NLAYER" "length (queue s l) \<le> NPROC"
    using Cons.prems(1) by auto
  obtain st' where st': "info_level (int l) 0 (length (queue s l)) st s = Inr (st', s)" "length st' = NPROC"
    "\<forall>j < NPROC. st' ! j = (if j < length (queue s l) then pstat_of (procs s (queue s l ! j)) else st ! j)"
    using info_level_run [OF ok l(1) _ l(2) Cons.prems(2), of 0 "length (queue s l)"] by auto
  have "st' = overlay s l st"
    using st'(2,3) Cons.prems(2) by (intro nth_equalityI) (simp_all add: overlay_def)
  then show ?case
    using get_size_run [OF ok l(1)] st'(1,2) Cons by simp
qed

text \<open>
  C32. \<open>getprocinfo\<close> refuses a null table. Otherwise, as long as no row is longer than
  the table, it returns 0 and slot \<open>i\<close> describes entry \<open>i\<close> of the lowest level whose row
  has one: the index restarts at 0 in every level, so each level overwrites the
  slots the higher levels have filled.
\<close>

theorem getprocinfo_lowest_level:
  assumes ok: "mlfq_ok s" and len: "\<forall>l < NLAYER. length (queue s l) \<le> NPROC" and st: "length st = NPROC"
  shows "getprocinfo None s = Inr ((-1, []), s)
    \<and> (\<exists>st'. getprocinfo (Some st) s = Inr ((0, st'), s) \<and> length st' = NPROC
        \<and> (\<forall>i < NPROC. \<forall>l < NLAYER. i < length (queue s l) \<and> (\<forall>m < l. \<not> i < length (queue s m)) \<longrightarrow>
              st' ! i = pstat_of (procs s (queue s l ! i)))
        \<and> (\<forall>i < NPROC. (\<forall>l < NLAYER. \<not> i < length (queue s l)) \<longrightarrow> st' ! i = st ! i))"
proof -
  have ls: "map int [3, 2, 1, 0] = [3, 2, 1, 0]"
    by simp
  have "info_levels [3, 2, 1, 0] st s = Inr (overlay s 0 (overlay s 1 (overlay s 2 (overlay s 3 st))), s)"
    using info_levels_run [OF ok _ st, of "[3, 2, 1, 0]", unfolded ls] len by (simp add: NLAYER_def)
  then have run: "getprocinfo (Some st) s = Inr ((0, overlay s 0 (overlay s 1 (overlay s 2 (overlay s 3 st)))), s)"
    by (simp add: getprocinfo_def del: info_levels.simps)
  have nth: "overlay s l x ! i = (if i < length (queue s l) then pstat_of (procs s (queue s l ! i)) else x ! i)"
    if "i < length x" for l x i
    using that by (simp add: overlay_def)
  show ?thesis
    using run st nth by (auto simp: less_NLAYER getprocinfo_def [of None])
qed

theorem getprocinfo_lowest_level_witness:
  "getprocinfo None mlfq_example = Inr ((-1, []), mlfq_example)
    \<and> (\<exists>st'. getprocinfo (Some (replicate NPROC (pstat_of zero_proc))) mlfq_example = Inr ((0, st'), mlfq_example)
        \<and> ps_pid (st' ! 1) = 2)"
proof -
  have "\<forall>l < NLAYER. length (queue mlfq_example l) \<le> NPROC"
    by (auto simp: less_NLAYER mlfq_example_queue mlfq_example_queue(2) [unfolded One_nat_def] NPROC_def)
  note th = getprocinfo_lowest_level [OF mlfq_example_ok(1) this, of "replicate NPROC (pstat_of zero_proc)"]
  then obtain st' where st': "getprocinfo (Some (replicate NPROC (pstat_of zero_proc))) mlfq_example = Inr ((0, st'), mlfq_example)"
    "\<forall>i < NPROC. \<forall>l < NLAYER. i < length (queue mlfq_example l) \<and> (\<forall>m < l. \<not> i < length (queue mlfq_example m)) \<longrightarrow>
              st' ! i = pstat_of (procs mlfq_example (queue mlfq_example l ! i))"
    by auto
  have "\<not> 1 < length (queue mlfq_example m)" if "m < 3" for m
    using that by (auto simp: less_Suc_eq numeral_3_eq_3 mlfq_example_queue mlfq_example_queue(2) [unfolded One_nat_def]
        mlfq_example_queue(3) [unfolded numeral_2_eq_2])
  then have "st' ! 1 = pstat_of (procs mlfq_example 1)"
    using st'(2) [rule_format, of 1 3] by (simp add: NPROC_def NLAYER_def mlfq_example_queue)
  then have "ps_pid (st' ! 1) = 2"
    by (simp add: pstat_of_def procs_def mlfq_example_def)
  then show ?thesis
    using st'(1) th by auto
qed

end
