(* ===== verification/Proc.thy ===== *)
theory Proc
  imports Mlfq
begin

text \<open>
  Processes and their synchronisation, \<open>kernel/proc.c\<close>: allocation of a slot, memory
  growth, sleep and wakeup, kill, wait and join, and \<open>getfilenum\<close>. An operation that
  may sleep returns \<open>Blocked\<close> with the process marked as sleeping; when the process
  is woken the source continues at the head of the loop it slept in, which is the
  operation again. Each operation is one critical section of \<open>ptable.lock\<close>.
\<close>

section \<open>Model\<close>

datatype 'a outcome = Ret 'a | Blocked

definition free_slot :: "'z proc_st_scheme \<Rightarrow> nat option" where
  "free_slot s = List.find (\<lambda>i. state (procs s i) = UNUSED) [0..<NPROC]"

definition allocproc :: "('z proc_st_scheme, nat option) kop" where
  "allocproc =
     kbind (kget free_slot) (\<lambda>slot.
     case slot of
       None \<Rightarrow> kret None
     | Some p \<Rightarrow>
         kbind (kget nextpid) (\<lambda>n.
         kbind (upd_proc p (\<lambda>q. q\<lparr>state := EMBRYO, pid := n\<rparr>)) (\<lambda>_.
         kbind (kmod (\<lambda>s. s\<lparr>nextpid := n + 1\<rparr>)) (\<lambda>_.
         kbind kalloc (\<lambda>k.
         kbind (upd_proc p (\<lambda>q. q\<lparr>kstack := k\<rparr>)) (\<lambda>_.
         if k = 0 then kbind (upd_proc p (\<lambda>q. q\<lparr>state := UNUSED\<rparr>)) (\<lambda>_. kret None)
         else
         kbind (upd_proc p (\<lambda>q. q\<lparr>level := 3, ticks_curr := 0, wait_ticks_curr := 0,
                                 pticks := replicate NLAYER 0, wait_ticks := replicate NLAYER 0\<rparr>)) (\<lambda>_.
         kbind (mlfq_append 3 p) (\<lambda>_.
         kret (Some p)))))))))"

definition growproc :: "int \<Rightarrow> ('z proc_st_scheme, int) kop" where
  "growproc n =
     kbind curproc (\<lambda>me.
     kbind (kget (\<lambda>s. procs s me)) (\<lambda>p.
     kbind (if n > 0 then allocuvm (pgdir p) (psz p) (psz p + of_int n)
            else if n < 0 then deallocuvm (pgdir p) (psz p) (psz p + of_int n)
            else kret (psz p)) (\<lambda>sz.
     if n \<noteq> 0 \<and> sz = 0 then kret (-1)
     else
     kbind (upd_proc me (\<lambda>q. q\<lparr>psz := sz\<rparr>)) (\<lambda>_.
     kbind (switchuvm me) (\<lambda>_.
     kret 0)))))"

text \<open>\<open>sched\<close>: the tests on the lock and the interrupt flag concern the processor state
  of theory \<open>Spinlock\<close>; the one on the process is here.\<close>

definition sched :: "('z proc_st_scheme, unit) kop" where
  "sched =
     kbind curproc (\<lambda>me.
     kbind (kget (\<lambda>s. state (procs s me))) (\<lambda>st.
     if st = RUNNING then kfail (Panic ''sched running'') else kret ()))"

definition yield :: "('z proc_st_scheme, unit) kop" where
  "yield =
     kbind curproc (\<lambda>me.
     kbind (upd_proc me (\<lambda>q. q\<lparr>state := RUNNABLE\<rparr>)) (\<lambda>_. sched))"

text \<open>\<open>sleep\<close> up to the switch to the scheduler, and what follows when the process
  runs again.\<close>

definition sleep :: "chan \<Rightarrow> ('z proc_st_scheme, unit) kop" where
  "sleep ch =
     kbind (kget cur) (\<lambda>c.
     case c of
       None \<Rightarrow> kfail (Panic ''sleep'')
     | Some me \<Rightarrow>
         kbind (upd_proc me (\<lambda>q. q\<lparr>pchan := ch, state := SLEEPING\<rparr>)) (\<lambda>_. sched))"

definition sleep_tidy :: "('z proc_st_scheme, unit) kop" where
  "sleep_tidy = kbind curproc (\<lambda>me. upd_proc me (\<lambda>q. q\<lparr>pchan := NoChan\<rparr>))"

definition wake :: "chan \<Rightarrow> proc \<Rightarrow> proc" where
  "wake ch p = (if state p = SLEEPING \<and> pchan p = ch then p\<lparr>state := RUNNABLE\<rparr> else p)"

definition wakeup1 :: "chan \<Rightarrow> ('z proc_st_scheme, unit) kop" where
  "wakeup1 ch = kmod (\<lambda>s. s\<lparr>ptable := map (wake ch) (ptable s)\<rparr>)"

definition wakeup :: "chan \<Rightarrow> ('z proc_st_scheme, unit) kop" where
  "wakeup ch = wakeup1 ch"

definition kill :: "int \<Rightarrow> ('z proc_st_scheme, int) kop" where
  "kill n =
     kbind (kget (\<lambda>s. List.find (\<lambda>i. pid (procs s i) = n) [0..<NPROC])) (\<lambda>r.
     case r of
       None \<Rightarrow> kret (-1)
     | Some p \<Rightarrow>
         kbind (upd_proc p (\<lambda>q. q\<lparr>killed := True,
                                 state := (if state q = SLEEPING then RUNNABLE else state q)\<rparr>)) (\<lambda>_.
         kret 0))"

text \<open>Freeing the slot of a zombie, in \<open>wait\<close>.\<close>

definition wait_reap :: "nat \<Rightarrow> ('z proc_st_scheme, int outcome) kop" where
  "wait_reap p =
     kbind (kget (\<lambda>s. procs s p)) (\<lambda>q.
     kbind (kfree (kstack q)) (\<lambda>_.
     kbind (upd_proc p (\<lambda>q. q\<lparr>kstack := 0\<rparr>)) (\<lambda>_.
     kbind (freevm (pgdir q)) (\<lambda>_.
     kbind (upd_proc p (\<lambda>q. q\<lparr>state := UNUSED, pid := 0, parent := None,
                             pname := (pname q)(0 := 0), killed := False\<rparr>)) (\<lambda>_.
     kret (Ret (pid q)))))))"

text \<open>One scan of \<open>wait\<close> over the slots \<open>ps\<close> left; \<open>hk\<close> is the variable \<open>havekids\<close>.\<close>

primrec wait_loop :: "nat list \<Rightarrow> nat \<Rightarrow> bool \<Rightarrow> ('z proc_st_scheme, int outcome) kop" where
  "wait_loop [] me hk =
     kbind (kget (\<lambda>s. killed (procs s me))) (\<lambda>k.
     if \<not> hk \<or> k then kret (Ret (-1)) else kbind (sleep (ChProc me)) (\<lambda>_. kret Blocked))"
| "wait_loop (p # ps) me hk =
     kbind (kget (\<lambda>s. procs s p)) (\<lambda>q.
     if parent q \<noteq> Some me then wait_loop ps me hk
     else if state q = ZOMBIE then wait_reap p
     else wait_loop ps me True)"

definition wait :: "('z proc_st_scheme, int outcome) kop" where
  "wait = kbind curproc (\<lambda>me. wait_loop [0..<NPROC] me False)"

text \<open>\<open>join\<close>: the second component is the value stored through \<open>stack\<close>.\<close>

primrec join_loop :: "nat list \<Rightarrow> nat \<Rightarrow> bool \<Rightarrow> ('z proc_st_scheme, (int \<times> addr) outcome) kop" where
  "join_loop [] me hk =
     kbind (kget (\<lambda>s. killed (procs s me))) (\<lambda>k.
     if \<not> hk \<or> k then kret (Ret (-1, 0)) else kbind (sleep (ChProc me)) (\<lambda>_. kret Blocked))"
| "join_loop (p # ps) me hk =
     kbind (kget (\<lambda>s. procs s p)) (\<lambda>q.
     kbind (kget (\<lambda>s. pgdir (procs s me))) (\<lambda>d.
     if parent q \<noteq> Some me \<or> pgdir q \<noteq> d then join_loop ps me hk
     else if state q = ZOMBIE then
       (if p = me then kfail (Panic ''proc'')
        else
        kbind (kfree (kstack q)) (\<lambda>_.
        kbind (upd_proc p (\<lambda>q. q\<lparr>kstack := 0, ustack := 0, pgdir := 0, state := UNUSED, pid := 0,
                                parent := None, pname := (pname q)(0 := 0), killed := False\<rparr>)) (\<lambda>_.
        kret (Ret (pid q, ustack q)))))
     else join_loop ps me True))"

definition join :: "('z proc_st_scheme, (int \<times> addr) outcome) kop" where
  "join = kbind curproc (\<lambda>me. join_loop [0..<NPROC] me False)"

definition getfilenum :: "int \<Rightarrow> ('z proc_st_scheme, int) kop" where
  "getfilenum n =
     (if n = 0 then kret (-1)
      else
      kbind (kget (\<lambda>s. List.find (\<lambda>i. pid (procs s i) = n) [0..<NPROC])) (\<lambda>r.
      case r of
        None \<Rightarrow> kret (-1)
      | Some p \<Rightarrow> kget (\<lambda>s. int (length (filter (\<lambda>f. f \<noteq> None) (ofile (procs s p)))))))"

text \<open>The part of \<open>exit\<close> under \<open>ptable.lock\<close>: wake the parent, pass the children to
  \<open>init\<close> (waking it for each zombie), become a zombie.\<close>

primrec reparent :: "nat list \<Rightarrow> nat \<Rightarrow> ('z proc_st_scheme, unit) kop" where
  "reparent [] me = kret ()"
| "reparent (p # ps) me =
     kbind (kget (\<lambda>s. procs s p)) (\<lambda>q.
     kbind (if parent q = Some me then
              kbind (kget initproc) (\<lambda>i.
              kbind (upd_proc p (\<lambda>q. q\<lparr>parent := i\<rparr>)) (\<lambda>_.
              kwhen (state q = ZOMBIE) (wakeup1 (case i of None \<Rightarrow> NoChan | Some j \<Rightarrow> ChProc j))))
            else kret ()) (\<lambda>_.
     reparent ps me))"

definition exit_zombie :: "nat \<Rightarrow> ('z proc_st_scheme, unit) kop" where
  "exit_zombie me =
     kbind (kget (\<lambda>s. parent (procs s me))) (\<lambda>pa.
     kbind (wakeup1 (case pa of None \<Rightarrow> NoChan | Some j \<Rightarrow> ChProc j)) (\<lambda>_.
     kbind (reparent [0..<NPROC] me) (\<lambda>_.
     kbind (upd_proc me (\<lambda>q. q\<lparr>state := ZOMBIE\<rparr>)) (\<lambda>_. sched))))"

section \<open>Process identifiers\<close>

definition pid_inv :: "'z proc_st_scheme \<Rightarrow> bool" where
  "pid_inv s \<longleftrightarrow> length (ptable s) = NPROC \<and> 0 < nextpid s
     \<and> (\<forall>i < NPROC. 0 \<le> pid (procs s i) \<and> pid (procs s i) < nextpid s)
     \<and> (\<forall>i < NPROC. \<forall>j < NPROC. i \<noteq> j \<longrightarrow> pid (procs s i) \<noteq> 0 \<longrightarrow> pid (procs s i) \<noteq> pid (procs s j))"

lemma more_proc_st:
  assumes "kmem_st.more t = kmem_st.more s"
  shows "ptable t = ptable s" "cur t = cur s" "initproc t = initproc s" "nextpid t = nextpid s"
    "mlfq t = mlfq s" "mlfq_size t = mlfq_size s" "sem_list t = sem_list s" "num_sem t = num_sem s"
    "ticks t = ticks s" "proc_st.more t = proc_st.more s" "procs t = procs s" "kpgdir t = kpgdir s" "cr3 t = cr3 s"
  using assms by (cases s; cases t; simp add: procs_def fun_eq_iff)+

lemma pid_inv_cong: "ptable t = ptable s \<Longrightarrow> nextpid t = nextpid s \<Longrightarrow> pid_inv t = pid_inv s"
  by (simp add: pid_inv_def procs_def)

lemma keeps_pid_more: "keeps_more m \<Longrightarrow> keeps pid_inv (m :: ('z proc_st_scheme, 'a) kop)"
  by (intro keepsI) (metis keeps_moreD more_proc_st(1,4) pid_inv_cong)

lemmas keeps_pid_mem [intro!, simp] =
  keeps_pid_more [OF keeps_more_kalloc] keeps_pid_more [OF keeps_more_kfree]
  keeps_pid_more [OF keeps_more_freevm] keeps_pid_more [OF keeps_more_allocuvm]
  keeps_pid_more [OF keeps_more_deallocuvm] keeps_pid_more [OF keeps_more_copyuvm]

lemma procs_upd:
  "procs (s\<lparr>ptable := (ptable s)[p := q]\<rparr>) i = (if i = p \<and> p < length (ptable s) then q else procs s i)"
  by (auto simp: procs_def nth_list_update list_update_beyond)

lemma pid_inv_upd:
  assumes "pid_inv s" "pid q = pid (procs s p) \<or> pid q = 0"
  shows "pid_inv (s\<lparr>ptable := (ptable s)[p := q]\<rparr>)"
proof (cases "p < NPROC")
  case True
  then show ?thesis
    using assms by (auto simp: pid_inv_def procs_upd) metis+
next
  case False
  then show ?thesis
    using assms(1) by (simp add: pid_inv_def list_update_beyond procs_def)
qed

lemma keeps_pid_upd [intro]: "(\<And>q. pid (f q) = pid q \<or> pid (f q) = 0) \<Longrightarrow> keeps pid_inv (upd_proc p f)"
  by (intro keepsI) (simp, metis pid_inv_upd procs_def)

lemma keeps_pid_map: "(\<And>q. pid (f q) = pid q) \<Longrightarrow> keeps pid_inv (kmod (\<lambda>s. s\<lparr>ptable := map f (ptable s)\<rparr>))"
  by (intro keeps_kmod) (auto simp: pid_inv_def procs_def)

lemma keeps_pid_wakeup1 [intro, simp]: "keeps pid_inv (wakeup1 ch)"
  unfolding wakeup1_def by (rule keeps_pid_map) (simp add: wake_def)

lemma keeps_pid_curproc [intro, simp]: "keeps pid_inv curproc"
  by (auto simp: keeps_def curproc_def split: option.splits)

lemma keeps_pid_mlfq [intro, simp]:
  "keeps pid_inv (get_size l)" "keeps pid_inv (set_size l n)" "keeps pid_inv (get_mlfq l i)"
  "keeps pid_inv (set_mlfq l i v)" "keeps pid_inv (mlfq_append l p)"
proof -
  show a: "keeps pid_inv (get_size l)" "keeps pid_inv (set_size l n)" "keeps pid_inv (get_mlfq l i)"
    "keeps pid_inv (set_mlfq l i v)" for l n i v
    by (auto simp: keeps_def get_size_def set_size_def get_mlfq_def set_mlfq_def pid_inv_def procs_def split: if_splits)
  show "keeps pid_inv (mlfq_append l p)"
    unfolding mlfq_append_def using a by blast
qed

lemma keeps_pid_sched [intro, simp]: "keeps pid_inv sched"
  unfolding sched_def by (intro keeps_kbind keeps_pid_curproc keeps_kget) simp

lemma keeps_pid_sleep [intro, simp]: "keeps pid_inv (sleep ch)"
  unfolding sleep_def
  by (intro keeps_kbind keeps_kget) (auto split: option.split intro!: keeps_kbind keeps_pid_upd)

lemma free_slot_Some: "free_slot s = Some p \<Longrightarrow> p < NPROC \<and> state (procs s p) = UNUSED"
  by (auto simp: free_slot_def find_Some_iff)

lemma free_slot_None: "free_slot s = None \<Longrightarrow> p < NPROC \<Longrightarrow> state (procs s p) \<noteq> UNUSED"
  by (auto simp: free_slot_def find_None_iff)

lemma keeps_pid_allocproc [intro, simp]: "keeps pid_inv allocproc"
proof (rule keepsI)
  fix s t :: "'a proc_st_scheme" and x
  assume inv: "pid_inv s" and run: "allocproc s = Inr (x, t)"
  show "pid_inv t"
  proof (cases "free_slot s")
    case None
    then show ?thesis using inv run by (simp add: allocproc_def)
  next
    case (Some p)
    let ?u = "s\<lparr>ptable := (ptable s)[p := (ptable s ! p)\<lparr>state := EMBRYO, pid := nextpid s\<rparr>], nextpid := nextpid s + 1\<rparr>"
    let ?rest = "kbind kalloc (\<lambda>k.
         kbind (upd_proc p (\<lambda>q. q\<lparr>kstack := k\<rparr>)) (\<lambda>_.
         if k = 0 then kbind (upd_proc p (\<lambda>q. q\<lparr>state := UNUSED\<rparr>)) (\<lambda>_. kret None)
         else
         kbind (upd_proc p (\<lambda>q. q\<lparr>level := 3, ticks_curr := 0, wait_ticks_curr := 0,
                                 pticks := replicate NLAYER 0, wait_ticks := replicate NLAYER 0\<rparr>)) (\<lambda>_.
         kbind (mlfq_append 3 p) (\<lambda>_. kret (Some p))))) :: ('a proc_st_scheme, nat option) kop"
    have p: "p < NPROC" using free_slot_Some [OF Some] by simp
    have nz: "0 < nextpid s" "\<forall>i < NPROC. 0 \<le> pid (ptable s ! i) \<and> pid (ptable s ! i) < nextpid s" "length (ptable s) = NPROC"
      using inv by (simp_all add: pid_inv_def procs_def)
    have "pid (ptable s ! i) < nextpid s + 1" "pid (ptable s ! i) \<noteq> nextpid s" if "i < NPROC" for i
      using nz(2) [rule_format, OF that] by simp_all
    then have u: "pid_inv ?u"
      using inv p nz(1,3) by (simp add: pid_inv_def procs_def nth_list_update) metis
    have k: "keeps pid_inv ?rest"
      by (intro keeps_kbind keeps_if keeps_pid_mem keeps_pid_upd keeps_pid_mlfq keeps_kret) simp_all
    have "?rest ?u = Inr (x, t)"
      using run Some by (simp add: allocproc_def)
    then show ?thesis by (rule keepsD [OF k u])
  qed
qed

lemma keeps_pid_kill [intro, simp]: "keeps pid_inv (kill n)"
  unfolding kill_def by (intro keeps_kbind keeps_kget keeps_case_option keeps_kret keeps_pid_upd) simp

lemma keeps_pid_wait_loop: "keeps pid_inv (wait_loop ps me hk)"
proof (induction ps arbitrary: hk)
  case Nil
  show ?case
    unfolding wait_loop.simps by (intro keeps_kbind keeps_kget keeps_if keeps_kret keeps_pid_sleep)
next
  case (Cons p ps)
  show ?case
    unfolding wait_loop.simps wait_reap_def
    by (intro keeps_kbind keeps_kget keeps_if keeps_kret keeps_pid_mem keeps_pid_upd Cons.IH) simp_all
qed

lemma keeps_pid_join_loop: "keeps pid_inv (join_loop ps me hk)"
proof (induction ps arbitrary: hk)
  case Nil
  show ?case
    unfolding join_loop.simps by (intro keeps_kbind keeps_kget keeps_if keeps_kret keeps_pid_sleep)
next
  case (Cons p ps)
  show ?case
    unfolding join_loop.simps
    by (intro keeps_kbind keeps_kget keeps_if keeps_kret keeps_kfail keeps_pid_mem keeps_pid_upd Cons.IH) simp_all
qed

lemma keeps_pid_reparent: "keeps pid_inv (reparent ps me)"
proof (induction ps)
  case Nil
  show ?case unfolding reparent.simps by (rule keeps_kret)
next
  case (Cons p ps)
  show ?case
    unfolding reparent.simps
    by (intro keeps_kbind keeps_kget keeps_if keeps_kret keeps_kwhen keeps_pid_wakeup1 keeps_pid_upd Cons.IH) simp
qed

lemma keeps_pid_switchuvm: "keeps pid_inv (switchuvm p)"
  unfolding switchuvm_def
  by (intro keeps_kbind keeps_kget keeps_if keeps_kfail keeps_kmod) (simp add: pid_inv_def procs_def)

lemma keeps_pid_ops:
  "keeps pid_inv wait" "keeps pid_inv join" "keeps pid_inv (exit_zombie me)" "keeps pid_inv yield"
  "keeps pid_inv (growproc n)"
proof -
  show "keeps pid_inv wait" "keeps pid_inv join"
    unfolding wait_def join_def
    by (intro keeps_kbind keeps_pid_curproc keeps_pid_wait_loop keeps_pid_join_loop)+
  show "keeps pid_inv (exit_zombie me)"
    unfolding exit_zombie_def
    by (intro keeps_kbind keeps_kget keeps_pid_wakeup1 keeps_pid_reparent keeps_pid_upd keeps_pid_sched) simp
  show "keeps pid_inv yield"
    unfolding yield_def by (intro keeps_kbind keeps_pid_curproc keeps_pid_upd keeps_pid_sched) simp
  show "keeps pid_inv (growproc n)"
    unfolding growproc_def
    by (intro keeps_kbind keeps_kget keeps_pid_curproc keeps_if keeps_kret keeps_pid_mem keeps_pid_upd
        keeps_pid_switchuvm) simp
qed

section \<open>Waiting and exiting\<close>

definition zombie_child :: "'z proc_st_scheme \<Rightarrow> nat \<Rightarrow> nat \<Rightarrow> bool" where
  "zombie_child s me i \<longleftrightarrow> parent (procs s i) = Some me \<and> state (procs s i) = ZOMBIE"

lemma wait_loop_none:
  "(\<forall>i \<in> set ps. \<not> zombie_child s me i) \<Longrightarrow>
     wait_loop ps me hk s = wait_loop [] me (hk \<or> (\<exists>i \<in> set ps. parent (procs s i) = Some me)) s"
proof (induction ps arbitrary: hk)
  case (Cons p ps)
  then show ?case
    by (cases "parent (procs s p) = Some me") (auto simp: zombie_child_def)
qed simp

lemma wait_loop_some:
  "find (zombie_child s me) ps = Some p \<Longrightarrow> wait_loop ps me hk s = wait_reap p s"
proof (induction ps arbitrary: hk)
  case (Cons q ps)
  then show ?case
    by (cases "zombie_child s me q") (auto simp: zombie_child_def)
qed simp

lemma sched_run: "cur s = Some me \<Longrightarrow> state (procs s me) \<noteq> RUNNING \<Longrightarrow> sched s = Inr ((), s)"
  by (simp add: sched_def)

lemma sleep_run:
  assumes "cur s = Some me" "me < length (ptable s)"
  shows "sleep ch s = Inr ((), s\<lparr>ptable := (ptable s)[me := (ptable s ! me)\<lparr>pchan := ch, state := SLEEPING\<rparr>]\<rparr>)"
  using assms by (simp add: sleep_def sched_run procs_def)

lemma wait_reap_effect:
  assumes run: "wait_reap p s = Inr (r, t)" and p: "p < length (ptable s)"
  shows "r = Ret (pid (procs s p))"
    "procs t p = (procs s p)\<lparr>kstack := 0, state := UNUSED, pid := 0, parent := None,
       pname := (pname (procs s p))(0 := 0), killed := False\<rparr>"
    "\<forall>i. i \<noteq> p \<longrightarrow> procs t i = procs s i" "cur t = cur s" "mlfq t = mlfq s" "mlfq_size t = mlfq_size s"
proof -
  let ?q = "procs s p"
  obtain s1 where s1: "kfree (kstack ?q) s = Inr ((), s1)"
    using run by (auto simp: wait_reap_def kbind_Inr_iff)
  let ?s2 = "s1\<lparr>ptable := (ptable s1)[p := (ptable s1 ! p)\<lparr>kstack := 0\<rparr>]\<rparr>"
  obtain s3 where s3: "freevm (pgdir ?q) ?s2 = Inr ((), s3)"
    using run s1 by (auto simp: wait_reap_def kbind_Inr_iff)
  let ?f = "\<lambda>q. q\<lparr>state := UNUSED, pid := 0, parent := None, pname := (pname q)(0 := 0), killed := False\<rparr>"
  have t: "r = Ret (pid ?q)" "t = s3\<lparr>ptable := (ptable s3)[p := ?f (ptable s3 ! p)]\<rparr>"
    using run s1 s3 by (simp_all add: wait_reap_def)
  note m1 = more_proc_st [OF keeps_moreD [OF keeps_more_kfree s1]]
  note m3 = more_proc_st [OF keeps_moreD [OF keeps_more_freevm s3]]
  show "r = Ret (pid (procs s p))" by (rule t(1))
  show "procs t p = (procs s p)\<lparr>kstack := 0, state := UNUSED, pid := 0, parent := None,
       pname := (pname (procs s p))(0 := 0), killed := False\<rparr>"
    "\<forall>i. i \<noteq> p \<longrightarrow> procs t i = procs s i"
    using m1(1) m3(1) p by (simp_all add: t(2) procs_def)
  show "cur t = cur s" "mlfq t = mlfq s" "mlfq_size t = mlfq_size s"
    using m1 m3 by (simp_all add: t(2))
qed

lemma wakeup1_run: "wakeup1 ch s = Inr ((), s\<lparr>ptable := map (wake ch) (ptable s)\<rparr>)"
  by (simp add: wakeup1_def)

text \<open>What \<open>reparent\<close> leaves of a process.\<close>

definition same_but_parent :: "proc \<Rightarrow> proc \<Rightarrow> bool" where
  "same_but_parent p q \<longleftrightarrow> q = p\<lparr>parent := parent q, state := state q\<rparr>
     \<and> (state q = state p \<or> state p = SLEEPING \<and> state q = RUNNABLE)"

lemma same_but_parent_refl [simp]: "same_but_parent p p"
  by (simp add: same_but_parent_def)

lemma same_but_parent_trans: "same_but_parent p q \<Longrightarrow> same_but_parent q r \<Longrightarrow> same_but_parent p r"
  unfolding same_but_parent_def by (cases p, cases q, cases r) auto

lemma same_but_parent_wake: "same_but_parent p (wake ch p)" "parent (wake ch p) = parent p"
  by (auto simp: same_but_parent_def wake_def)

lemma same_but_parent_upd: "same_but_parent p (p\<lparr>parent := x\<rparr>)"
  by (simp add: same_but_parent_def)

lemma reparent_step:
  assumes "length (ptable s) = NPROC" "p < NPROC"
  shows "\<exists>t. reparent (p # ps) me s = reparent ps me t \<and> length (ptable t) = NPROC \<and> cur t = cur s
     \<and> initproc t = initproc s \<and> mlfq t = mlfq s \<and> mlfq_size t = mlfq_size s
     \<and> (\<forall>i < NPROC. same_but_parent (procs s i) (procs t i)
          \<and> parent (procs t i) = (if i = p \<and> parent (procs s i) = Some me then initproc s else parent (procs s i)))"
proof (cases "parent (procs s p) = Some me")
  case False
  then show ?thesis using assms(1) by (intro exI [of _ s]) auto
next
  case True
  let ?u = "s\<lparr>ptable := (ptable s)[p := (ptable s ! p)\<lparr>parent := initproc s\<rparr>]\<rparr>"
  let ?ch = "case initproc s of None \<Rightarrow> NoChan | Some j \<Rightarrow> ChProc j"
  let ?t = "if state (procs s p) = ZOMBIE then ?u\<lparr>ptable := map (wake ?ch) (ptable ?u)\<rparr> else ?u"
  have "reparent (p # ps) me s = reparent ps me ?t"
    using True by (simp add: wakeup1_run)
  moreover have "same_but_parent (procs s i) (procs ?t i)
      \<and> parent (procs ?t i) = (if i = p then initproc s else parent (procs s i))" if "i < NPROC" for i
    using that assms same_but_parent_wake same_but_parent_upd
      same_but_parent_trans [OF same_but_parent_upd same_but_parent_wake(1)]
    by (auto simp: procs_def nth_list_update)
  ultimately show ?thesis
    using assms True by (intro exI [of _ ?t]) auto
qed

lemma reparent_effect:
  assumes "length (ptable s) = NPROC" "set ps \<subseteq> {..<NPROC}" "distinct ps"
  shows "\<exists>t. reparent ps me s = Inr ((), t) \<and> length (ptable t) = NPROC \<and> cur t = cur s \<and> initproc t = initproc s
     \<and> mlfq t = mlfq s \<and> mlfq_size t = mlfq_size s
     \<and> (\<forall>i < NPROC. same_but_parent (procs s i) (procs t i)
          \<and> parent (procs t i) = (if i \<in> set ps \<and> parent (procs s i) = Some me then initproc s else parent (procs s i)))"
  using assms
proof (induction ps arbitrary: s)
  case Nil
  then show ?case by simp
next
  case (Cons p ps)
  obtain u where u: "reparent (p # ps) me s = reparent ps me u" "length (ptable u) = NPROC" "cur u = cur s"
    "initproc u = initproc s" "mlfq u = mlfq s" "mlfq_size u = mlfq_size s"
    "\<forall>i < NPROC. same_but_parent (procs s i) (procs u i)
          \<and> parent (procs u i) = (if i = p \<and> parent (procs s i) = Some me then initproc s else parent (procs s i))"
    using reparent_step [of s p ps me] Cons.prems by auto
  obtain t where t: "reparent ps me u = Inr ((), t)" "length (ptable t) = NPROC" "cur t = cur u"
    "initproc t = initproc u" "mlfq t = mlfq u" "mlfq_size t = mlfq_size u"
    "\<forall>i < NPROC. same_but_parent (procs u i) (procs t i)
          \<and> parent (procs t i) = (if i \<in> set ps \<and> parent (procs u i) = Some me then initproc u else parent (procs u i))"
    using Cons.IH [OF u(2)] Cons.prems by auto
  have "same_but_parent (procs s i) (procs t i)" if "i < NPROC" for i
    using that u(7) t(7) same_but_parent_trans by blast
  moreover have "parent (procs t i) = (if i \<in> set (p # ps) \<and> parent (procs s i) = Some me then initproc s else parent (procs s i))"
    if "i < NPROC" for i
    using that u(4,7) t(7) Cons.prems(3) by (cases "i = p") auto
  ultimately show ?case
    using u(1-6) t(1-6) by (intro exI [of _ t]) (simp del: reparent.simps)
qed

text \<open>The whole of \<open>exit\<close> under the lock.\<close>

lemma exit_zombie_effect:
  assumes len: "length (ptable s) = NPROC" and cur: "cur s = Some me" and me: "me < NPROC"
    and self: "parent (procs s me) \<noteq> Some me"
  shows "\<exists>t. exit_zombie me s = Inr ((), t) \<and> length (ptable t) = NPROC \<and> cur t = cur s
     \<and> state (procs t me) = ZOMBIE \<and> pid (procs t me) = pid (procs s me)
     \<and> parent (procs t me) = parent (procs s me)
     \<and> (\<forall>i < NPROC. i \<noteq> me \<longrightarrow> parent (procs t i) = (if parent (procs s i) = Some me then initproc s else parent (procs s i)))
     \<and> (\<forall>i < NPROC. i \<noteq> me \<longrightarrow> state (procs t i) = state (procs s i)
           \<or> state (procs s i) = SLEEPING \<and> state (procs t i) = RUNNABLE)
     \<and> (\<forall>pa < NPROC. parent (procs s me) = Some pa \<longrightarrow> pa \<noteq> me \<longrightarrow> state (procs s pa) = SLEEPING \<longrightarrow>
           pchan (procs s pa) = ChProc pa \<longrightarrow> state (procs t pa) = RUNNABLE)"
proof -
  let ?ch = "case parent (procs s me) of None \<Rightarrow> NoChan | Some j \<Rightarrow> ChProc j"
  let ?u = "s\<lparr>ptable := map (wake ?ch) (ptable s)\<rparr>"
  have u: "length (ptable ?u) = NPROC" "\<And>i. i < NPROC \<Longrightarrow> procs ?u i = wake ?ch (procs s i)"
    using len by (simp_all add: procs_def)
  obtain v where v: "reparent [0..<NPROC] me ?u = Inr ((), v)" "length (ptable v) = NPROC" "cur v = cur ?u"
    "\<forall>i < NPROC. same_but_parent (procs ?u i) (procs v i)
          \<and> parent (procs v i) = (if i \<in> set [0..<NPROC] \<and> parent (procs ?u i) = Some me then initproc ?u else parent (procs ?u i))"
    using reparent_effect [OF u(1) _ distinct_upt, of 0 NPROC me] by fastforce
  let ?t = "v\<lparr>ptable := (ptable v)[me := (ptable v ! me)\<lparr>state := ZOMBIE\<rparr>]\<rparr>"
  have pt: "procs ?t i = (if i = me then (procs v me)\<lparr>state := ZOMBIE\<rparr> else procs v i)" if "i < NPROC" for i
    using that v(2) me by (simp add: procs_def nth_list_update)
  have run: "exit_zombie me s = Inr ((), ?t)"
    using v(1,3) cur pt [OF me] by (simp add: exit_zombie_def wakeup1_run sched_run)
  have sp: "same_but_parent (procs s i) (procs v i)" if "i < NPROC" for i
    using that v(4) u(2) same_but_parent_trans [OF same_but_parent_wake(1)] by metis
  have pa: "parent (procs v i) = (if parent (procs s i) = Some me then initproc s else parent (procs s i))" if "i < NPROC" for i
    using that v(4) u(2) by (simp add: same_but_parent_wake(2))
  have st: "state (procs v i) = state (procs s i) \<or> state (procs s i) = SLEEPING \<and> state (procs v i) = RUNNABLE"
    "pid (procs v i) = pid (procs s i)" if "i < NPROC" for i
    using sp [OF that] unfolding same_but_parent_def by (cases "procs s i"; simp; metis proc.simps)+
  have wk: "state (procs v p) = RUNNABLE"
    if "p < NPROC" "parent (procs s me) = Some p" "state (procs s p) = SLEEPING" "pchan (procs s p) = ChProc p" for p
  proof -
    have "state (procs ?u p) = RUNNABLE"
      using that u(2) by (simp add: wake_def)
    then show ?thesis
      using v(4) that(1) by (auto simp: same_but_parent_def)
  qed
  show ?thesis
    using run pt st pa wk me self v(2,3) by (intro exI [of _ ?t]) auto
qed

section \<open>Properties\<close>





definition exit_example :: proc_st where
  "exit_example = mlfq_example\<lparr>cur := Some 1,
     ptable := zero_proc\<lparr>state := SLEEPING, pid := 1, pchan := ChProc 0\<rparr>
       # zero_proc\<lparr>state := RUNNING, pid := 2, parent := Some 0\<rparr> # replicate 62 zero_proc\<rparr>"


lemma kill_find:
  assumes "find (\<lambda>i. pid (procs s i) = n) [0..<NPROC] = Some p"
  shows "kill n s = Inr (0, s\<lparr>ptable := (ptable s)[p := (ptable s ! p)\<lparr>killed := True,
     state := (if state (ptable s ! p) = SLEEPING then RUNNABLE else state (ptable s ! p))\<rparr>]\<rparr>)"
  using assms by (simp add: kill_def)

lemma allocproc_Some:
  assumes run: "allocproc s = Inr (Some p, t)" and len: "length (ptable s) = NPROC"
  shows "free_slot s = Some p" "nextpid t = nextpid s + 1"
    "\<exists>k. procs t p = (procs s p)\<lparr>state := EMBRYO, pid := nextpid s, kstack := k, level := 3, ticks_curr := 0,
       wait_ticks_curr := 0, pticks := replicate NLAYER 0, wait_ticks := replicate NLAYER 0\<rparr>"
    "\<forall>i. i \<noteq> p \<longrightarrow> procs t i = procs s i" "mlfq_ok s \<Longrightarrow> queue t 3 = queue s 3 @ [p]"
    "mlfq_ok s \<Longrightarrow> entries t = add_mset p (entries s)"
proof -
  obtain p' where p': "free_slot s = Some p'"
    using run by (cases "free_slot s") (simp_all add: allocproc_def)
  let ?u = "s\<lparr>ptable := (ptable s)[p' := (ptable s ! p')\<lparr>state := EMBRYO, pid := nextpid s\<rparr>], nextpid := nextpid s + 1\<rparr>"
  obtain k v where v: "kalloc ?u = Inr (k, v)"
    using run p' by (auto simp: allocproc_def kbind_Inr_iff)
  let ?w = "v\<lparr>ptable := (ptable v)[p' := (ptable v ! p')\<lparr>kstack := k\<rparr>]\<rparr>"
  let ?f = "\<lambda>q. q\<lparr>level := 3, ticks_curr := 0, wait_ticks_curr := 0,
                  pticks := replicate NLAYER 0, wait_ticks := replicate NLAYER 0\<rparr>"
  let ?x = "?w\<lparr>ptable := (ptable ?w)[p' := ?f (ptable ?w ! p')]\<rparr>"
  have nz: "k \<noteq> 0" and ap: "mlfq_append 3 p' ?x = Inr ((), t)" and pp: "p' = p"
    using run p' v by (auto simp: allocproc_def kbind_Inr_iff split: if_splits)
  note m = more_proc_st [OF keeps_moreD [OF keeps_more_kalloc v]]
  have p: "p < NPROC"
    using free_slot_Some [OF p'] pp by simp
  have t: "ptable t = ptable ?x" "nextpid t = nextpid ?x"
    using ap by (auto simp: mlfq_append_def get_size_def set_size_def set_mlfq_def kbind_Inr_iff split: if_splits)
  show "free_slot s = Some p"
    using p' pp by simp
  show "nextpid t = nextpid s + 1"
    using t(2) m(4) by simp
  show "\<exists>k. procs t p = (procs s p)\<lparr>state := EMBRYO, pid := nextpid s, kstack := k, level := 3, ticks_curr := 0,
       wait_ticks_curr := 0, pticks := replicate NLAYER 0, wait_ticks := replicate NLAYER 0\<rparr>"
    "\<forall>i. i \<noteq> p \<longrightarrow> procs t i = procs s i"
    using t(1) m(1) p len pp by (auto simp: procs_def)
  assume ok: "mlfq_ok s"
  have x: "mlfq_ok ?x" "queue ?x = queue s" "entries ?x = entries s"
    using ok m(5,6) by (simp_all add: mlfq_ok_def queue_def entries_def fun_eq_iff)
  have "3 < NLAYER" by (simp add: NLAYER_def)
  from mlfq_append_run [OF x(1) this p] have "queue t 3 = queue ?x 3 @ [p] \<and> (\<forall>k. k \<noteq> 3 \<longrightarrow> queue t k = queue ?x k)"
    using ap pp by (auto split: if_splits)
  then show "queue t 3 = queue s 3 @ [p]" "entries t = add_mset p (entries s)"
    using entries_append [OF \<open>3 < NLAYER\<close>, of t ?x p] x(2,3) by auto
qed

text \<open>
  C33. \<open>kill(0)\<close> does not fail: it marks the first slot whose identifier is 0, a free
  one, as killed and returns 0. \<open>allocproc\<close> does not clear the mark, so the next
  process created in that slot starts its life killed.
\<close>

theorem kill_zero_dooms_next:
  assumes len: "length (ptable s) = NPROC"
    and fs: "free_slot s = Some p" "pid (procs s p) = 0" "\<forall>i < p. pid (procs s i) \<noteq> 0"
  shows "\<exists>t. kill 0 s = Inr (0, t) \<and> (\<forall>q u. allocproc t = Inr (Some q, u) \<longrightarrow> q = p \<and> killed (procs u q))"
proof -
  have p: "p < NPROC" "state (procs s p) = UNUSED"
    using free_slot_Some [OF fs(1)] by simp_all
  have "find (\<lambda>i. pid (procs s i) = 0) [0..<NPROC] = Some p"
    using p fs by (auto simp: find_Some_iff intro!: exI [of _ p])
  note k = kill_find [OF this]
  let ?t = "s\<lparr>ptable := (ptable s)[p := (ptable s ! p)\<lparr>killed := True,
     state := (if state (ptable s ! p) = SLEEPING then RUNNABLE else state (ptable s ! p))\<rparr>]\<rparr>"
  have pt: "procs ?t i = (if i = p then (procs s p)\<lparr>killed := True\<rparr> else procs s i)" for i
    using p len by (simp add: procs_def nth_list_update)
  then have st: "state (procs ?t i) = state (procs s i)" for i
    by simp
  have "free_slot ?t = Some p"
    using fs(1) by (simp add: free_slot_def st)
  then have "q = p \<and> killed (procs u q)" if "allocproc ?t = Inr (Some q, u)" for q u
    using allocproc_Some(1,3) [OF that] pt [of p] len by auto
  then show ?thesis using k by blast
qed

text \<open>A state with one free page and a free slot of identifier 0 behind two processes.\<close>

definition proc_example :: proc_st where
  "proc_example = mlfq_example\<lparr>freelist := 0x203000, size_freelist := 1\<rparr>"

lemma proc_example_alloc: "\<exists>q u. allocproc (proc_example\<lparr>ptable := x\<rparr>) = Inr (Some q, u)" if "free_slot (proc_example\<lparr>ptable := x\<rparr>) = Some p" for x p
proof -
  let ?s = "proc_example\<lparr>ptable := x\<rparr>"
  let ?u = "?s\<lparr>ptable := (ptable ?s)[p := (ptable ?s ! p)\<lparr>state := EMBRYO, pid := nextpid ?s\<rparr>], nextpid := nextpid ?s + 1\<rparr>"
  have fp: "free_pages ?u = [0x203000]"
    by (simp add: free_pages_def proc_example_def mlfq_example_def)
  have "kmem_inv ?u"
    unfolding kmem_inv_def fp
    by (simp add: proc_example_def mlfq_example_def free_page_ok_def page_aligned_def PHYSTOP_def NALLOC_def
        load32_def word_le_nat_alt word_less_nat_alt)
  moreover have "num_alloc ?u < int NALLOC"
    by (simp add: proc_example_def mlfq_example_def NALLOC_def)
  ultimately obtain k v where v: "kalloc ?u = Inr (k, v)"
    using kalloc_step [of ?u] fp by auto
  then have "k \<noteq> 0"
    using kalloc_facts(10) [OF \<open>kmem_inv ?u\<close>] by blast
  note m = more_proc_st [OF keeps_moreD [OF keeps_more_kalloc v]]
  have "p < NPROC" using free_slot_Some [OF that] by simp
  have ok: "mlfq_ok (v\<lparr>ptable := y\<rparr>)" "length (queue (v\<lparr>ptable := y\<rparr>) 3) < MLFQ_LEN" for y
    using m(5,6) mlfq_example_ok(1) mlfq_example_queue(4)
    by (simp_all add: mlfq_ok_def queue_def proc_example_def MLFQ_LEN_def)
  have "\<exists>t. mlfq_append 3 p (v\<lparr>ptable := y\<rparr>) = Inr ((), t)" for y
    using mlfq_append_run [OF ok(1) _ \<open>p < NPROC\<close>, of 3 y] ok(2) [of y] by (auto simp: NLAYER_def)
  then show ?thesis
    using that v \<open>k \<noteq> 0\<close> by (simp add: allocproc_def kbind_Inr_iff)
qed

lemma proc_example_slot: "free_slot proc_example = Some 2" "length (ptable proc_example) = NPROC"
proof -
  have "[0..<NPROC] = 0 # 1 # 2 # [3..<64]"
    by (simp add: NPROC_def upt_rec)
  then show "free_slot proc_example = Some 2"
    by (simp add: free_slot_def procs_def proc_example_def mlfq_example_def zero_proc_def)
  show "length (ptable proc_example) = NPROC"
    using mlfq_example_ok(2) by (simp add: proc_example_def)
qed

theorem kill_zero_dooms_next_witness:
  "\<exists>t u. kill 0 proc_example = Inr (0, t) \<and> allocproc t = Inr (Some 2, u) \<and> killed (procs u 2)"
proof -
  have pd: "pid (procs proc_example 2) = 0" "\<forall>i < 2. pid (procs proc_example i) \<noteq> 0"
    by (auto simp: procs_def proc_example_def mlfq_example_def zero_proc_def less_2_cases_iff)
  obtain t where t: "kill 0 proc_example = Inr (0, t)"
    "\<forall>q u. allocproc t = Inr (Some q, u) \<longrightarrow> q = 2 \<and> killed (procs u q)"
    using kill_zero_dooms_next [OF proc_example_slot(2,1) pd] by blast
  have "find (\<lambda>i. pid (procs proc_example i) = 0) [0..<NPROC] = Some 2"
    using pd by (auto simp: find_Some_iff NPROC_def numeral_2_eq_2 intro!: exI [of _ "Suc (Suc 0)"])
  from kill_find [OF this] have tt: "t = proc_example\<lparr>ptable := ptable t\<rparr>"
      "\<And>i. state (procs t i) = state (procs proc_example i)"
    using t(1) free_slot_Some [OF proc_example_slot(1)]
    by (auto simp: procs_def nth_list_update proc_example_slot(2))
  then have "free_slot (proc_example\<lparr>ptable := ptable t\<rparr>) = Some 2"
    using proc_example_slot(1) by (simp add: free_slot_def)
  from proc_example_alloc [OF this] show ?thesis
    using t tt(1) by metis
qed


lemma proc_example_inv: "pid_inv proc_example" "mlfq_ok proc_example"
proof -
  have n: "procs proc_example i = (if i = 0 then procs proc_example 0 else if i = 1 then procs proc_example 1 else zero_proc)"
    if "i < NPROC" for i
    using that by (auto simp: procs_def proc_example_def mlfq_example_def nth_Cons' NPROC_def)
  have p: "pid (procs proc_example 0) = 1" "pid (procs proc_example 1) = 2" "pid zero_proc = 0" "nextpid proc_example = 3"
    by (simp_all add: procs_def proc_example_def mlfq_example_def zero_proc_def)
  have pd: "pid (procs proc_example i) = (if i = 0 then 1 else if i = 1 then 2 else 0)" if "i < NPROC" for i
    using n [OF that] p by (cases "i = 0"; cases "i = 1") (metis (full_types))+
  then show "pid_inv proc_example"
    using proc_example_slot(2) p(4) by (simp add: pid_inv_def)
  show "mlfq_ok proc_example"
    using mlfq_example_ok(1) by (simp add: mlfq_ok_def proc_example_def)
qed


text \<open>
  C37. \<open>getfilenum\<close> returns \<open>-1\<close> for identifier 0 and for an identifier no slot has, and
  otherwise the number of open descriptors of the one process that has it.
\<close>

theorem getfilenum_correct:
  assumes inv: "pid_inv s"
  shows "getfilenum 0 s = Inr (-1, s)
    \<and> ((\<forall>i < NPROC. pid (procs s i) \<noteq> n) \<longrightarrow> getfilenum n s = Inr (-1, s))
    \<and> (\<forall>i < NPROC. n \<noteq> 0 \<and> pid (procs s i) = n \<longrightarrow>
         getfilenum n s = Inr (int (card {fd. fd < length (ofile (procs s i)) \<and> ofile (procs s i) ! fd \<noteq> None}), s))"
proof -
  have a: "getfilenum n s = Inr (-1, s)" if "\<forall>i < NPROC. pid (procs s i) \<noteq> n"
  proof -
    have "find (\<lambda>i. pid (procs s i) = n) [0..<NPROC] = None"
      using that by (auto simp: find_None_iff)
    then show ?thesis by (simp add: getfilenum_def)
  qed
  have b: "getfilenum n s = Inr (int (card {fd. fd < length (ofile (procs s i)) \<and> ofile (procs s i) ! fd \<noteq> None}), s)"
    if "i < NPROC" "n \<noteq> 0" "pid (procs s i) = n" for i
  proof -
    have "pid (procs s j) \<noteq> n" if "j < i" for j
      using inv \<open>i < NPROC\<close> \<open>n \<noteq> 0\<close> \<open>pid (procs s i) = n\<close> that unfolding pid_inv_def by (metis less_trans less_irrefl)
    then have "find (\<lambda>i. pid (procs s i) = n) [0..<NPROC] = Some i"
      using that by (auto simp: find_Some_iff intro!: exI [of _ i])
    then show ?thesis
      using that(2) by (simp add: getfilenum_def length_filter_conv_card)
  qed
  have "getfilenum 0 s = Inr (-1, s)"
    by (simp add: getfilenum_def)
  then show ?thesis using a b by blast
qed

theorem getfilenum_correct_witness:
  "getfilenum 0 proc_example = Inr (-1, proc_example) \<and> getfilenum 2 proc_example = Inr (0, proc_example)"
proof -
  have p: "pid (procs proc_example 1) = 2" "1 < NPROC" and o: "ofile (procs proc_example 1) = replicate NOFILE None"
    by (simp_all add: procs_def proc_example_def mlfq_example_def zero_proc_def NPROC_def)
  have e: "{fd. fd < length (ofile (procs proc_example 1)) \<and> ofile (procs proc_example 1) ! fd \<noteq> None} = {}"
    unfolding o by simp
  note g = getfilenum_correct [OF proc_example_inv(1), of 2]
  from g p have "getfilenum 2 proc_example = Inr (int (card {fd. fd < length (ofile (procs proc_example 1))
      \<and> ofile (procs proc_example 1) ! fd \<noteq> None}), proc_example)"
    by simp
  then show ?thesis using g unfolding e by simp
qed

end
