(* ===== verification/Bio.thy ===== *)
theory Bio
  imports Proc
begin

text \<open>
  The buffer cache, \<open>kernel/bio.c\<close>, and the disk requests of \<open>kernel/ide.c\<close>. The doubly
  linked list through the buffers is the list of their indices from \<open>head.next\<close> on.
  The IDE controller is hardware: a request transfers one sector between the buffer
  and \<open>disk\<close>, which maps a device and a sector to its 512 bytes, and is complete when
  \<open>iderw\<close> returns. Waiting for a buffer another process holds is the outcome \<open>Sleep\<close>.
\<close>

section \<open>Model\<close>

definition NBUF :: nat where "NBUF = 10"

record buf =
  bbusy :: bool
  bvalid :: bool
  bdirty :: bool
  bdev :: u32
  bsector :: u32
  bdata :: "u8 list"

record bio_st = proc_st +
  bufs :: "buf list"
  lru :: "nat list"
  disk :: "u32 \<Rightarrow> u32 \<Rightarrow> u8 list"
  havedisk1 :: bool

definition upd_buf :: "nat \<Rightarrow> (buf \<Rightarrow> buf) \<Rightarrow> ('z bio_st_scheme, unit) kop" where
  "upd_buf b f = kmod (\<lambda>s. s\<lparr>bufs := (bufs s)[b := f (bufs s ! b)]\<rparr>)"

definition get_buf :: "nat \<Rightarrow> ('z bio_st_scheme, buf) kop" where
  "get_buf b = kget (\<lambda>s. bufs s ! b)"

text \<open>The list starts empty and each buffer is inserted at its head, with device \<open>-1\<close>.\<close>

definition binit :: "('z bio_st_scheme, unit) kop" where
  "binit = kbind (kmod (\<lambda>s. s\<lparr>lru := []\<rparr>)) (\<lambda>_.
     kfor [0..<NBUF] (\<lambda>b.
     kbind (upd_buf b (\<lambda>x. x\<lparr>bdev := -1\<rparr>)) (\<lambda>_.
     kmod (\<lambda>s. s\<lparr>lru := b # lru s\<rparr>))))"

text \<open>\<open>ideintr\<close> for the buffer at the head of the queue: the transfer and the flags.\<close>

definition ide_transfer :: "nat \<Rightarrow> ('z bio_st_scheme, unit) kop" where
  "ide_transfer b =
     kbind (get_buf b) (\<lambda>x.
     kbind (if bdirty x then kmod (\<lambda>s. s\<lparr>disk := (disk s)(bdev x := (disk s (bdev x))(bsector x := bdata x))\<rparr>)
            else kmod (\<lambda>s. s\<lparr>bufs := (bufs s)[b := x\<lparr>bdata := disk s (bdev x) (bsector x)\<rparr>]\<rparr>)) (\<lambda>_.
     kbind (upd_buf b (\<lambda>x. x\<lparr>bvalid := True, bdirty := False\<rparr>)) (\<lambda>_.
     wakeup (ChBuf b))))"

definition iderw :: "nat \<Rightarrow> ('z bio_st_scheme, unit) kop" where
  "iderw b =
     kbind (get_buf b) (\<lambda>x.
     if \<not> bbusy x then kfail (Panic ''iderw: buf not busy'')
     else if bvalid x \<and> \<not> bdirty x then kfail (Panic ''iderw: nothing to do'')
     else
     kbind (kget havedisk1) (\<lambda>h.
     if bdev x \<noteq> 0 \<and> \<not> h then kfail (Panic ''iderw: ide disk 1 not present'')
     else ide_transfer b))"

definition bget :: "u32 \<Rightarrow> u32 \<Rightarrow> ('z bio_st_scheme, nat) kop" where
  "bget dev sector =
     kbind (kget (\<lambda>s. List.find (\<lambda>b. bdev (bufs s ! b) = dev \<and> bsector (bufs s ! b) = sector) (lru s))) (\<lambda>r.
     case r of
       Some b \<Rightarrow>
         kbind (get_buf b) (\<lambda>x.
         if bbusy x then kfail (Sleep (ChBuf b))
         else kbind (upd_buf b (\<lambda>x. x\<lparr>bbusy := True\<rparr>)) (\<lambda>_. kret b))
     | None \<Rightarrow>
         kbind (kget (\<lambda>s. List.find (\<lambda>b. \<not> bbusy (bufs s ! b)) (rev (lru s)))) (\<lambda>r.
         case r of
           None \<Rightarrow> kfail (Panic ''bget: no buffers'')
         | Some b \<Rightarrow>
             kbind (upd_buf b (\<lambda>x. x\<lparr>bdev := dev, bsector := sector, bbusy := True, bvalid := False, bdirty := False\<rparr>)) (\<lambda>_.
             kret b)))"

definition bread :: "u32 \<Rightarrow> u32 \<Rightarrow> ('z bio_st_scheme, nat) kop" where
  "bread dev sector =
     kbind (bget dev sector) (\<lambda>b.
     kbind (get_buf b) (\<lambda>x.
     kbind (kwhen (\<not> bvalid x) (iderw b)) (\<lambda>_.
     kret b)))"

definition bwrite :: "nat \<Rightarrow> ('z bio_st_scheme, unit) kop" where
  "bwrite b =
     kbind (get_buf b) (\<lambda>x.
     if \<not> bbusy x then kfail (Panic ''bwrite'')
     else kbind (upd_buf b (\<lambda>x. x\<lparr>bdirty := True\<rparr>)) (\<lambda>_. iderw b))"

definition brelse :: "nat \<Rightarrow> ('z bio_st_scheme, unit) kop" where
  "brelse b =
     kbind (get_buf b) (\<lambda>x.
     if \<not> bbusy x then kfail (Panic ''brelse'')
     else
     kbind (kmod (\<lambda>s. s\<lparr>lru := b # remove1 b (lru s)\<rparr>)) (\<lambda>_.
     kbind (upd_buf b (\<lambda>x. x\<lparr>bbusy := False\<rparr>)) (\<lambda>_.
     wakeup (ChBuf b))))"

section \<open>The cache invariant\<close>

definition busy_bufs :: "'z bio_st_scheme \<Rightarrow> nat set" where
  "busy_bufs s = {b. b < NBUF \<and> bbusy (bufs s ! b)}"

definition bkey :: "buf \<Rightarrow> u32 \<times> u32" where
  "bkey x = (bdev x, bsector x)"

text \<open>
  The list links every buffer once, no two buffers that have been assigned cache the
  same sector, and a valid buffer holds what the disk holds, except for those in \<open>M\<close>,
  which are held by somebody who has changed them.
\<close>

definition bio_inv :: "nat set \<Rightarrow> 'z bio_st_scheme \<Rightarrow> bool" where
  "bio_inv M s \<longleftrightarrow> length (bufs s) = NBUF \<and> distinct (lru s) \<and> set (lru s) = {..<NBUF} \<and> havedisk1 s
     \<and> M \<subseteq> busy_bufs s
     \<and> (\<forall>a < NBUF. \<forall>b < NBUF. bkey (bufs s ! a) = bkey (bufs s ! b) \<longrightarrow> bdev (bufs s ! a) \<noteq> -1 \<longrightarrow> a = b)
     \<and> (\<forall>b < NBUF. \<not> bdirty (bufs s ! b) \<and> (bbusy (bufs s ! b) \<longrightarrow> bvalid (bufs s ! b)))
     \<and> (\<forall>b < NBUF. bvalid (bufs s ! b) \<longrightarrow> bdev (bufs s ! b) \<noteq> -1)
     \<and> (\<forall>b < NBUF. bvalid (bufs s ! b) \<and> b \<notin> M \<longrightarrow>
          bdata (bufs s ! b) = disk s (bdev (bufs s ! b)) (bsector (bufs s ! b)))"

text \<open>What is left of the rest of the state: everything, but for processes woken up.\<close>

definition woken :: "proc list \<Rightarrow> proc list \<Rightarrow> bool" where
  "woken = list_all2 (\<lambda>p q. q = p \<or> state p = SLEEPING \<and> q = p\<lparr>state := RUNNABLE\<rparr>)"

definition bio_frame :: "'z bio_st_scheme \<Rightarrow> 'z bio_st_scheme \<Rightarrow> bool" where
  "bio_frame s t \<longleftrightarrow> (\<exists>pt bf l d. t = s\<lparr>ptable := pt, bufs := bf, lru := l, disk := d\<rparr> \<and> woken (ptable s) pt)"

lemma woken_refl [simp, intro]: "woken xs xs"
  by (simp add: woken_def list_all2_refl)

lemma woken_wake [simp, intro]: "woken xs (map (wake ch) xs)"
  by (auto simp: woken_def wake_def list_all2_conv_all_nth)

lemma woken_trans: "woken xs ys \<Longrightarrow> woken ys zs \<Longrightarrow> woken xs zs"
  unfolding woken_def by (erule (1) list_all2_trans [rotated]) auto

lemma woken_nth:
  assumes "woken xs ys" "i < length xs"
  shows "length ys = length xs" "state (xs ! i) \<noteq> SLEEPING \<Longrightarrow> ys ! i = xs ! i"
    "ys ! i = xs ! i \<or> ys ! i = (xs ! i)\<lparr>state := RUNNABLE\<rparr>"
  using assms by (auto simp: woken_def list_all2_conv_all_nth)

lemma bio_frame_refl [simp, intro]: "bio_frame s s"
  unfolding bio_frame_def by (rule exI [of _ "ptable s"], rule exI [of _ "bufs s"], rule exI [of _ "lru s"], rule exI [of _ "disk s"]) simp

lemma bio_frame_trans: "bio_frame s t \<Longrightarrow> bio_frame t u \<Longrightarrow> bio_frame s u"
  unfolding bio_frame_def by auto (blast intro: woken_trans)

lemma bio_frame_upd [simp, intro]:
  "woken (ptable s) pt \<Longrightarrow> bio_frame s (s\<lparr>ptable := pt, bufs := bf, lru := l, disk := d\<rparr>)"
  unfolding bio_frame_def by blast

lemma bio_frame_fields:
  assumes "bio_frame s t"
  shows "bio_st.more t = bio_st.more s" "cur t = cur s" "mem t = mem s" "woken (ptable s) (ptable t)"
    "havedisk1 t = havedisk1 s"
  using assms by (auto simp: bio_frame_def)

lemma busy_bufs_finite [simp]: "finite (busy_bufs s)"
  by (simp add: busy_bufs_def)

lemma bio_invD:
  assumes "bio_inv M s"
  shows "length (bufs s) = NBUF" "distinct (lru s)" "set (lru s) = {..<NBUF}" "havedisk1 s" "M \<subseteq> busy_bufs s"
    "\<And>a b. a < NBUF \<Longrightarrow> b < NBUF \<Longrightarrow> bkey (bufs s ! a) = bkey (bufs s ! b) \<Longrightarrow> bdev (bufs s ! a) \<noteq> -1 \<Longrightarrow> a = b"
    "\<And>b. b < NBUF \<Longrightarrow> \<not> bdirty (bufs s ! b)"
    "\<And>b. b < NBUF \<Longrightarrow> bbusy (bufs s ! b) \<Longrightarrow> bvalid (bufs s ! b)"
    "\<And>b. b < NBUF \<Longrightarrow> bvalid (bufs s ! b) \<Longrightarrow> bdev (bufs s ! b) \<noteq> -1"
    "\<And>b. b < NBUF \<Longrightarrow> bvalid (bufs s ! b) \<Longrightarrow> b \<notin> M \<Longrightarrow>
        bdata (bufs s ! b) = disk s (bdev (bufs s ! b)) (bsector (bufs s ! b))"
  using assms unfolding bio_inv_def by (elim conjE; simp)+

section \<open>The operations on the cache\<close>

text \<open>
  Replacing one buffer by one that holds a sector nobody else holds, with the contents
  of the disk.
\<close>

lemma bio_inv_upd:
  assumes inv: "bio_inv M s" and b: "b < NBUF"
    and x: "\<not> bdirty x" "bvalid x" "bdev x \<noteq> -1" "b \<notin> M \<Longrightarrow> bdata x = d (bdev x) (bsector x)"
      "b \<in> M \<Longrightarrow> bbusy x"
    and key: "\<And>a. a < NBUF \<Longrightarrow> a \<noteq> b \<Longrightarrow> bkey (bufs s ! a) \<noteq> bkey x"
    and d: "\<And>u v. (u, v) \<noteq> bkey x \<Longrightarrow> d u v = disk s u v"
    and l: "distinct l" "set l = {..<NBUF}"
  shows "bio_inv M (s\<lparr>ptable := pt, bufs := (bufs s)[b := x], lru := l, disk := d\<rparr>)"
proof -
  note I = bio_invD [OF inv]
  have n: "((bufs s)[b := x]) ! a = (if a = b then x else bufs s ! a)" for a
    using b I(1) by simp
  have M: "M \<subseteq> busy_bufs (s\<lparr>ptable := pt, bufs := (bufs s)[b := x], lru := l, disk := d\<rparr>)"
    using I(5) x(5) n b by (auto simp: busy_bufs_def)
  have dd: "d (bdev (bufs s ! a)) (bsector (bufs s ! a)) = disk s (bdev (bufs s ! a)) (bsector (bufs s ! a))"
    if "a < NBUF" "a \<noteq> b" for a
    using d key [OF that] by (simp add: bkey_def)
  let ?B = "(bufs s)[b := x]"
  have u: "a = c" if "a < NBUF" "c < NBUF" "bkey (?B ! a) = bkey (?B ! c)" "bdev (?B ! a) \<noteq> -1" for a c
    using that key [of a] key [of c] I(6) [of a c] unfolding n by (auto split: if_splits)
  have f: "\<not> bdirty (?B ! a)" "bbusy (?B ! a) \<Longrightarrow> bvalid (?B ! a)" "bvalid (?B ! a) \<Longrightarrow> bdev (?B ! a) \<noteq> -1"
    "bvalid (?B ! a) \<Longrightarrow> a \<notin> M \<Longrightarrow> bdata (?B ! a) = d (bdev (?B ! a)) (bsector (?B ! a))"
    if "a < NBUF" for a
    using that I(7-10) [of a] x dd [of a] unfolding n by (auto split: if_splits)
  show ?thesis
    unfolding bio_inv_def using M I(1,4) l u f by simp
qed

lemma wakeup_run [simp]: "wakeup ch s = Inr ((), s\<lparr>ptable := map (wake ch) (ptable s)\<rparr>)"
  by (simp add: wakeup_def wakeup1_def)

lemma upd_buf_run [simp]: "upd_buf b f s = Inr ((), s\<lparr>bufs := (bufs s)[b := f (bufs s ! b)]\<rparr>)"
  by (simp add: upd_buf_def)

lemma get_buf_run [simp]: "get_buf b s = Inr (bufs s ! b, s)"
  by (simp add: get_buf_def)

lemma find_pred:
  "List.find P xs = Some x \<Longrightarrow> P x \<and> x \<in> set xs"
  "List.find P xs = None \<longleftrightarrow> (\<forall>x \<in> set xs. \<not> P x)"
  by (auto simp: find_Some_iff find_None_iff)

text \<open>
  \<open>bread\<close> of a sector nobody holds, with a buffer to spare, succeeds with a newly held
  buffer that has the contents of the sector; held buffers are untouched.
\<close>

definition held :: "'z bio_st_scheme \<Rightarrow> u32 \<Rightarrow> u32 \<Rightarrow> bool" where
  "held s dev sector \<longleftrightarrow> (\<exists>b \<in> busy_bufs s. bkey (bufs s ! b) = (dev, sector))"

definition bread_post :: "nat set \<Rightarrow> u32 \<Rightarrow> u32 \<Rightarrow> 'z bio_st_scheme \<Rightarrow> nat \<Rightarrow> 'z bio_st_scheme \<Rightarrow> bool" where
  "bread_post M dev sector s b t \<longleftrightarrow> bio_inv M t \<and> b < NBUF \<and> b \<notin> busy_bufs s \<and> busy_bufs t = insert b (busy_bufs s)
     \<and> bkey (bufs t ! b) = (dev, sector) \<and> bdata (bufs t ! b) = disk s dev sector \<and> disk t = disk s
     \<and> (\<forall>c \<in> busy_bufs s. bufs t ! c = bufs s ! c) \<and> bio_frame s t"

lemma bread_hit:
  assumes inv: "bio_inv M s" and b: "b < NBUF" "bkey (bufs s ! b) = (dev, sector)" "\<not> bbusy (bufs s ! b)" "bvalid (bufs s ! b)"
    and t: "t = s\<lparr>bufs := (bufs s)[b := (bufs s ! b)\<lparr>bbusy := True\<rparr>]\<rparr>"
  shows "bread_post M dev sector s b t"
proof -
  note I = bio_invD [OF inv]
  have M: "b \<notin> M" using I(5) b by (auto simp: busy_bufs_def)
  have e: "t = s\<lparr>ptable := ptable s, bufs := (bufs s)[b := (bufs s ! b)\<lparr>bbusy := True\<rparr>], lru := lru s, disk := disk s\<rparr>"
    unfolding t by simp
  have "bio_inv M t" unfolding e
    using I M b by (intro bio_inv_upd [OF inv]) (auto simp: bkey_def)
  moreover have "bio_frame s t" unfolding e by (rule bio_frame_upd) simp
  moreover have "busy_bufs t = insert b (busy_bufs s)"
    using b I(1) unfolding t by (auto simp: busy_bufs_def nth_list_update split: if_splits)
  moreover have "bdata (bufs t ! b) = disk s dev sector"
    using b I(1) I(10) [OF b(1,4) M] unfolding t by (simp add: bkey_def)
  moreover have "bufs t ! c = bufs s ! c" if "c \<in> busy_bufs s" for c
    using that b unfolding t by (cases "c = b") (auto simp: busy_bufs_def)
  moreover have "b \<notin> busy_bufs s" "bkey (bufs t ! b) = (dev, sector)" "disk t = disk s"
    using b I(1) unfolding t by (simp_all add: busy_bufs_def bkey_def)
  ultimately show ?thesis
    using b(1) unfolding bread_post_def by blast
qed

lemma bread_load:
  assumes inv: "bio_inv M s" and b: "b < NBUF" "\<not> bbusy (bufs s ! b)"
    and k: "\<And>a. a < NBUF \<Longrightarrow> a \<noteq> b \<Longrightarrow> bkey (bufs s ! a) \<noteq> (dev, sector)" and dev: "dev \<noteq> -1"
    and x: "x = \<lparr>bbusy = True, bvalid = True, bdirty = False, bdev = dev, bsector = sector, bdata = disk s dev sector\<rparr>"
    and t: "t = s\<lparr>ptable := pt, bufs := (bufs s)[b := x]\<rparr>" and w: "woken (ptable s) pt"
  shows "bread_post M dev sector s b t"
proof -
  note I = bio_invD [OF inv]
  have M: "b \<notin> M" using I(5) b by (auto simp: busy_bufs_def)
  have e: "t = s\<lparr>ptable := pt, bufs := (bufs s)[b := x], lru := lru s, disk := disk s\<rparr>"
    unfolding t by simp
  have "bio_inv M t" unfolding e
    using I M b k dev by (intro bio_inv_upd [OF inv]) (auto simp: bkey_def x)
  moreover have "bio_frame s t" unfolding e using w by (rule bio_frame_upd)
  moreover have "busy_bufs t = insert b (busy_bufs s)"
    using b I(1) unfolding t by (auto simp: busy_bufs_def nth_list_update x split: if_splits)
  moreover have "bdata (bufs t ! b) = disk s dev sector"
    using b I(1) unfolding t by (simp add: x)
  moreover have "bufs t ! c = bufs s ! c" if "c \<in> busy_bufs s" for c
    using that b unfolding t by (cases "c = b") (auto simp: busy_bufs_def)
  moreover have "b \<notin> busy_bufs s" "bkey (bufs t ! b) = (dev, sector)" "disk t = disk s"
    using b I(1) unfolding t by (simp_all add: busy_bufs_def bkey_def x)
  ultimately show ?thesis
    using b(1) unfolding bread_post_def by blast
qed


lemma iderw_load:
  assumes "b < length (bufs s)" "bufs s ! b = x" "bbusy x" "\<not> bvalid x" "\<not> bdirty x" "havedisk1 s"
  shows "iderw b s = Inr ((), s\<lparr>ptable := map (wake (ChBuf b)) (ptable s),
     bufs := (bufs s)[b := x\<lparr>bvalid := True, bdirty := False, bdata := disk s (bdev x) (bsector x)\<rparr>]\<rparr>)"
  using assms by (cases s; cases x) (simp add: iderw_def ide_transfer_def)

lemma bread_ok:
  assumes inv: "bio_inv M s" and room: "card (busy_bufs s) < NBUF" and h: "\<not> held s dev sector" and dev: "dev \<noteq> -1"
  shows "\<exists>b t. bread dev sector s = Inr (b, t) \<and> bread_post M dev sector s b t"
proof -
  note I = bio_invD [OF inv]
  let ?P = "\<lambda>b. bdev (bufs s ! b) = dev \<and> bsector (bufs s ! b) = sector"
  let ?Q = "\<lambda>b. \<not> bbusy (bufs s ! b)"
  let ?x = "\<lparr>bbusy = True, bvalid = True, bdirty = False, bdev = dev, bsector = sector, bdata = disk s dev sector\<rparr>"
  show ?thesis
  proof (cases "List.find ?P (lru s)")
    case (Some b)
    then have b: "b < NBUF" "bkey (bufs s ! b) = (dev, sector)"
      using find_pred(1) [OF Some] I(3) by (auto simp: bkey_def)
    then have nb: "\<not> bbusy (bufs s ! b)"
      using h by (auto simp: held_def busy_bufs_def)
    show ?thesis
    proof (cases "bvalid (bufs s ! b)")
      case True
      have "bread dev sector s = Inr (b, s\<lparr>bufs := (bufs s)[b := (bufs s ! b)\<lparr>bbusy := True\<rparr>]\<rparr>)"
        using Some nb b I(1) True by (simp add: bread_def bget_def)
      with bread_hit [OF inv b nb True refl] show ?thesis by blast
    next
      case False
      let ?y = "(bufs s ! b)\<lparr>bbusy := True\<rparr>"
      let ?u = "s\<lparr>bufs := (bufs s)[b := ?y]\<rparr>"
      have e: "?y\<lparr>bvalid := True, bdirty := False, bdata := disk s (bdev ?y) (bsector ?y)\<rparr> = ?x"
        using b(2) by (cases "bufs s ! b") (simp add: bkey_def)
      have g: "bget dev sector s = Inr (b, ?u)"
        using Some nb by (simp add: bget_def)
      have i: "iderw b ?u = Inr ((), s\<lparr>ptable := map (wake (ChBuf b)) (ptable s), bufs := (bufs s)[b := ?x]\<rparr>)"
        using iderw_load [of b ?u ?y] False b(1) I(1,4) I(7) [OF b(1)] unfolding e [symmetric] by simp
      have k: "bkey (bufs s ! a) \<noteq> (dev, sector)" if "a < NBUF" "a \<noteq> b" for a
        using I(6) [of b a] that b dev by (auto simp: bkey_def)
      have "bread dev sector s = Inr (b, s\<lparr>ptable := map (wake (ChBuf b)) (ptable s), bufs := (bufs s)[b := ?x]\<rparr>)"
        using g i False b(1) I(1) by (simp add: bread_def)
      with bread_load [OF inv b(1) nb k dev refl refl woken_wake] show ?thesis by blast
    qed
  next
    case None
    then have k: "bkey (bufs s ! a) \<noteq> (dev, sector)" if "a < NBUF" for a
      using that I(3) find_pred(2) [of ?P "lru s"] by (auto simp: bkey_def)
    have "\<exists>b < NBUF. ?Q b"
    proof (rule ccontr)
      assume "\<not> ?thesis"
      then have "busy_bufs s = {..<NBUF}" by (auto simp: busy_bufs_def)
      with room show False by simp
    qed
    then obtain b where f: "List.find ?Q (rev (lru s)) = Some b"
      using find_pred(2) [of ?Q "rev (lru s)"] I(3) by (cases "List.find ?Q (rev (lru s))") auto
    then have b: "b < NBUF" "\<not> bbusy (bufs s ! b)"
      using find_pred(1) [OF f] I(3) by auto
    let ?y = "(bufs s ! b)\<lparr>bdev := dev, bsector := sector, bbusy := True, bvalid := False, bdirty := False\<rparr>"
    let ?u = "s\<lparr>bufs := (bufs s)[b := ?y]\<rparr>"
    have e: "?y\<lparr>bvalid := True, bdirty := False, bdata := disk s (bdev ?y) (bsector ?y)\<rparr> = ?x"
      by (cases "bufs s ! b") simp
    have g: "bget dev sector s = Inr (b, ?u)"
      using None f by (simp add: bget_def)
    have i: "iderw b ?u = Inr ((), s\<lparr>ptable := map (wake (ChBuf b)) (ptable s), bufs := (bufs s)[b := ?x]\<rparr>)"
      using iderw_load [of b ?u ?y] b(1) I(1,4) unfolding e [symmetric] by simp
    have "bread dev sector s = Inr (b, s\<lparr>ptable := map (wake (ChBuf b)) (ptable s), bufs := (bufs s)[b := ?x]\<rparr>)"
      using g i b(1) I(1) by (simp add: bread_def)
    with bread_load [OF inv b k dev refl refl woken_wake] show ?thesis by blast
  qed
qed

text \<open>Changing the data of a held buffer.\<close>

definition poke :: "nat \<Rightarrow> u8 list \<Rightarrow> ('z bio_st_scheme, unit) kop" where
  "poke b v = upd_buf b (\<lambda>x. x\<lparr>bdata := v\<rparr>)"

lemma poke_ok:
  assumes inv: "bio_inv M s" and b: "b \<in> busy_bufs s"
  shows "\<exists>t. poke b v s = Inr ((), t) \<and> bio_inv (insert b M) t \<and> busy_bufs t = busy_bufs s \<and> disk t = disk s
     \<and> bufs t ! b = (bufs s ! b)\<lparr>bdata := v\<rparr> \<and> (\<forall>c. c \<noteq> b \<longrightarrow> bufs t ! c = bufs s ! c) \<and> bio_frame s t"
proof -
  note I = bio_invD [OF inv]
  let ?t = "s\<lparr>ptable := ptable s, bufs := (bufs s)[b := (bufs s ! b)\<lparr>bdata := v\<rparr>], lru := lru s, disk := disk s\<rparr>"
  have b': "b < NBUF" "bbusy (bufs s ! b)" using b by (auto simp: busy_bufs_def)
  have i: "bio_inv (insert b M) s"
    using inv b by (auto simp: bio_inv_def)
  have "bio_inv (insert b M) ?t"
    using I b' by (intro bio_inv_upd [OF i]) (auto simp: bkey_def)
  moreover have "busy_bufs ?t = busy_bufs s"
    using b' I(1) by (auto simp: busy_bufs_def nth_list_update split: if_splits)
  moreover have "bio_frame s ?t" by (rule bio_frame_upd) simp
  ultimately show ?thesis
    using b' I(1) by (intro exI [of _ ?t]) (simp add: poke_def)
qed

lemma bwrite_ok:
  assumes inv: "bio_inv M s" and b: "b \<in> busy_bufs s" "bkey (bufs s ! b) = (dev, sector)"
  shows "\<exists>t. bwrite b s = Inr ((), t) \<and> bio_inv (M - {b}) t \<and> busy_bufs t = busy_bufs s
     \<and> disk t = (disk s)(dev := (disk s dev)(sector := bdata (bufs s ! b))) \<and> bufs t = bufs s \<and> bio_frame s t"
proof -
  note I = bio_invD [OF inv]
  have b': "b < NBUF" "bbusy (bufs s ! b)" using b by (auto simp: busy_bufs_def)
  let ?x = "bufs s ! b"
  let ?d = "(disk s)(dev := (disk s dev)(sector := bdata ?x))"
  let ?t = "s\<lparr>ptable := map (wake (ChBuf b)) (ptable s), bufs := (bufs s)[b := ?x], lru := lru s, disk := ?d\<rparr>"
  have k: "bdev ?x = dev" "bsector ?x = sector" using b(2) by (simp_all add: bkey_def)
  have e: "?x\<lparr>bdirty := True, bvalid := True, bdirty := False\<rparr> = ?x"
    using I(7,8) b' by (cases ?x) force
  have o: "bdev (bufs s ! a) = dev \<Longrightarrow> bsector (bufs s ! a) \<noteq> sector" if "a < NBUF" "a \<noteq> b" for a
    using I(6) [of b a] I(8,9) [OF b'(1)] that b' k by (auto simp: bkey_def)
  have "bio_inv (M - {b}) ?t"
  proof -
    have "bio_inv M (s\<lparr>ptable := map (wake (ChBuf b)) (ptable s), bufs := (bufs s)[b := ?x], lru := lru s, disk := ?d\<rparr>)"
      using I(2,3,5,7-10) b' k o by (intro bio_inv_upd [OF inv]) (auto simp: bkey_def)
    then show ?thesis
      using b' I(1) k o unfolding bio_inv_def by (auto simp: busy_bufs_def)
  qed
  moreover have "busy_bufs ?t = busy_bufs s" using b' I(1) by (simp add: busy_bufs_def)
  moreover have "bio_frame s ?t" by (rule bio_frame_upd) simp
  moreover have "bwrite b s = Inr ((), ?t)"
    using b' I(1,4) e k by (simp add: bwrite_def iderw_def ide_transfer_def)
  ultimately show ?thesis using b' I(1) by (intro exI [of _ ?t]) simp
qed

lemma brelse_ok:
  assumes inv: "bio_inv M s" and b: "b \<in> busy_bufs s" "b \<notin> M"
  shows "\<exists>t. brelse b s = Inr ((), t) \<and> bio_inv M t \<and> busy_bufs t = busy_bufs s - {b}
     \<and> disk t = disk s \<and> (\<forall>c. c \<noteq> b \<longrightarrow> bufs t ! c = bufs s ! c) \<and> bio_frame s t"
proof -
  note I = bio_invD [OF inv]
  have b': "b < NBUF" "bbusy (bufs s ! b)" using b by (auto simp: busy_bufs_def)
  let ?l = "b # remove1 b (lru s)"
  let ?t = "s\<lparr>ptable := map (wake (ChBuf b)) (ptable s), bufs := (bufs s)[b := (bufs s ! b)\<lparr>bbusy := False\<rparr>], lru := ?l, disk := disk s\<rparr>"
  have l: "distinct ?l" "set ?l = {..<NBUF}"
    using I(2,3) b' by (auto simp: set_remove1_eq)
  have "bio_inv M ?t"
    using I b' b(2) l by (intro bio_inv_upd [OF inv]) (auto simp: bkey_def)
  moreover have "busy_bufs ?t = busy_bufs s - {b}"
    using b' I(1) by (auto simp: busy_bufs_def nth_list_update split: if_splits)
  moreover have "bio_frame s ?t" by (rule bio_frame_upd) simp
  moreover have "brelse b s = Inr ((), ?t)" using b' I(1) by (simp add: brelse_def)
  ultimately show ?thesis using b' I(1) by (intro exI [of _ ?t]) simp
qed


section \<open>Reading and changing a block\<close>

text \<open>The two patterns in which the file system uses a buffer: read a block and release
  it, and read a block, change it, write it back and release it.\<close>

definition rd_block :: "u32 \<Rightarrow> u32 \<Rightarrow> ('z bio_st_scheme, u8 list) kop" where
  "rd_block dev sector =
     kbind (bread dev sector) (\<lambda>b.
     kbind (get_buf b) (\<lambda>x.
     kbind (brelse b) (\<lambda>_. kret (bdata x))))"

definition wr_block :: "u32 \<Rightarrow> u32 \<Rightarrow> (u8 list \<Rightarrow> u8 list) \<Rightarrow> ('z bio_st_scheme, unit) kop" where
  "wr_block dev sector f =
     kbind (bread dev sector) (\<lambda>b.
     kbind (get_buf b) (\<lambda>x.
     kbind (poke b (f (bdata x))) (\<lambda>_.
     kbind (bwrite b) (\<lambda>_. brelse b))))"

text \<open>\<open>same_held\<close>: the same buffers are held, with the same contents.\<close>

definition same_held :: "'z bio_st_scheme \<Rightarrow> 'z bio_st_scheme \<Rightarrow> bool" where
  "same_held s t \<longleftrightarrow> busy_bufs t = busy_bufs s \<and> (\<forall>c \<in> busy_bufs s. bufs t ! c = bufs s ! c) \<and> bio_frame s t"

lemma same_held_refl [simp, intro]: "same_held s s"
  by (simp add: same_held_def)

lemma same_held_trans: "same_held s t \<Longrightarrow> same_held t u \<Longrightarrow> same_held s u"
  unfolding same_held_def using bio_frame_trans by auto

lemma same_held_held: "same_held s t \<Longrightarrow> held t = held s"
  by (auto simp: same_held_def held_def fun_eq_iff)

definition upd_disk :: "u32 \<Rightarrow> u32 \<Rightarrow> u8 list \<Rightarrow> (u32 \<Rightarrow> u32 \<Rightarrow> u8 list) \<Rightarrow> u32 \<Rightarrow> u32 \<Rightarrow> u8 list" where
  "upd_disk dev sector v d = d(dev := (d dev)(sector := v))"

lemma upd_disk_apply: "upd_disk dev sector v d u w = (if u = dev \<and> w = sector then v else d u w)"
  by (simp add: upd_disk_def)

lemma bread_release:
  assumes inv: "bio_inv M s" "bread_post M dev sector s b t"
    and u: "busy_bufs u = busy_bufs t" "\<And>c. c \<noteq> b \<Longrightarrow> bufs u ! c = bufs t ! c" "bio_frame t u" "bio_inv M u"
  shows "\<exists>v. brelse b u = Inr ((), v) \<and> bio_inv M v \<and> same_held s v \<and> disk v = disk u"
proof -
  have p: "b \<notin> busy_bufs s" "busy_bufs t = insert b (busy_bufs s)" "bio_frame s t"
    "\<forall>c \<in> busy_bufs s. bufs t ! c = bufs s ! c"
    using inv(2) by (auto simp: bread_post_def)
  have b: "b \<notin> M" "b \<in> busy_bufs u"
    using p u(1) bio_invD(5) [OF inv(1)] by auto
  obtain v where v: "brelse b u = Inr ((), v)" "bio_inv M v" "busy_bufs v = busy_bufs u - {b}" "disk v = disk u"
    "\<forall>c. c \<noteq> b \<longrightarrow> bufs v ! c = bufs u ! c" "bio_frame u v"
    using brelse_ok [OF u(4) b(2,1)] by blast
  have "busy_bufs v = busy_bufs s" using v(3) u(1) p by auto
  moreover have "bufs v ! c = bufs s ! c" if "c \<in> busy_bufs s" for c
  proof -
    have "c \<noteq> b" using that p(1) by auto
    then show ?thesis using that v(5) u(2) p(4) by simp
  qed
  moreover have "bio_frame s v" using p(3) u(3) v(6) by (blast intro: bio_frame_trans)
  ultimately show ?thesis using v by (auto simp: same_held_def)
qed

lemma poke_bwrite_ok:
  assumes inv: "bio_inv M s" and b: "b \<in> busy_bufs s" "b \<notin> M" "bkey (bufs s ! b) = (dev, sector)"
  shows "\<exists>t. kbind (poke b v) (\<lambda>_. bwrite b) s = Inr ((), t) \<and> bio_inv M t \<and> busy_bufs t = busy_bufs s
     \<and> disk t = upd_disk dev sector v (disk s) \<and> (\<forall>c. c \<noteq> b \<longrightarrow> bufs t ! c = bufs s ! c) \<and> bio_frame s t"
proof -
  obtain t where t: "poke b v s = Inr ((), t)" "bio_inv (insert b M) t" "busy_bufs t = busy_bufs s" "disk t = disk s"
    "bufs t ! b = (bufs s ! b)\<lparr>bdata := v\<rparr>" "\<forall>c. c \<noteq> b \<longrightarrow> bufs t ! c = bufs s ! c" "bio_frame s t"
    using poke_ok [OF inv b(1)] by blast
  have k: "bkey (bufs t ! b) = (dev, sector)" using t(5) b(3) by (simp add: bkey_def)
  obtain u where u: "bwrite b t = Inr ((), u)" "bio_inv (insert b M - {b}) u" "busy_bufs u = busy_bufs t"
    "disk u = (disk t)(dev := (disk t dev)(sector := bdata (bufs t ! b)))" "bufs u = bufs t" "bio_frame t u"
    using bwrite_ok [OF t(2) _ k] b(1) t(3) by blast
  have "insert b M - {b} = M" using b(2) by auto
  with t u show ?thesis by (auto simp: upd_disk_def intro: bio_frame_trans)
qed

text \<open>
  \<open>bready\<close>: what an operation that uses the blocks \<open>A\<close> of a device needs. \<open>bread_use\<close> is
  the whole life of a buffer at once: whatever the holder decides after looking at
  the data, releasing it leaves the disk alone and writing it back changes one block.
\<close>

definition bready :: "nat set \<Rightarrow> u32 \<Rightarrow> u32 set \<Rightarrow> 'z bio_st_scheme \<Rightarrow> bool" where
  "bready M dev A s \<longleftrightarrow> bio_inv M s \<and> card (busy_bufs s) < NBUF \<and> dev \<noteq> -1 \<and> (\<forall>a \<in> A. \<not> held s dev a)"

lemma bready_same: "bready M dev A s \<Longrightarrow> same_held s t \<Longrightarrow> bio_inv M t \<Longrightarrow> bready M dev A t"
  using same_held_held [of s t] by (simp add: bready_def) (simp add: same_held_def)

lemma bready_mono: "bready M dev A s \<Longrightarrow> B \<subseteq> A \<Longrightarrow> bready M dev B s"
  by (auto simp: bready_def)

lemma bread_use:
  assumes r: "bready M dev A s" "a \<in> A"
  shows "\<exists>b t. bread dev a s = Inr (b, t) \<and> bread_post M dev a s b t \<and> bdata (bufs t ! b) = disk s dev a
     \<and> (\<exists>u. brelse b t = Inr ((), u) \<and> bready M dev A u \<and> same_held s u \<and> disk u = disk s)
     \<and> (\<forall>v. \<exists>u. kbind (poke b v) (\<lambda>_. kbind (bwrite b) (\<lambda>_. brelse b)) t = Inr ((), u) \<and> bready M dev A u \<and> same_held s u
            \<and> disk u = upd_disk dev a v (disk s))"
proof -
  have inv: "bio_inv M s" "card (busy_bufs s) < NBUF" "\<not> held s dev a" "dev \<noteq> -1"
    using r by (auto simp: bready_def)
  obtain b t where b: "bread dev a s = Inr (b, t)" and p: "bread_post M dev a s b t"
    using bread_ok [OF inv] by blast
  then have q: "bio_inv M t" "bdata (bufs t ! b) = disk s dev a" "disk t = disk s" "b \<in> busy_bufs t"
    "bkey (bufs t ! b) = (dev, a)" "b \<notin> M"
    using bio_invD(5) [OF inv(1)] by (auto simp: bread_post_def)
  have "\<exists>u. brelse b t = Inr ((), u) \<and> bready M dev A u \<and> same_held s u \<and> disk u = disk s"
    using bread_release [OF inv(1) p refl refl bio_frame_refl q(1)] bready_same [OF r(1)] q(3) by auto
  moreover have "\<exists>u. kbind (poke b v) (\<lambda>_. kbind (bwrite b) (\<lambda>_. brelse b)) t = Inr ((), u) \<and> bready M dev A u \<and> same_held s u
            \<and> disk u = upd_disk dev a v (disk s)" for v
  proof -
    obtain u where u: "kbind (poke b v) (\<lambda>_. bwrite b) t = Inr ((), u)" "bio_inv M u" "busy_bufs u = busy_bufs t"
      "disk u = upd_disk dev a v (disk t)" "\<forall>c. c \<noteq> b \<longrightarrow> bufs u ! c = bufs t ! c" "bio_frame t u"
      using poke_bwrite_ok [OF q(1,4,6,5)] by blast
    obtain w where w: "brelse b u = Inr ((), w)" "bio_inv M w" "same_held s w" "disk w = disk u"
      using bread_release [OF inv(1) p u(3) _ u(6,2)] u(5) by blast
    have "kbind (poke b v) (\<lambda>_. kbind (bwrite b) (\<lambda>_. brelse b)) t = Inr ((), w)"
      using u(1) w(1) by (subst kbind_assoc [symmetric]) simp
    then show ?thesis using w u(4) q(3) bready_same [OF r(1) w(3,2)] by auto
  qed
  ultimately show ?thesis using b p q(2) by blast
qed

text \<open>The same with a continuation after the release.\<close>

lemma poke_bwrite_brelse:
  assumes "kbind (poke b v) (\<lambda>_. kbind (bwrite b) (\<lambda>_. brelse b)) t = Inr ((), u)"
  shows "kbind (poke b v) (\<lambda>_. kbind (bwrite b) (\<lambda>_. kbind (brelse b) K)) t = K () u"
proof -
  have "kbind (poke b v) (\<lambda>_. kbind (bwrite b) (\<lambda>_. kbind (brelse b) K))
      = kbind (kbind (poke b v) (\<lambda>_. kbind (bwrite b) (\<lambda>_. brelse b))) K"
    by (simp add: kbind_assoc)
  then show ?thesis using assms by simp
qed

lemma rd_block_ok:
  assumes "bio_inv M s" "card (busy_bufs s) < NBUF" "\<not> held s dev sector" "dev \<noteq> -1"
  shows "\<exists>t. rd_block dev sector s = Inr (disk s dev sector, t) \<and> bio_inv M t \<and> same_held s t \<and> disk t = disk s"
proof -
  have "bready M dev {sector} s" using assms by (simp add: bready_def)
  from bread_use [OF this, of sector] obtain b t u where "bread dev sector s = Inr (b, t)"
    "bdata (bufs t ! b) = disk s dev sector" "brelse b t = Inr ((), u)" "bready M dev {sector} u" "same_held s u" "disk u = disk s"
    by blast
  then show ?thesis by (auto simp: rd_block_def bready_def)
qed

lemma wr_block_ok:
  assumes "bio_inv M s" "card (busy_bufs s) < NBUF" "\<not> held s dev sector" "dev \<noteq> -1"
  shows "\<exists>t. wr_block dev sector f s = Inr ((), t) \<and> bio_inv M t \<and> same_held s t
     \<and> disk t = upd_disk dev sector (f (disk s dev sector)) (disk s)"
proof -
  have "bready M dev {sector} s" using assms by (simp add: bready_def)
  from bread_use [OF this, of sector] obtain b t where b: "bread dev sector s = Inr (b, t)"
    "bdata (bufs t ! b) = disk s dev sector"
    and w: "\<forall>v. \<exists>u. kbind (poke b v) (\<lambda>_. kbind (bwrite b) (\<lambda>_. brelse b)) t = Inr ((), u) \<and> bready M dev {sector} u
      \<and> same_held s u \<and> disk u = upd_disk dev sector v (disk s)"
    by blast
  obtain u where "kbind (poke b (f (bdata (bufs t ! b)))) (\<lambda>_. kbind (bwrite b) (\<lambda>_. brelse b)) t = Inr ((), u)"
    "bready M dev {sector} u" "same_held s u" "disk u = upd_disk dev sector (f (bdata (bufs t ! b))) (disk s)"
    using w by blast
  then show ?thesis using b by (auto simp: wr_block_def bready_def)
qed

section \<open>The cache as a store of blocks\<close>

text \<open>What the file system relies on: reading a block returns what was last written
  there, writing one changes no other, and neither fails.\<close>

locale block_store =
  fixes inv :: "'s \<Rightarrow> bool" and blk :: "'s \<Rightarrow> u32 \<Rightarrow> u32 \<Rightarrow> u8 list"
    and rd :: "u32 \<Rightarrow> u32 \<Rightarrow> ('s, u8 list) kop" and wr :: "u32 \<Rightarrow> u32 \<Rightarrow> (u8 list \<Rightarrow> u8 list) \<Rightarrow> ('s, unit) kop"
  assumes rd_law: "inv s \<Longrightarrow> dev \<noteq> -1 \<Longrightarrow> \<exists>t. rd dev sector s = Inr (blk s dev sector, t) \<and> inv t \<and> blk t = blk s"
    and wr_law: "inv s \<Longrightarrow> dev \<noteq> -1 \<Longrightarrow>
      \<exists>t. wr dev sector f s = Inr ((), t) \<and> inv t \<and> blk t = upd_disk dev sector (f (blk s dev sector)) (blk s)"

text \<open>A client is a sequence of reads and writes; its run on the bare disk is the
  specification.\<close>

datatype block_op = RdOp u32 u32 | WrOp u32 u32 "u8 list \<Rightarrow> u8 list"

primrec op_dev :: "block_op \<Rightarrow> u32" where
  "op_dev (RdOp d n) = d"
| "op_dev (WrOp d n f) = d"

fun run_disk :: "block_op list \<Rightarrow> (u32 \<Rightarrow> u32 \<Rightarrow> u8 list) \<Rightarrow> u8 list list \<times> (u32 \<Rightarrow> u32 \<Rightarrow> u8 list)" where
  "run_disk [] d = ([], d)"
| "run_disk (RdOp dev n # xs) d = (let (ys, e) = run_disk xs d in (d dev n # ys, e))"
| "run_disk (WrOp dev n f # xs) d = run_disk xs (upd_disk dev n (f (d dev n)) d)"

fun run_ops :: "(u32 \<Rightarrow> u32 \<Rightarrow> ('s, u8 list) kop) \<Rightarrow> (u32 \<Rightarrow> u32 \<Rightarrow> (u8 list \<Rightarrow> u8 list) \<Rightarrow> ('s, unit) kop)
    \<Rightarrow> block_op list \<Rightarrow> ('s, u8 list list) kop" where
  "run_ops rd wr [] = kret []"
| "run_ops rd wr (RdOp dev n # xs) = kbind (rd dev n) (\<lambda>v. kbind (run_ops rd wr xs) (\<lambda>vs. kret (v # vs)))"
| "run_ops rd wr (WrOp dev n f # xs) = kbind (wr dev n f) (\<lambda>_. run_ops rd wr xs)"

context block_store
begin

lemma run_ops_refines:
  "inv s \<Longrightarrow> (\<forall>x \<in> set xs. op_dev x \<noteq> -1) \<Longrightarrow>
   \<exists>t. run_ops rd wr xs s = Inr (fst (run_disk xs (blk s)), t) \<and> inv t \<and> blk t = snd (run_disk xs (blk s))"
proof (induction xs arbitrary: s)
  case Nil
  then show ?case by simp
next
  case (Cons x xs)
  show ?case
  proof (cases x)
    case (RdOp dev n)
    obtain t where t: "rd dev n s = Inr (blk s dev n, t)" "inv t" "blk t = blk s"
      using rd_law [OF Cons.prems(1)] Cons.prems(2) RdOp by fastforce
    obtain u where "run_ops rd wr xs t = Inr (fst (run_disk xs (blk t)), u)" "inv u" "blk u = snd (run_disk xs (blk t))"
      using Cons.IH [OF t(2)] Cons.prems(2) by auto
    then show ?thesis using t RdOp by (simp add: split_beta Let_def)
  next
    case (WrOp dev n f)
    obtain t where t: "wr dev n f s = Inr ((), t)" "inv t" "blk t = upd_disk dev n (f (blk s dev n)) (blk s)"
      using wr_law [OF Cons.prems(1)] Cons.prems(2) WrOp by fastforce
    obtain u where "run_ops rd wr xs t = Inr (fst (run_disk xs (blk t)), u)" "inv u" "blk u = snd (run_disk xs (blk t))"
      using Cons.IH [OF t(2)] Cons.prems(2) by auto
    then show ?thesis using t WrOp by simp
  qed
qed

end

text \<open>\<open>quiet\<close>: the invariant holds and nobody holds a buffer.\<close>

definition quiet :: "'z bio_st_scheme \<Rightarrow> bool" where
  "quiet s \<longleftrightarrow> bio_inv {} s \<and> busy_bufs s = {}"

lemma quietD: "quiet s \<Longrightarrow> bio_inv {} s \<and> card (busy_bufs s) < NBUF \<and> \<not> held s dev sector"
  by (simp add: quiet_def NBUF_def held_def)

lemma quiet_rd: "quiet s \<Longrightarrow> dev \<noteq> -1 \<Longrightarrow>
    \<exists>t. rd_block dev sector s = Inr (disk s dev sector, t) \<and> quiet t \<and> disk t = disk s \<and> bio_frame s t"
  using rd_block_ok [of "{}" s dev sector] quietD [of s dev sector] by (auto simp: quiet_def same_held_def)

lemma quiet_wr: "quiet s \<Longrightarrow> dev \<noteq> -1 \<Longrightarrow>
    \<exists>t. wr_block dev sector f s = Inr ((), t) \<and> quiet t \<and> disk t = upd_disk dev sector (f (disk s dev sector)) (disk s)
      \<and> bio_frame s t"
  using wr_block_ok [of "{}" s dev sector f] quietD [of s dev sector] by (auto simp: quiet_def same_held_def)

interpretation bcache: block_store quiet disk rd_block wr_block
  by unfold_locales (use quiet_rd quiet_wr in blast)+

section \<open>Properties\<close>

text \<open>
  C8. The buffer cache refines the disk. From a state in which nobody holds a buffer,
  every sequence of block reads and read-modify-writes through the ten buffers
  returns exactly what it would return on the bare disk, leaves the disk as it would,
  never panics or sleeps, and ends with no buffer held and the cache coherent.
\<close>

theorem cache_refines_disk:
  assumes "quiet s" "\<forall>x \<in> set xs. op_dev x \<noteq> -1"
  shows "\<exists>t. run_ops rd_block wr_block xs s = Inr (fst (run_disk xs (disk s)), t)
           \<and> disk t = snd (run_disk xs (disk s)) \<and> quiet t"
  using bcache.run_ops_refines [OF assms] by blast

definition bio_example :: bio_st where
  "bio_example = proc_st.extend mlfq_example
     \<lparr>bufs = replicate 10 \<lparr>bbusy = False, bvalid = False, bdirty = False, bdev = -1, bsector = 0, bdata = []\<rparr>,
      lru = [9, 8, 7, 6, 5, 4, 3, 2, 1, 0], disk = (\<lambda>d n. [ucast d, ucast n]), havedisk1 = True\<rparr>"

lemma bio_example_sel [simp]:
  "bufs bio_example = replicate 10 \<lparr>bbusy = False, bvalid = False, bdirty = False, bdev = -1, bsector = 0, bdata = []\<rparr>"
  "lru bio_example = [9, 8, 7, 6, 5, 4, 3, 2, 1, 0]" "disk bio_example = (\<lambda>d n. [ucast d, ucast n])" "havedisk1 bio_example"
  by (simp_all add: bio_example_def proc_st.defs mlfq_example_def)

lemma bio_example_quiet: "quiet bio_example"
proof -
  have "set [9, 8, 7, 6, 5, 4, 3, 2, 1, 0] = {..<10 :: nat}" by (simp add: lessThan_nat_numeral lessThan_Suc pred_numeral_simps)
  then show ?thesis
    by (auto simp: quiet_def bio_inv_def busy_bufs_def NBUF_def)
qed

theorem cache_refines_disk_witness:
  "\<exists>t. run_ops rd_block wr_block [RdOp 1 7, WrOp 1 7 (\<lambda>v. 5 # v), RdOp 1 7] bio_example
     = Inr ([[1, 7], [5, 1, 7]], t) \<and> quiet t"
  using cache_refines_disk [OF bio_example_quiet, of "[RdOp 1 7, WrOp 1 7 (\<lambda>v. 5 # v), RdOp 1 7]"]
  by (auto simp: upd_disk_def simp del: run_ops.simps)

end
