(* ===== verification/Layout.thy ===== *)
theory Layout
  imports Prelude
begin

text \<open>
  The on-disk format of \<open>include/fs.h\<close>: the superblock, the 64-byte inode, the 16-byte
  directory entry, and the positions of inodes and bitmap bits. A block is a list of
  bytes, numbers are stored least significant byte first. The kernel, \<open>mkfs\<close> and the
  checker share these definitions.
\<close>

section \<open>Numbers in a block\<close>

definition get16 :: "u8 list \<Rightarrow> nat \<Rightarrow> u16" where
  "get16 bs i = ucast (bs ! i) OR push_bit 8 (ucast (bs ! (i + 1)))"

definition put16 :: "u8 list \<Rightarrow> nat \<Rightarrow> u16 \<Rightarrow> u8 list" where
  "put16 bs i v = bs[i := ucast v, i + 1 := ucast (drop_bit 8 v)]"

definition get32 :: "u8 list \<Rightarrow> nat \<Rightarrow> u32" where
  "get32 bs i = ucast (bs ! i) OR push_bit 8 (ucast (bs ! (i + 1)))
     OR push_bit 16 (ucast (bs ! (i + 2))) OR push_bit 24 (ucast (bs ! (i + 3)))"

definition put32 :: "u8 list \<Rightarrow> nat \<Rightarrow> u32 \<Rightarrow> u8 list" where
  "put32 bs i v = bs[i := ucast v, i + 1 := ucast (drop_bit 8 v),
     i + 2 := ucast (drop_bit 16 v), i + 3 := ucast (drop_bit 24 v)]"

text \<open>\<open>n\<close> consecutive words, as an array member of a structure.\<close>

definition get32s :: "u8 list \<Rightarrow> nat \<Rightarrow> nat \<Rightarrow> u32 list" where
  "get32s bs i n = map (\<lambda>k. get32 bs (i + 4 * k)) [0..<n]"

primrec put32s :: "u8 list \<Rightarrow> nat \<Rightarrow> u32 list \<Rightarrow> u8 list" where
  "put32s bs i [] = bs"
| "put32s bs i (v # vs) = put32s (put32 bs i v) (i + 4) vs"

text \<open>\<open>memmove\<close> of \<open>vs\<close> into the block at offset \<open>i\<close>.\<close>

definition put_bytes :: "u8 list \<Rightarrow> nat \<Rightarrow> u8 list \<Rightarrow> u8 list" where
  "put_bytes bs i vs = take i bs @ vs @ drop (i + length vs) bs"

section \<open>Structures\<close>

definition BSIZE :: nat where "BSIZE = 512"
definition ROOTINO :: u32 where "ROOTINO = 1"
definition NDIRECT :: nat where "NDIRECT = 12"
definition NINDIRECT :: nat where "NINDIRECT = 128"
definition MAXFILE :: nat where "MAXFILE = NDIRECT + NINDIRECT"
definition DINODE_SIZE :: nat where "DINODE_SIZE = 64"
definition IPB :: nat where "IPB = 8"
definition BPB :: nat where "BPB = 4096"
definition DIRSIZ :: nat where "DIRSIZ = 14"
definition DIRENT_SIZE :: nat where "DIRENT_SIZE = 16"

definition T_DIR :: u16 where "T_DIR = 1"
definition T_FILE :: u16 where "T_FILE = 2"
definition T_DEV :: u16 where "T_DEV = 3"

record superblock =
  sb_size :: u32
  sb_nblocks :: u32
  sb_ninodes :: u32

record dinode =
  d_type :: u16
  d_major :: u16
  d_minor :: u16
  d_nlink :: u16
  d_size :: u32
  d_addrs :: "u32 list"

record dirent =
  de_inum :: u16
  de_name :: "u8 list"

definition get_sb :: "u8 list \<Rightarrow> superblock" where
  "get_sb bs = \<lparr>sb_size = get32 bs 0, sb_nblocks = get32 bs 4, sb_ninodes = get32 bs 8\<rparr>"

definition put_sb :: "u8 list \<Rightarrow> superblock \<Rightarrow> u8 list" where
  "put_sb bs sb = put32 (put32 (put32 bs 0 (sb_size sb)) 4 (sb_nblocks sb)) 8 (sb_ninodes sb)"

text \<open>\<open>i\<close> is the byte offset of the inode in its block.\<close>

definition get_dinode :: "u8 list \<Rightarrow> nat \<Rightarrow> dinode" where
  "get_dinode bs i = \<lparr>d_type = get16 bs i, d_major = get16 bs (i + 2), d_minor = get16 bs (i + 4),
     d_nlink = get16 bs (i + 6), d_size = get32 bs (i + 8), d_addrs = get32s bs (i + 12) (NDIRECT + 1)\<rparr>"

definition put_dinode :: "u8 list \<Rightarrow> nat \<Rightarrow> dinode \<Rightarrow> u8 list" where
  "put_dinode bs i d =
     put32s (put32 (put16 (put16 (put16 (put16 bs i (d_type d)) (i + 2) (d_major d)) (i + 4) (d_minor d))
       (i + 6) (d_nlink d)) (i + 8) (d_size d)) (i + 12) (d_addrs d)"

definition get_dirent :: "u8 list \<Rightarrow> nat \<Rightarrow> dirent" where
  "get_dirent bs i = \<lparr>de_inum = get16 bs i, de_name = take DIRSIZ (drop (i + 2) bs)\<rparr>"

definition put_dirent :: "dirent \<Rightarrow> u8 list" where
  "put_dirent de = [ucast (de_inum de), ucast (drop_bit 8 (de_inum de))] @ de_name de"

text \<open>The block that holds inode \<open>i\<close>, and the block that holds the bit of block \<open>b\<close>.\<close>

definition IBLOCK :: "u32 \<Rightarrow> u32" where
  "IBLOCK i = i div of_nat IPB + 2"

definition BBLOCK :: "u32 \<Rightarrow> u32 \<Rightarrow> u32" where
  "BBLOCK b ninodes = b div of_nat BPB + ninodes div of_nat IPB + 3"

text \<open>Bit \<open>n\<close> of a block of the bitmap.\<close>

definition bm_get :: "u8 list \<Rightarrow> nat \<Rightarrow> bool" where
  "bm_get bs n = bit (bs ! (n div 8)) (n mod 8)"

definition bm_put :: "u8 list \<Rightarrow> nat \<Rightarrow> bool \<Rightarrow> u8 list" where
  "bm_put bs n v = bs[n div 8 := (if v then bs ! (n div 8) OR push_bit (n mod 8) 1
                                  else bs ! (n div 8) AND NOT (push_bit (n mod 8) 1))]"

section \<open>Reads after writes\<close>

lemma length_puts [simp]:
  "length (put16 bs i v) = length bs" "length (put32 bs i w) = length bs" "length (bm_put bs n b) = length bs"
  by (simp_all add: put16_def put32_def bm_put_def)

lemma length_put32s [simp]: "length (put32s bs i vs) = length bs"
  by (induction vs arbitrary: bs i) simp_all

lemma length_get32s [simp]: "length (get32s bs i n) = n"
  by (simp add: get32s_def)

lemma length_put_dinode [simp]: "length (put_dinode bs i d) = length bs"
  by (simp add: put_dinode_def)

lemma put_nth:
  "i + 1 < length bs \<Longrightarrow> put16 bs i v ! k = (if k = i then ucast v else if k = i + 1 then ucast (drop_bit 8 v) else bs ! k)"
  "i + 3 < length bs \<Longrightarrow> put32 bs i w ! k = (if k = i then ucast w else if k = i + 1 then ucast (drop_bit 8 w)
     else if k = i + 2 then ucast (drop_bit 16 w) else if k = i + 3 then ucast (drop_bit 24 w) else bs ! k)"
  by (auto simp: put16_def put32_def nth_list_update)

lemma split16: "(ucast (ucast v :: u8) OR push_bit 8 (ucast (ucast (drop_bit 8 v) :: u8)) :: u16) = v"
proof (rule bit_word_eqI)
  fix n assume "n < LENGTH(16)"
  then have n: "n < 16" by simp
  consider "n < 8" | "8 \<le> n" by linarith
  then show "bit (ucast (ucast v :: u8) OR push_bit 8 (ucast (ucast (drop_bit 8 v) :: u8)) :: u16) n = bit v n"
    by cases (use n in \<open>auto simp: bit_or_iff bit_push_bit_iff bit_ucast_iff bit_drop_bit_eq\<close>)
qed

lemma split32:
  "(ucast (ucast v :: u8) OR push_bit 8 (ucast (ucast (drop_bit 8 v) :: u8))
     OR push_bit 16 (ucast (ucast (drop_bit 16 v) :: u8)) OR push_bit 24 (ucast (ucast (drop_bit 24 v) :: u8)) :: u32) = v"
  using load32_store32_same [of undefined 0 v] by (simp add: load32_def store32_def)

lemma get16_put16 [simp]: "i + 1 < length bs \<Longrightarrow> get16 (put16 bs i v) i = v"
  by (simp add: get16_def put_nth split16)

lemma get32_put32 [simp]: "i + 3 < length bs \<Longrightarrow> get32 (put32 bs i v) i = v"
  by (simp add: get32_def put_nth split32)

lemma get_put_other:
  "i + 1 < length bs \<Longrightarrow> j + 1 < i \<or> i + 1 < j \<Longrightarrow> get16 (put16 bs i v) j = get16 bs j"
  "i + 1 < length bs \<Longrightarrow> j + 3 < i \<or> i + 1 < j \<Longrightarrow> get32 (put16 bs i v) j = get32 bs j"
  "i + 3 < length bs \<Longrightarrow> j + 1 < i \<or> i + 3 < j \<Longrightarrow> get16 (put32 bs i w) j = get16 bs j"
  "i + 3 < length bs \<Longrightarrow> j + 3 < i \<or> i + 3 < j \<Longrightarrow> get32 (put32 bs i w) j = get32 bs j"
  by (auto simp: get16_def get32_def put_nth)

lemma get_put32s_other:
  "i + 4 * length vs \<le> length bs \<Longrightarrow> j + 1 < i \<or> i + 4 * length vs \<le> j \<Longrightarrow> get16 (put32s bs i vs) j = get16 bs j"
  "i + 4 * length vs \<le> length bs \<Longrightarrow> j + 3 < i \<or> i + 4 * length vs \<le> j \<Longrightarrow> get32 (put32s bs i vs) j = get32 bs j"
  by (induction vs arbitrary: bs i) (auto simp: get_put_other)

lemma get32_put32s:
  "i + 4 * length vs \<le> length bs \<Longrightarrow> k < length vs \<Longrightarrow> get32 (put32s bs i vs) (i + 4 * k) = vs ! k"
proof (induction vs arbitrary: bs i k)
  case Nil
  then show ?case by simp
next
  case (Cons v vs)
  show ?case
  proof (cases k)
    case 0
    then show ?thesis using Cons.prems by (simp add: get_put32s_other)
  next
    case (Suc l)
    then show ?thesis using Cons.IH [of "i + 4" "put32 bs i v" l] Cons.prems by (simp add: algebra_simps)
  qed
qed

lemma get32s_put32s:
  "i + 4 * length vs \<le> length bs \<Longrightarrow> n = length vs \<Longrightarrow> get32s (put32s bs i vs) i n = vs"
  by (rule nth_equalityI) (simp_all add: get32s_def get32_put32s)

lemma get32s_other:
  "i + 4 * length vs \<le> length bs \<Longrightarrow> j + 4 * n \<le> i \<or> i + 4 * length vs \<le> j \<Longrightarrow> get32s (put32s bs i vs) j n = get32s bs j n"
  "i + 1 < length bs \<Longrightarrow> j + 4 * n \<le> i \<or> i + 1 < j \<Longrightarrow> get32s (put16 bs i u) j n = get32s bs j n"
  "i + 3 < length bs \<Longrightarrow> j + 4 * n \<le> i \<or> i + 3 < j \<Longrightarrow> get32s (put32 bs i w) j n = get32s bs j n"
  by (auto simp: get32s_def get_put32s_other get_put_other)

text \<open>An inode that is written is read back, and no other inode of the block changes.\<close>

lemma get_put_dinode:
  assumes "i + DINODE_SIZE \<le> length bs" "length (d_addrs d) = NDIRECT + 1"
  shows "get_dinode (put_dinode bs i d) i = d"
  using assms
  by (cases d) (simp add: get_dinode_def put_dinode_def get_put32s_other get_put_other get32s_put32s DINODE_SIZE_def NDIRECT_def)

lemma get_put_dinode_other:
  assumes "i + DINODE_SIZE \<le> length bs" "length (d_addrs d) = NDIRECT + 1" "j + DINODE_SIZE \<le> i \<or> i + DINODE_SIZE \<le> j"
  shows "get_dinode (put_dinode bs i d) j = get_dinode bs j"
  using assms
  by (auto simp: get_dinode_def put_dinode_def get_put32s_other get_put_other get32s_other DINODE_SIZE_def NDIRECT_def)

lemma get_put_sb: "12 \<le> length bs \<Longrightarrow> get_sb (put_sb bs sb) = sb"
  by (simp add: get_sb_def put_sb_def get_put_other)

lemma length_put_dirent [simp]: "length (de_name de) = DIRSIZ \<Longrightarrow> length (put_dirent de) = DIRENT_SIZE"
  by (simp add: put_dirent_def DIRSIZ_def DIRENT_SIZE_def)

lemma get_put_dirent: "length (de_name de) = DIRSIZ \<Longrightarrow> get_dirent (put_dirent de @ rest) 0 = de"
  by (cases de) (simp add: get_dirent_def put_dirent_def get16_def split16)

lemma length_put_bytes [simp]: "i + length vs \<le> length bs \<Longrightarrow> length (put_bytes bs i vs) = length bs"
  by (simp add: put_bytes_def)

lemma put_bytes_nth:
  "i + length vs \<le> length bs \<Longrightarrow> k < length bs \<Longrightarrow> put_bytes bs i vs ! k = (if k < i then bs ! k else if k < i + length vs then vs ! (k - i) else bs ! k)"
  by (auto simp: put_bytes_def nth_append min_def)

lemma bm_get_put:
  assumes "n div 8 < length bs"
  shows "bm_get (bm_put bs n v) m = (if m = n then v else bm_get bs m)"
proof -
  have e: "m div 8 = n div 8 \<Longrightarrow> m mod 8 = n mod 8 \<Longrightarrow> m = n" by (metis div_mult_mod_eq)
  have l: "m mod 8 < 8" "n mod 8 < 8" by simp_all
  show ?thesis
  proof (cases "m div 8 = n div 8")
    case False
    then show ?thesis using assms by (auto simp: bm_get_def bm_put_def nth_list_update)
  next
    case True
    have b: "bit (push_bit (n mod 8) (1 :: u8)) (m mod 8) \<longleftrightarrow> m mod 8 = n mod 8"
      using l by (auto simp: bit_exp_iff)
    show ?thesis
      using True assms e b l by (auto simp: bm_get_def bm_put_def bit_or_iff bit_and_iff bit_not_iff)
  qed
qed

end
