(* ===== verification/Fs.thy ===== *)
theory Fs
  imports Bio Layout Kstring
begin

text \<open>
  The file system of \<open>kernel/fs.c\<close> on top of the buffer cache: block allocation in the
  bitmap, inodes and their cache, the contents of files, directories and path names.
  An inode pointer is an index of \<open>icache.inode\<close>. Bytes copied to or from the caller's
  buffer are lists: \<open>readi\<close> returns the bytes it stores through \<open>dst\<close>, \<open>writei\<close> takes the
  bytes at \<open>src\<close>. The table \<open>devsw\<close> of device functions is an argument. Waiting for a
  busy inode or buffer is the outcome \<open>Sleep\<close>.
\<close>

section \<open>State\<close>

definition NINODE :: nat where "NINODE = 50"
definition NDEV :: nat where "NDEV = 10"
definition ROOTDEV :: u32 where "ROOTDEV = 1"

record inode =
  idev :: u32
  inum :: u32
  iref :: int
  ibusy :: bool
  ivalid :: bool
  itype :: u16
  imajor :: u16
  iminor :: u16
  inlink :: u16
  isize :: u32
  iaddrs :: "u32 list"

record fs_st = bio_st +
  icache :: "inode list"

record stat =
  st_type :: u16
  st_dev :: u32
  st_ino :: u32
  st_nlink :: u16
  st_size :: u32

definition upd_inode :: "nat \<Rightarrow> (inode \<Rightarrow> inode) \<Rightarrow> ('z fs_st_scheme, unit) kop" where
  "upd_inode i f = kmod (\<lambda>s. s\<lparr>icache := (icache s)[i := f (icache s ! i)]\<rparr>)"

definition get_inode :: "nat \<Rightarrow> ('z fs_st_scheme, inode) kop" where
  "get_inode i = kget (\<lambda>s. icache s ! i)"

section \<open>Blocks\<close>

definition readsb :: "u32 \<Rightarrow> ('z fs_st_scheme, superblock) kop" where
  "readsb dev =
     kbind (bread dev 1) (\<lambda>bp.
     kbind (get_buf bp) (\<lambda>x.
     kbind (brelse bp) (\<lambda>_.
     kret (get_sb (bdata x)))))"

definition bzero :: "u32 \<Rightarrow> u32 \<Rightarrow> ('z fs_st_scheme, unit) kop" where
  "bzero dev bno =
     kbind (bread dev bno) (\<lambda>bp.
     kbind (poke bp (replicate BSIZE 0)) (\<lambda>_.
     kbind (bwrite bp) (\<lambda>_.
     brelse bp)))"

text \<open>The first bit of a bitmap block that is clear.\<close>

definition free_bit :: "u8 list \<Rightarrow> nat option" where
  "free_bit bs = List.find (\<lambda>bi. \<not> bm_get bs bi) [0..<BPB]"

text \<open>\<open>bs\<close> are the values of \<open>b\<close> still to come; \<open>b\<close> is an \<open>int\<close>, which may not overflow.\<close>

primrec balloc_loop :: "u32 \<Rightarrow> superblock \<Rightarrow> nat list \<Rightarrow> ('z fs_st_scheme, u32) kop" where
  "balloc_loop dev sb [] = kfail (Panic ''balloc: out of blocks'')"
| "balloc_loop dev sb (b # bs) =
     (if b \<ge> 2 ^ 31 then kfail (Undef ''balloc: b'')
      else
      kbind (bread dev (BBLOCK (of_nat b) (sb_ninodes sb))) (\<lambda>bp.
      kbind (get_buf bp) (\<lambda>x.
      case free_bit (bdata x) of
        Some bi \<Rightarrow>
          kbind (poke bp (bm_put (bdata x) bi True)) (\<lambda>_.
          kbind (bwrite bp) (\<lambda>_.
          kbind (brelse bp) (\<lambda>_.
          kret (of_nat (b + bi)))))
      | None \<Rightarrow> kbind (brelse bp) (\<lambda>_. balloc_loop dev sb bs))))"

definition balloc :: "u32 \<Rightarrow> ('z fs_st_scheme, u32) kop" where
  "balloc dev =
     kbind (readsb dev) (\<lambda>sb.
     balloc_loop dev sb (map (\<lambda>k. k * BPB) [0..<(unat (sb_size sb) + BPB - 1) div BPB]))"

definition bfree :: "u32 \<Rightarrow> u32 \<Rightarrow> ('z fs_st_scheme, unit) kop" where
  "bfree dev b =
     kbind (bzero dev b) (\<lambda>_.
     kbind (readsb dev) (\<lambda>sb.
     kbind (bread dev (BBLOCK b (sb_ninodes sb))) (\<lambda>bp.
     kbind (get_buf bp) (\<lambda>x.
     let bi = unat b mod BPB in
     if \<not> bm_get (bdata x) bi then kfail (Panic ''freeing free block'')
     else
     kbind (poke bp (bm_put (bdata x) bi False)) (\<lambda>_.
     kbind (bwrite bp) (\<lambda>_.
     brelse bp))))))"

section \<open>Inodes\<close>

definition iget :: "u32 \<Rightarrow> u32 \<Rightarrow> ('z fs_st_scheme, nat) kop" where
  "iget dev n =
     kbind (kget (\<lambda>s. List.find (\<lambda>i. iref (icache s ! i) > 0 \<and> idev (icache s ! i) = dev \<and> inum (icache s ! i) = n) [0..<NINODE])) (\<lambda>r.
     case r of
       Some ip \<Rightarrow> kbind (upd_inode ip (\<lambda>x. x\<lparr>iref := iref x + 1\<rparr>)) (\<lambda>_. kret ip)
     | None \<Rightarrow>
         kbind (kget (\<lambda>s. List.find (\<lambda>i. iref (icache s ! i) = 0) [0..<NINODE])) (\<lambda>e.
         case e of
           None \<Rightarrow> kfail (Panic ''iget: no inodes'')
         | Some ip \<Rightarrow>
             kbind (upd_inode ip (\<lambda>x. x\<lparr>idev := dev, inum := n, iref := 1, ibusy := False, ivalid := False\<rparr>)) (\<lambda>_.
             kret ip)))"

text \<open>The byte offset of an inode in its block.\<close>

definition ioffset :: "u32 \<Rightarrow> nat" where
  "ioffset n = (unat n mod IPB) * DINODE_SIZE"

primrec ialloc_loop :: "u32 \<Rightarrow> u16 \<Rightarrow> nat list \<Rightarrow> ('z fs_st_scheme, nat) kop" where
  "ialloc_loop dev ty [] = kfail (Panic ''ialloc: no inodes'')"
| "ialloc_loop dev ty (n # ns) =
     (if n \<ge> 2 ^ 31 then kfail (Undef ''ialloc: inum'')
      else
      kbind (bread dev (IBLOCK (of_nat n))) (\<lambda>bp.
      kbind (get_buf bp) (\<lambda>x.
      if d_type (get_dinode (bdata x) (ioffset (of_nat n))) = 0 then
        kbind (poke bp (put16 (put_bytes (bdata x) (ioffset (of_nat n)) (replicate DINODE_SIZE 0)) (ioffset (of_nat n)) ty)) (\<lambda>_.
        kbind (bwrite bp) (\<lambda>_.
        kbind (brelse bp) (\<lambda>_.
        iget dev (of_nat n))))
      else kbind (brelse bp) (\<lambda>_. ialloc_loop dev ty ns))))"

definition ialloc :: "u32 \<Rightarrow> u16 \<Rightarrow> ('z fs_st_scheme, nat) kop" where
  "ialloc dev ty = kbind (readsb dev) (\<lambda>sb. ialloc_loop dev ty [1..<unat (sb_ninodes sb)])"

definition iupdate :: "nat \<Rightarrow> ('z fs_st_scheme, unit) kop" where
  "iupdate ip =
     kbind (get_inode ip) (\<lambda>i.
     kbind (bread (idev i) (IBLOCK (inum i))) (\<lambda>bp.
     kbind (get_buf bp) (\<lambda>x.
     kbind (poke bp (put_dinode (bdata x) (ioffset (inum i))
       \<lparr>d_type = itype i, d_major = imajor i, d_minor = iminor i, d_nlink = inlink i, d_size = isize i, d_addrs = iaddrs i\<rparr>)) (\<lambda>_.
     kbind (bwrite bp) (\<lambda>_.
     brelse bp)))))"

definition idup :: "nat \<Rightarrow> ('z fs_st_scheme, nat) kop" where
  "idup ip = kbind (upd_inode ip (\<lambda>x. x\<lparr>iref := iref x + 1\<rparr>)) (\<lambda>_. kret ip)"

definition ilock :: "nat \<Rightarrow> ('z fs_st_scheme, unit) kop" where
  "ilock ip =
     kbind (get_inode ip) (\<lambda>i.
     if iref i < 1 then kfail (Panic ''ilock'')
     else if ibusy i then kfail (Sleep (ChInode ip))
     else
     kbind (upd_inode ip (\<lambda>x. x\<lparr>ibusy := True\<rparr>)) (\<lambda>_.
     if ivalid i then kret ()
     else
     kbind (bread (idev i) (IBLOCK (inum i))) (\<lambda>bp.
     kbind (get_buf bp) (\<lambda>x.
     let d = get_dinode (bdata x) (ioffset (inum i)) in
     kbind (upd_inode ip (\<lambda>x. x\<lparr>itype := d_type d, imajor := d_major d, iminor := d_minor d,
                               inlink := d_nlink d, isize := d_size d, iaddrs := d_addrs d\<rparr>)) (\<lambda>_.
     kbind (brelse bp) (\<lambda>_.
     kbind (upd_inode ip (\<lambda>x. x\<lparr>ivalid := True\<rparr>)) (\<lambda>_.
     if d_type d = 0 then kfail (Panic ''ilock: no type'') else kret ())))))))"

definition iunlock :: "nat \<Rightarrow> ('z fs_st_scheme, unit) kop" where
  "iunlock ip =
     kbind (get_inode ip) (\<lambda>i.
     if \<not> ibusy i \<or> iref i < 1 then kfail (Panic ''iunlock'')
     else
     kbind (upd_inode ip (\<lambda>x. x\<lparr>ibusy := False\<rparr>)) (\<lambda>_.
     wakeup (ChInode ip)))"

section \<open>Inode contents\<close>

definition bmap :: "nat \<Rightarrow> u32 \<Rightarrow> ('z fs_st_scheme, u32) kop" where
  "bmap ip bn =
     kbind (get_inode ip) (\<lambda>i.
     if unat bn < NDIRECT then
       (let addr = iaddrs i ! unat bn in
        if addr \<noteq> 0 then kret addr
        else
        kbind (balloc (idev i)) (\<lambda>addr.
        kbind (upd_inode ip (\<lambda>x. x\<lparr>iaddrs := (iaddrs x)[unat bn := addr]\<rparr>)) (\<lambda>_.
        kret addr)))
     else if unat (bn - of_nat NDIRECT) < NINDIRECT then
       kbind (let addr = iaddrs i ! NDIRECT in
              if addr \<noteq> 0 then kret addr
              else
              kbind (balloc (idev i)) (\<lambda>addr.
              kbind (upd_inode ip (\<lambda>x. x\<lparr>iaddrs := (iaddrs x)[NDIRECT := addr]\<rparr>)) (\<lambda>_.
              kret addr))) (\<lambda>addr.
       kbind (bread (idev i) addr) (\<lambda>bp.
       kbind (get_buf bp) (\<lambda>x.
       let k = 4 * unat (bn - of_nat NDIRECT); a = get32 (bdata x) k in
       if a \<noteq> 0 then kbind (brelse bp) (\<lambda>_. kret a)
       else
       kbind (balloc (idev i)) (\<lambda>a.
       kbind (poke bp (put32 (bdata x) k a)) (\<lambda>_.
       kbind (bwrite bp) (\<lambda>_.
       kbind (brelse bp) (\<lambda>_.
       kret a)))))))
     else kfail (Panic ''bmap: out of range''))"

definition itrunc :: "nat \<Rightarrow> ('z fs_st_scheme, unit) kop" where
  "itrunc ip =
     kbind (kfor [0..<NDIRECT] (\<lambda>k.
       kbind (get_inode ip) (\<lambda>i.
       kwhen (iaddrs i ! k \<noteq> 0)
         (kbind (bfree (idev i) (iaddrs i ! k)) (\<lambda>_.
          upd_inode ip (\<lambda>x. x\<lparr>iaddrs := (iaddrs x)[k := 0]\<rparr>)))))) (\<lambda>_.
     kbind (get_inode ip) (\<lambda>i.
     kbind (kwhen (iaddrs i ! NDIRECT \<noteq> 0)
       (kbind (bread (idev i) (iaddrs i ! NDIRECT)) (\<lambda>bp.
        kbind (kfor [0..<NINDIRECT] (\<lambda>j.
          kbind (get_buf bp) (\<lambda>x.
          let a = get32 (bdata x) (4 * j) in kwhen (a \<noteq> 0) (bfree (idev i) a)))) (\<lambda>_.
        kbind (brelse bp) (\<lambda>_.
        kbind (bfree (idev i) (iaddrs i ! NDIRECT)) (\<lambda>_.
        upd_inode ip (\<lambda>x. x\<lparr>iaddrs := (iaddrs x)[NDIRECT := 0]\<rparr>))))))) (\<lambda>_.
     kbind (upd_inode ip (\<lambda>x. x\<lparr>isize := 0\<rparr>)) (\<lambda>_.
     iupdate ip))))"

definition iput :: "nat \<Rightarrow> ('z fs_st_scheme, unit) kop" where
  "iput ip =
     kbind (get_inode ip) (\<lambda>i.
     kbind (if iref i = 1 \<and> ivalid i \<and> inlink i = 0 then
              (if ibusy i then kfail (Panic ''iput busy'')
               else
               kbind (upd_inode ip (\<lambda>x. x\<lparr>ibusy := True\<rparr>)) (\<lambda>_.
               kbind (itrunc ip) (\<lambda>_.
               kbind (upd_inode ip (\<lambda>x. x\<lparr>itype := 0\<rparr>)) (\<lambda>_.
               kbind (iupdate ip) (\<lambda>_.
               kbind (upd_inode ip (\<lambda>x. x\<lparr>ibusy := False, ivalid := False\<rparr>)) (\<lambda>_.
               wakeup (ChInode ip)))))))
            else kret ()) (\<lambda>_.
     upd_inode ip (\<lambda>x. x\<lparr>iref := iref x - 1\<rparr>)))"

definition iunlockput :: "nat \<Rightarrow> ('z fs_st_scheme, unit) kop" where
  "iunlockput ip = kbind (iunlock ip) (\<lambda>_. iput ip)"

definition stati :: "nat \<Rightarrow> ('z fs_st_scheme, stat) kop" where
  "stati ip = kbind (get_inode ip) (\<lambda>i.
     kret \<lparr>st_type = itype i, st_dev = idev i, st_ino = inum i, st_nlink = inlink i, st_size = isize i\<rparr>)"

text \<open>
  The table of device functions, indexed by the major number. A read function takes
  the inode and the number of bytes and gives its result and the bytes stored; a
  write function takes the inode and the bytes.
\<close>

type_synonym 'z devsw = "nat \<Rightarrow>
  (nat \<Rightarrow> u32 \<Rightarrow> ('z fs_st_scheme, int \<times> u8 list) kop) option \<times> (nat \<Rightarrow> u8 list \<Rightarrow> ('z fs_st_scheme, int) kop) option"

text \<open>The number of bytes of one round: to the end of the request or of the block.\<close>

definition chunk :: "nat \<Rightarrow> nat \<Rightarrow> nat" where
  "chunk off n = min n (BSIZE - off mod BSIZE)"

lemma chunk_pos: "0 < n \<Longrightarrow> 0 < chunk off n" "chunk off n \<le> n"
  by (simp_all add: chunk_def BSIZE_def)

text \<open>\<open>n\<close> is what is left to transfer, \<open>n - tot\<close> of the code.\<close>

function readi_loop :: "nat \<Rightarrow> nat \<Rightarrow> nat \<Rightarrow> ('z fs_st_scheme, u8 list) kop" where
  "readi_loop ip off n =
     (if n = 0 then kret []
      else
      kbind (get_inode ip) (\<lambda>i.
      kbind (bmap ip (of_nat (off div BSIZE))) (\<lambda>a.
      kbind (bread (idev i) a) (\<lambda>bp.
      kbind (get_buf bp) (\<lambda>x.
      kbind (brelse bp) (\<lambda>_.
      kbind (readi_loop ip (off + chunk off n) (n - chunk off n)) (\<lambda>rest.
      kret (take (chunk off n) (drop (off mod BSIZE) (bdata x)) @ rest))))))))"
  by pat_completeness auto
termination
  by (relation "measure (\<lambda>(ip, off, n). n)") (use chunk_pos in auto)

definition readi :: "'z devsw \<Rightarrow> nat \<Rightarrow> u32 \<Rightarrow> u32 \<Rightarrow> ('z fs_st_scheme, int \<times> u8 list) kop" where
  "readi dsw ip off n =
     kbind (get_inode ip) (\<lambda>i.
     if itype i = T_DEV then
       (if sint (imajor i) < 0 \<or> sint (imajor i) \<ge> int NDEV then kret (-1, [])
        else case fst (dsw (unat (imajor i))) of None \<Rightarrow> kret (-1, []) | Some rd \<Rightarrow> rd ip n)
     else if off > isize i \<or> off + n < off then kret (-1, [])
     else
     let n' = (if off + n > isize i then isize i - off else n) in
     kbind (readi_loop ip (unat off) (unat n')) (\<lambda>bs.
     kret (sint n', bs)))"

function writei_loop :: "nat \<Rightarrow> nat \<Rightarrow> u8 list \<Rightarrow> ('z fs_st_scheme, unit) kop" where
  "writei_loop ip off src =
     (if src = [] then kret ()
      else
      kbind (get_inode ip) (\<lambda>i.
      kbind (bmap ip (of_nat (off div BSIZE))) (\<lambda>a.
      kbind (bread (idev i) a) (\<lambda>bp.
      kbind (get_buf bp) (\<lambda>x.
      kbind (poke bp (put_bytes (bdata x) (off mod BSIZE) (take (chunk off (length src)) src))) (\<lambda>_.
      kbind (bwrite bp) (\<lambda>_.
      kbind (brelse bp) (\<lambda>_.
      writei_loop ip (off + chunk off (length src)) (drop (chunk off (length src)) src)))))))))"
  by pat_completeness auto
termination
  by (relation "measure (\<lambda>(ip, off, src). length src)") (use chunk_pos in auto)

text \<open>\<open>src\<close> is the memory at \<open>src\<close>, at least \<open>n\<close> bytes where the code uses them.\<close>

definition writei :: "'z devsw \<Rightarrow> nat \<Rightarrow> u8 list \<Rightarrow> u32 \<Rightarrow> u32 \<Rightarrow> ('z fs_st_scheme, int) kop" where
  "writei dsw ip src off n =
     kbind (get_inode ip) (\<lambda>i.
     if itype i = T_DEV then
       (if sint (imajor i) < 0 \<or> sint (imajor i) \<ge> int NDEV then kret (-1)
        else case snd (dsw (unat (imajor i))) of None \<Rightarrow> kret (-1) | Some wr \<Rightarrow> wr ip (take (unat n) src))
     else if off > isize i \<or> off + n < off then kret (-1)
     else
     let n' = (if off + n > of_nat (MAXFILE * BSIZE) then of_nat (MAXFILE * BSIZE) - off else n) in
     if unat n' > length src then kfail (Undef ''writei: src'')
     else
     kbind (writei_loop ip (unat off) (take (unat n') src)) (\<lambda>_.
     kbind (get_inode ip) (\<lambda>i.
     kbind (kwhen (n' > 0 \<and> off + n' > isize i)
              (kbind (upd_inode ip (\<lambda>x. x\<lparr>isize := off + n'\<rparr>)) (\<lambda>_. iupdate ip))) (\<lambda>_.
     kret (sint n')))))"

section \<open>Directories\<close>

text \<open>A C string from its bytes.\<close>

definition cstr_of :: "u8 list \<Rightarrow> cstr" where
  "cstr_of bs k = (if k < length bs then bs ! k else 0)"

definition namecmp :: "u8 list \<Rightarrow> u8 list \<Rightarrow> int" where
  "namecmp s t = strncmp (cstr_of s) (cstr_of t) DIRSIZ"

text \<open>The first entry of a block that is in use and has the name.\<close>

definition dir_find :: "u8 list \<Rightarrow> u8 list \<Rightarrow> nat option" where
  "dir_find bs name = List.find (\<lambda>k. let de = get_dirent bs (k * DIRENT_SIZE) in
       de_inum de \<noteq> 0 \<and> namecmp name (de_name de) = 0) [0..<BSIZE div DIRENT_SIZE]"

primrec dirlookup_loop :: "nat \<Rightarrow> u8 list \<Rightarrow> nat list \<Rightarrow> ('z fs_st_scheme, (nat \<times> u32) option) kop" where
  "dirlookup_loop dp name [] = kret None"
| "dirlookup_loop dp name (k # ks) =
     kbind (get_inode dp) (\<lambda>i.
     kbind (bmap dp (of_nat k)) (\<lambda>a.
     kbind (bread (idev i) a) (\<lambda>bp.
     kbind (get_buf bp) (\<lambda>x.
     kbind (brelse bp) (\<lambda>_.
     case dir_find (bdata x) name of
       Some j \<Rightarrow>
         kbind (iget (idev i) (ucast (de_inum (get_dirent (bdata x) (j * DIRENT_SIZE))))) (\<lambda>ip.
         kret (Some (ip, of_nat (k * BSIZE + j * DIRENT_SIZE))))
     | None \<Rightarrow> dirlookup_loop dp name ks)))))"

text \<open>The second component of the result is the value stored through \<open>poff\<close>.\<close>

definition dirlookup :: "nat \<Rightarrow> u8 list \<Rightarrow> ('z fs_st_scheme, (nat \<times> u32) option) kop" where
  "dirlookup dp name =
     kbind (get_inode dp) (\<lambda>i.
     if itype i \<noteq> T_DIR then kfail (Panic ''dirlookup not DIR'')
     else dirlookup_loop dp name [0..<(unat (isize i) + BSIZE - 1) div BSIZE])"

text \<open>The first free entry: \<open>ks\<close> are the indices left, \<open>lst\<close> the one past the end.\<close>

primrec dirlink_scan :: "'z devsw \<Rightarrow> nat \<Rightarrow> nat \<Rightarrow> nat list \<Rightarrow> ('z fs_st_scheme, nat) kop" where
  "dirlink_scan dsw dp lst [] = kret (lst * DIRENT_SIZE)"
| "dirlink_scan dsw dp lst (k # ks) =
     kbind (readi dsw dp (of_nat (k * DIRENT_SIZE)) (of_nat DIRENT_SIZE)) (\<lambda>(r, bs).
     if r \<noteq> int DIRENT_SIZE then kfail (Panic ''dirlink read'')
     else if de_inum (get_dirent bs 0) = 0 then kret (k * DIRENT_SIZE)
     else dirlink_scan dsw dp lst ks)"

definition dirlink :: "'z devsw \<Rightarrow> nat \<Rightarrow> u8 list \<Rightarrow> u32 \<Rightarrow> ('z fs_st_scheme, int) kop" where
  "dirlink dsw dp name n =
     kbind (dirlookup dp name) (\<lambda>r.
     case r of
       Some (ip, _) \<Rightarrow> kbind (iput ip) (\<lambda>_. kret (-1))
     | None \<Rightarrow>
         kbind (get_inode dp) (\<lambda>i.
         let cnt = (unat (isize i) + DIRENT_SIZE - 1) div DIRENT_SIZE in
         kbind (dirlink_scan dsw dp cnt [0..<cnt]) (\<lambda>off.
         let de = \<lparr>de_inum = ucast n, de_name = map (strncpy (\<lambda>_. 0) (cstr_of name) (int DIRSIZ)) [0..<DIRSIZ]\<rparr> in
         kbind (writei dsw dp (put_dirent de) (of_nat off) (of_nat DIRENT_SIZE)) (\<lambda>r.
         if r \<noteq> int DIRENT_SIZE then kfail (Panic ''dirlink'') else kret 0))))"

section \<open>Paths\<close>

text \<open>A path is the bytes of the string before its terminating zero. The result is the
  element, cut to \<open>DIRSIZ\<close> bytes, and the rest.\<close>

definition slash :: u8 where "slash = 47"

definition skipelem :: "u8 list \<Rightarrow> (u8 list \<times> u8 list) option" where
  "skipelem path =
     (let p = dropWhile (\<lambda>c. c = slash) path in
      if p = [] then None
      else
      let elem = takeWhile (\<lambda>c. c \<noteq> slash) p;
          path' = dropWhile (\<lambda>c. c \<noteq> slash) p
      in Some (if length elem \<ge> DIRSIZ then take DIRSIZ elem else elem, dropWhile (\<lambda>c. c = slash) path'))"

lemma skipelem_shorter: "skipelem path = Some (name, rest) \<Longrightarrow> length rest < length path"
proof -
  assume a: "skipelem path = Some (name, rest)"
  let ?p = "dropWhile (\<lambda>c. c = slash) path"
  have p: "?p \<noteq> []" and r: "rest = dropWhile (\<lambda>c. c = slash) (dropWhile (\<lambda>c. c \<noteq> slash) ?p)"
    using a by (auto simp: skipelem_def Let_def split: if_splits)
  from p have "hd ?p \<noteq> slash" by (rule hd_dropWhile)
  then have "length (dropWhile (\<lambda>c. c \<noteq> slash) ?p) < length ?p"
    using p by (cases ?p) (auto simp: le_imp_less_Suc length_dropWhile_le)
  moreover have "length rest \<le> length (dropWhile (\<lambda>c. c \<noteq> slash) ?p)" "length ?p \<le> length path"
    unfolding r by (rule length_dropWhile_le)+
  ultimately show ?thesis by simp
qed

function namex_loop :: "bool \<Rightarrow> nat \<Rightarrow> u8 list \<Rightarrow> u8 list \<Rightarrow> ('z fs_st_scheme, (nat \<times> u8 list) option) kop" where
  "namex_loop np ip path name0 =
     (case skipelem path of
        None \<Rightarrow> if np then kbind (iput ip) (\<lambda>_. kret None) else kret (Some (ip, name0))
      | Some (name, rest) \<Rightarrow>
          kbind (ilock ip) (\<lambda>_.
          kbind (get_inode ip) (\<lambda>i.
          if itype i \<noteq> T_DIR then kbind (iunlockput ip) (\<lambda>_. kret None)
          else if np \<and> rest = [] then kbind (iunlock ip) (\<lambda>_. kret (Some (ip, name)))
          else
          kbind (dirlookup ip name) (\<lambda>r.
          case r of
            None \<Rightarrow> kbind (iunlockput ip) (\<lambda>_. kret None)
          | Some (nxt, _) \<Rightarrow> kbind (iunlockput ip) (\<lambda>_. namex_loop np nxt rest name)))))"
  by pat_completeness auto
termination
  by (relation "measure (\<lambda>(np, ip, path, name0). length path)") (auto dest: skipelem_shorter)

definition namex :: "u8 list \<Rightarrow> bool \<Rightarrow> ('z fs_st_scheme, (nat \<times> u8 list) option) kop" where
  "namex path np =
     kbind (if path \<noteq> [] \<and> hd path = slash then iget ROOTDEV ROOTINO
            else
            kbind curproc (\<lambda>me.
            kbind (kget (\<lambda>s. cwd (procs s me))) (\<lambda>c.
            case c of None \<Rightarrow> kfail (Undef ''proc->cwd'') | Some d \<Rightarrow> idup d))) (\<lambda>ip.
     namex_loop np ip path [])"

definition namei :: "u8 list \<Rightarrow> ('z fs_st_scheme, nat option) kop" where
  "namei path = kbind (namex path False) (\<lambda>r. kret (map_option fst r))"

definition nameiparent :: "u8 list \<Rightarrow> ('z fs_st_scheme, (nat \<times> u8 list) option) kop" where
  "nameiparent path = namex path True"


section \<open>Blocks: the bitmap\<close>

lemma get_inode_run [simp]: "get_inode i s = Inr (icache s ! i, s)"
  by (simp add: get_inode_def)

lemma upd_inode_run [simp]: "upd_inode i f s = Inr ((), s\<lparr>icache := (icache s)[i := f (icache s ! i)]\<rparr>)"
  by (simp add: upd_inode_def)

lemma same_held_icache:
  fixes s t :: "'z fs_st_scheme"
  assumes "same_held s t"
  shows "icache t = icache s" "fs_st.more t = fs_st.more s" "cur t = cur s" "woken (ptable s) (ptable t)" "mem t = mem s"
  using assms by (auto simp: same_held_def bio_frame_def)

text \<open>\<open>used d dev b\<close>: the bit of block \<open>b\<close> on the disk.\<close>

definition dsb :: "(u32 \<Rightarrow> u32 \<Rightarrow> u8 list) \<Rightarrow> u32 \<Rightarrow> superblock" where
  "dsb d dev = get_sb (d dev 1)"

definition used :: "(u32 \<Rightarrow> u32 \<Rightarrow> u8 list) \<Rightarrow> u32 \<Rightarrow> u32 \<Rightarrow> bool" where
  "used d dev b = bm_get (d dev (BBLOCK b (sb_ninodes (dsb d dev)))) (unat b mod BPB)"

text \<open>The number of blocks of the bitmap, the blocks themselves, and all blocks that hold
  metadata.\<close>

definition bm_count :: "superblock \<Rightarrow> nat" where
  "bm_count sb = (unat (sb_size sb) + BPB - 1) div BPB"

definition bitmap_blocks :: "superblock \<Rightarrow> u32 set" where
  "bitmap_blocks sb = (\<lambda>k. BBLOCK (of_nat (k * BPB)) (sb_ninodes sb)) ` {..<bm_count sb}"

definition meta_blocks :: "superblock \<Rightarrow> u32 set" where
  "meta_blocks sb = {0, 1} \<union> IBLOCK ` {..sb_ninodes sb} \<union> bitmap_blocks sb"

lemma readsb_ok:
  assumes "bready M dev A s" "1 \<in> A"
  shows "\<exists>t. readsb dev s = Inr (dsb (disk s) dev, t) \<and> bready M dev A t \<and> same_held s t \<and> disk t = disk s"
proof -
  obtain b t u where "bread dev 1 s = Inr (b, t)" "bdata (bufs t ! b) = disk s dev 1"
    "brelse b t = Inr ((), u)" "bready M dev A u" "same_held s u" "disk u = disk s"
    using bread_use [OF assms] by blast
  then show ?thesis by (auto simp: readsb_def dsb_def)
qed

lemma bzero_ok:
  assumes "bready M dev A s" "a \<in> A"
  shows "\<exists>t. bzero dev a s = Inr ((), t) \<and> bready M dev A t \<and> same_held s t
     \<and> disk t = upd_disk dev a (replicate BSIZE 0) (disk s)"
proof -
  obtain b t u where "bread dev a s = Inr (b, t)"
    "kbind (poke b (replicate BSIZE 0)) (\<lambda>_. kbind (bwrite b) (\<lambda>_. brelse b)) t = Inr ((), u)"
    "bready M dev A u" "same_held s u" "disk u = upd_disk dev a (replicate BSIZE 0) (disk s)"
    using bread_use [OF assms] by blast
  then show ?thesis by (auto simp: bzero_def)
qed

lemma free_bit_Some: "free_bit bs = Some bi \<longleftrightarrow> bi < BPB \<and> \<not> bm_get bs bi \<and> (\<forall>j < bi. bm_get bs j)"
  unfolding free_bit_def find_Some_iff
  by (auto simp: less_diff_conv intro!: exI [of _ bi])

lemma free_bit_None: "free_bit bs = None \<longleftrightarrow> (\<forall>bi < BPB. bm_get bs bi)"
  unfolding free_bit_def find_None_iff by auto

lemma unat_of_nat_u32: "n < 2 ^ 32 \<Longrightarrow> unat (of_nat n :: u32) = n"
  by (simp add: unat_of_nat)

lemma BBLOCK_of_nat:
  assumes "k * BPB + j < 2 ^ 32" "j < BPB"
  shows "BBLOCK (of_nat (k * BPB + j)) n = BBLOCK (of_nat (k * BPB)) n" "unat (of_nat (k * BPB + j) :: u32) mod BPB = j"
proof -
  have a: "unat (of_nat (k * BPB + j) :: u32) = k * BPB + j" "unat (of_nat (k * BPB) :: u32) = k * BPB"
    using assms by (simp_all only: unat_of_nat_u32)
  have B: "unat (of_nat BPB :: u32) = BPB" by (simp add: BPB_def)
  have "of_nat (k * BPB + j) div (of_nat BPB :: u32) = of_nat (k * BPB) div of_nat BPB"
    unfolding word_unat_eq_iff unat_div_distrib a B using assms by (simp add: BPB_def)
  then show "BBLOCK (of_nat (k * BPB + j)) n = BBLOCK (of_nat (k * BPB)) n"
    by (simp only: BBLOCK_def)
  show "unat (of_nat (k * BPB + j) :: u32) mod BPB = j"
    unfolding a using assms by simp
qed

text \<open>The outcome of \<open>balloc\<close>: \<open>b\<close> is the first block whose bit is clear.\<close>

definition first_free :: "(u32 \<Rightarrow> u32 \<Rightarrow> u8 list) \<Rightarrow> u32 \<Rightarrow> nat \<Rightarrow> nat \<Rightarrow> nat \<Rightarrow> bool" where
  "first_free d dev lo hi b \<longleftrightarrow> lo \<le> b \<and> b < hi \<and> \<not> used d dev (of_nat b) \<and> (\<forall>c. lo \<le> c \<and> c < b \<longrightarrow> used d dev (of_nat c))"

definition mark :: "u32 \<Rightarrow> u32 \<Rightarrow> bool \<Rightarrow> (u32 \<Rightarrow> u32 \<Rightarrow> u8 list) \<Rightarrow> u32 \<Rightarrow> u32 \<Rightarrow> u8 list" where
  "mark dev b v d = (let a = BBLOCK b (sb_ninodes (dsb d dev)) in upd_disk dev a (bm_put (d dev a) (unat b mod BPB) v) d)"

lemma balloc_loop_ok:
  assumes "bready M dev A s" "(\<lambda>k. BBLOCK (of_nat (k * BPB)) (sb_ninodes (dsb (disk s) dev))) ` {..<m} \<subseteq> A"
    "m * BPB \<le> 2 ^ 31" "k \<le> m"
  shows "(\<exists>b t. first_free (disk s) dev (k * BPB) (m * BPB) b \<and>
            balloc_loop dev (dsb (disk s) dev) (map (\<lambda>k. k * BPB) [k..<m]) s = Inr (of_nat b, t) \<and> bready M dev A t \<and> same_held s t
            \<and> disk t = mark dev (of_nat b) True (disk s))
      \<or> (\<forall>b. k * BPB \<le> b \<and> b < m * BPB \<longrightarrow> used (disk s) dev (of_nat b)) \<and>
         balloc_loop dev (dsb (disk s) dev) (map (\<lambda>k. k * BPB) [k..<m]) s = Inl (Panic ''balloc: out of blocks'')"
  using assms(1,4,2)
proof (induction "m - k" arbitrary: k s)
  case 0
  then have "k = m" by simp
  then show ?case by auto
next
  case (Suc n)
  then have km: "k < m" by simp
  have kb: "k * BPB + BPB \<le> m * BPB" using km by (metis Suc_leI mult_Suc mult_le_mono1 add.commute)
  then have k31: "k * BPB + BPB \<le> 2 ^ 31" using assms(3) by linarith
  have e: "[k..<m] = k # [Suc k..<m]" using km by (rule upt_conv_Cons)
  let ?sb = "dsb (disk s) dev"
  let ?a = "BBLOCK (of_nat (k * BPB)) (sb_ninodes ?sb)"
  have aA: "?a \<in> A" using Suc.prems(3) km by blast
  have us: "used (disk s) dev (of_nat (k * BPB + j)) \<longleftrightarrow> bm_get (disk s dev ?a) j" if "j < BPB" for j
  proof -
    have "k * BPB + j < 2 ^ 32" using k31 that by simp
    from BBLOCK_of_nat [OF this that] show ?thesis unfolding used_def by (simp only:)
  qed
  obtain b t where bt: "bread dev ?a s = Inr (b, t)" "bdata (bufs t ! b) = disk s dev ?a"
    and rel: "\<exists>u. brelse b t = Inr ((), u) \<and> bready M dev A u \<and> same_held s u \<and> disk u = disk s"
    and wri: "\<forall>v. \<exists>u. kbind (poke b v) (\<lambda>_. kbind (bwrite b) (\<lambda>_. brelse b)) t = Inr ((), u) \<and> bready M dev A u \<and> same_held s u
            \<and> disk u = upd_disk dev ?a v (disk s)"
    using bread_use [OF Suc.prems(1) aA] by blast
  have lt: "\<not> 2 ^ 31 \<le> k * BPB" using k31 by (simp add: BPB_def)
  show ?case
  proof (cases "free_bit (disk s dev ?a)")
    case (Some j)
    then have j: "j < BPB" "\<not> bm_get (disk s dev ?a) j" "\<forall>i < j. bm_get (disk s dev ?a) i"
      by (simp_all add: free_bit_Some)
    obtain u where u: "kbind (poke b (bm_put (disk s dev ?a) j True)) (\<lambda>_. kbind (bwrite b) (\<lambda>_. brelse b)) t = Inr ((), u)"
      "bready M dev A u" "same_held s u" "disk u = upd_disk dev ?a (bm_put (disk s dev ?a) j True) (disk s)"
      using wri by blast
    have r: "balloc_loop dev ?sb (map (\<lambda>k. k * BPB) [k..<m]) s = Inr (of_nat (k * BPB + j), u)"
      using bt Some lt unfolding e by (simp add: poke_bwrite_brelse [OF u(1)] del: of_nat_mult of_nat_add)
    have "k * BPB + j < 2 ^ 32" using k31 j(1) by simp
    note B = BBLOCK_of_nat [OF this j(1)]
    have "disk u = mark dev (of_nat (k * BPB + j)) True (disk s)"
      unfolding u(4) mark_def Let_def B by (rule refl)
    moreover have "first_free (disk s) dev (k * BPB) (m * BPB) (k * BPB + j)"
    proof -
      have "used (disk s) dev (of_nat c)" if "k * BPB \<le> c" "c < k * BPB + j" for c
        using us [of "c - k * BPB"] j(1,3) that by simp
      then show ?thesis using us [OF j(1)] j kb by (auto simp: first_free_def)
    qed
    ultimately show ?thesis using r u by blast
  next
    case None
    obtain u where u: "brelse b t = Inr ((), u)" "bready M dev A u" "same_held s u" "disk u = disk s"
      using rel by blast
    have al: "used (disk s) dev (of_nat c)" if "k * BPB \<le> c" "c < Suc k * BPB" for c
      using us [of "c - k * BPB"] None that by (simp add: free_bit_None)
    have st: "balloc_loop dev ?sb (map (\<lambda>k. k * BPB) [k..<m]) s = balloc_loop dev ?sb (map (\<lambda>k. k * BPB) [Suc k..<m]) u"
      using bt None lt u(1) unfolding e by simp
    have sm: "same_held s v" if "same_held u v" for v using u(3) that by (rule same_held_trans)
    from Suc.hyps(1) [of "Suc k" u] Suc.hyps(2) km u Suc.prems(3)
    have IH: "(\<exists>b t. first_free (disk s) dev (Suc k * BPB) (m * BPB) b \<and>
            balloc_loop dev ?sb (map (\<lambda>k. k * BPB) [Suc k..<m]) u = Inr (of_nat b, t) \<and> bready M dev A t \<and> same_held u t
            \<and> disk t = mark dev (of_nat b) True (disk s))
      \<or> (\<forall>b. Suc k * BPB \<le> b \<and> b < m * BPB \<longrightarrow> used (disk s) dev (of_nat b)) \<and>
         balloc_loop dev ?sb (map (\<lambda>k. k * BPB) [Suc k..<m]) u = Inl (Panic ''balloc: out of blocks'')"
      by (simp del: mult_Suc)
    have ff: "first_free (disk s) dev (k * BPB) (m * BPB) b" if "first_free (disk s) dev (Suc k * BPB) (m * BPB) b" for b
      using that al unfolding first_free_def by (auto simp: not_less) (metis not_less mult_Suc add.commute)
    show ?thesis
      using IH
    proof
      assume "\<exists>b t. first_free (disk s) dev (Suc k * BPB) (m * BPB) b \<and>
            balloc_loop dev ?sb (map (\<lambda>k. k * BPB) [Suc k..<m]) u = Inr (of_nat b, t) \<and> bready M dev A t \<and> same_held u t
            \<and> disk t = mark dev (of_nat b) True (disk s)"
      then show ?thesis unfolding st using ff sm by blast
    next
      assume a: "(\<forall>b. Suc k * BPB \<le> b \<and> b < m * BPB \<longrightarrow> used (disk s) dev (of_nat b)) \<and>
         balloc_loop dev ?sb (map (\<lambda>k. k * BPB) [Suc k..<m]) u = Inl (Panic ''balloc: out of blocks'')"
      then have "\<forall>b. k * BPB \<le> b \<and> b < m * BPB \<longrightarrow> used (disk s) dev (of_nat b)"
        using al not_less by blast
      then show ?thesis unfolding st using a by blast
    qed
  qed
qed


lemma bm_count_bound: "unat (sb_size sb) \<le> 2 ^ 31 \<Longrightarrow> bm_count sb * BPB \<le> 2 ^ 31"
proof -
  assume a: "unat (sb_size sb) \<le> 2 ^ 31"
  have "(unat (sb_size sb) + 4095) div 4096 \<le> (2 ^ 31 + 4095) div 4096"
    using a by (intro div_le_mono) simp
  then show ?thesis by (simp add: bm_count_def BPB_def)
qed

lemma balloc_ok:
  assumes r: "bready M dev A s" and A: "1 \<in> A" "bitmap_blocks (dsb (disk s) dev) \<subseteq> A"
    and sz: "unat (sb_size (dsb (disk s) dev)) \<le> 2 ^ 31"
  shows "(\<exists>b t. first_free (disk s) dev 0 (bm_count (dsb (disk s) dev) * BPB) b \<and> balloc dev s = Inr (of_nat b, t)
            \<and> bready M dev A t \<and> same_held s t \<and> disk t = mark dev (of_nat b) True (disk s))
      \<or> (\<forall>b < bm_count (dsb (disk s) dev) * BPB. used (disk s) dev (of_nat b)) \<and> balloc dev s = Inl (Panic ''balloc: out of blocks'')"
proof -
  let ?sb = "dsb (disk s) dev"
  let ?m = "bm_count ?sb"
  obtain t where t: "readsb dev s = Inr (?sb, t)" "bready M dev A t" "same_held s t" "disk t = disk s"
    using readsb_ok [OF r A(1)] by blast
  have e: "balloc dev s = balloc_loop dev ?sb (map (\<lambda>k. k * BPB) [0..<?m]) t"
    using t(1) by (simp add: balloc_def bm_count_def)
  have "(\<lambda>k. BBLOCK (of_nat (k * BPB)) (sb_ninodes (dsb (disk t) dev))) ` {..<?m} \<subseteq> A"
    using A(2) t(4) by (simp add: bitmap_blocks_def)
  from balloc_loop_ok [OF t(2) this bm_count_bound [OF sz] le0] same_held_trans [OF t(3)]
  show ?thesis unfolding e t(4) by simp blast
qed

lemma bfree_ok:
  assumes r: "bready M dev A s" and A: "b \<in> A" "1 \<in> A" "BBLOCK b (sb_ninodes (dsb (disk s) dev)) \<in> A" and b: "b \<noteq> 1"
  defines "d \<equiv> upd_disk dev b (replicate BSIZE 0) (disk s)"
  shows "if used d dev b then \<exists>t. bfree dev b s = Inr ((), t) \<and> bready M dev A t \<and> same_held s t \<and> disk t = mark dev b False d
     else bfree dev b s = Inl (Panic ''freeing free block'')"
proof -
  obtain t where t: "bzero dev b s = Inr ((), t)" "bready M dev A t" "same_held s t" "disk t = d"
    using bzero_ok [OF r A(1)] d_def by blast
  have sb: "dsb d dev = dsb (disk s) dev" using b by (simp add: dsb_def d_def upd_disk_def)
  obtain u where u: "readsb dev t = Inr (dsb d dev, u)" "bready M dev A u" "same_held t u" "disk u = d"
    using readsb_ok [OF t(2) A(2)] t(4) by auto
  let ?a = "BBLOCK b (sb_ninodes (dsb d dev))"
  have aA: "?a \<in> A" using A(3) sb by simp
  obtain bp v where v: "bread dev ?a u = Inr (bp, v)" "bdata (bufs v ! bp) = d dev ?a"
    and wri: "\<forall>x. \<exists>w. kbind (poke bp x) (\<lambda>_. kbind (bwrite bp) (\<lambda>_. brelse bp)) v = Inr ((), w) \<and> bready M dev A w \<and> same_held u w
            \<and> disk w = upd_disk dev ?a x d"
    using bread_use [OF u(2) aA] u(4) by metis
  obtain w where w: "kbind (poke bp (bm_put (d dev ?a) (unat b mod BPB) False)) (\<lambda>_. kbind (bwrite bp) (\<lambda>_. brelse bp)) v = Inr ((), w)"
    "bready M dev A w" "same_held u w" "disk w = upd_disk dev ?a (bm_put (d dev ?a) (unat b mod BPB) False) d"
    using wri by blast
  have sh: "same_held s w" using t(3) u(3) w(3) same_held_trans by blast
  show ?thesis
    using t(1) u(1) v w sh by (auto simp: bfree_def used_def mark_def Let_def)
qed

lemma bm_put_restore:
  assumes "n div 8 < length bs" "\<not> bm_get bs n"
  shows "bm_put (bm_put bs n True) n False = bs"
proof -
  let ?w = "bs ! (n div 8)" and ?m = "push_bit (n mod 8) (1 :: u8)"
  have "(?w OR ?m) AND NOT ?m = ?w"
  proof (rule bit_word_eqI)
    fix k assume kl: "k < LENGTH(8)"
    then have k: "bit ?m k \<longleftrightarrow> k = n mod 8" by (auto simp: bit_exp_iff)
    show "bit ((?w OR ?m) AND NOT ?m) k = bit ?w k"
      using assms(2) k kl by (auto simp: bm_get_def bit_or_iff bit_and_iff bit_not_iff)
  qed
  then show ?thesis using assms(1) by (simp add: bm_put_def del: push_bit_of_1)
qed


lemma mark_restore:
  assumes "\<not> used d dev b" "length (d dev (BBLOCK b (sb_ninodes (dsb d dev)))) = BSIZE" "BBLOCK b (sb_ninodes (dsb d dev)) \<noteq> 1"
    "b \<noteq> BBLOCK b (sb_ninodes (dsb d dev))" "b \<noteq> 1"
  shows "used (upd_disk dev b z (mark dev b True d)) dev b"
    and "mark dev b False (upd_disk dev b z (mark dev b True d)) = upd_disk dev b z d"
proof -
  let ?a = "BBLOCK b (sb_ninodes (dsb d dev))" and ?n = "unat b mod BPB"
  let ?e = "upd_disk dev b z (mark dev b True d)"
  have n: "?n div 8 < length (d dev ?a)" unfolding assms(2) by (simp add: BSIZE_def BPB_def)
  have sb: "dsb ?e dev = dsb d dev"
    using assms by (simp add: dsb_def mark_def Let_def upd_disk_def)
  have a: "?e dev ?a = bm_put (d dev ?a) ?n True"
    using assms(4) by (simp add: mark_def Let_def upd_disk_def)
  show "used ?e dev b" unfolding used_def sb a using n by (simp add: bm_get_put)
  have "bm_put (bm_put (d dev ?a) ?n True) ?n False = d dev ?a"
    using n assms(1) by (intro bm_put_restore) (simp_all add: used_def)
  then show "mark dev b False ?e = upd_disk dev b z d"
    unfolding mark_def [of _ _ False] sb Let_def a using assms(4)
    by (auto simp: mark_def Let_def upd_disk_def fun_eq_iff)
qed

text \<open>A disk on which the bitmap can be relied on: metadata is marked as used.\<close>

definition disk_ok :: "(u32 \<Rightarrow> u32 \<Rightarrow> u8 list) \<Rightarrow> u32 \<Rightarrow> bool" where
  "disk_ok d dev \<longleftrightarrow> dev \<noteq> -1 \<and> unat (sb_size (dsb d dev)) \<le> 2 ^ 31 \<and> (\<forall>a. length (d dev a) = BSIZE)
     \<and> (\<forall>a \<in> meta_blocks (dsb d dev). used d dev a)"

lemma quiet_bready: "quiet s \<Longrightarrow> dev \<noteq> -1 \<Longrightarrow> bready {} dev UNIV s"
  using quietD [of s] by (auto simp: bready_def)

lemma bready_quiet: "quiet s \<Longrightarrow> bready {} dev A t \<Longrightarrow> same_held s t \<Longrightarrow> quiet t"
  by (simp add: quiet_def bready_def same_held_def)

lemma BBLOCK_bitmap:
  assumes "b < bm_count sb * BPB" "unat (sb_size sb) \<le> 2 ^ 31"
  shows "BBLOCK (of_nat b) (sb_ninodes sb) \<in> bitmap_blocks sb"
proof -
  have "b < 2 ^ 31" using assms bm_count_bound [OF assms(2)] by linarith
  moreover have "b = b div BPB * BPB + b mod BPB" by simp
  ultimately have "BBLOCK (of_nat b) (sb_ninodes sb) = BBLOCK (of_nat (b div BPB * BPB)) (sb_ninodes sb)"
    using BBLOCK_of_nat(1) [of "b div BPB" "b mod BPB"] by (simp add: BPB_def)
  moreover have "b div BPB < bm_count sb" using assms(1) by (simp add: less_mult_imp_div_less)
  ultimately show ?thesis by (auto simp: bitmap_blocks_def)
qed

section \<open>Properties of blocks\<close>

text \<open>
  C9. Block allocation. On a disk whose metadata blocks are marked as used, \<open>balloc\<close>
  returns the lowest block whose bit is clear, which is none of the metadata, and
  changes exactly that bit; with every bit set it panics. \<open>bfree\<close> of the block it
  returned clears the bit again and zeroes the block, and changes nothing else.
\<close>

theorem balloc_bfree:
  assumes s: "quiet s" and d: "disk_ok (disk s) dev"
  shows "(\<exists>b t. first_free (disk s) dev 0 (bm_count (dsb (disk s) dev) * BPB) b \<and> of_nat b \<notin> meta_blocks (dsb (disk s) dev)
            \<and> balloc dev s = Inr (of_nat b, t) \<and> quiet t \<and> disk t = mark dev (of_nat b) True (disk s)
            \<and> (\<exists>u. bfree dev (of_nat b) t = Inr ((), u) \<and> quiet u
                  \<and> disk u = upd_disk dev (of_nat b) (replicate BSIZE 0) (disk s)))
      \<or> (\<forall>b < bm_count (dsb (disk s) dev) * BPB. used (disk s) dev (of_nat b)) \<and> balloc dev s = Inl (Panic ''balloc: out of blocks'')"
proof -
  have dd: "dev \<noteq> -1" "unat (sb_size (dsb (disk s) dev)) \<le> 2 ^ 31" "\<And>a. length (disk s dev a) = BSIZE"
    "\<And>a. a \<in> meta_blocks (dsb (disk s) dev) \<Longrightarrow> used (disk s) dev a"
    using d by (auto simp: disk_ok_def)
  note r = quiet_bready [OF s dd(1)]
  have "\<exists>u. bfree dev (of_nat b) t = Inr ((), u) \<and> quiet u \<and> disk u = upd_disk dev (of_nat b) (replicate BSIZE 0) (disk s)"
    if ff: "first_free (disk s) dev 0 (bm_count (dsb (disk s) dev) * BPB) b" and t: "bready {} dev UNIV t" "same_held s t"
      "disk t = mark dev (of_nat b) True (disk s)" for b t
  proof -
    let ?b = "of_nat b :: u32" and ?a = "BBLOCK (of_nat b) (sb_ninodes (dsb (disk s) dev))"
    have nu: "\<not> used (disk s) dev ?b" using ff by (simp add: first_free_def)
    have am: "?a \<in> bitmap_blocks (dsb (disk s) dev)" using ff dd(2) by (intro BBLOCK_bitmap) (simp_all add: first_free_def)
    have "?a \<noteq> 1" "?b \<noteq> ?a" "?b \<noteq> 1"
    proof -
      show "?a \<noteq> 1"
      proof
        assume "?a = 1"
        then have "?b div of_nat BPB + (sb_ninodes (dsb (disk s) dev) div of_nat IPB + 2) = 0"
          by (simp add: BBLOCK_def algebra_simps)
        moreover have "unat (?b div of_nat BPB) < 2 ^ 20" "unat (sb_ninodes (dsb (disk s) dev) div of_nat IPB) < 2 ^ 29"
          using unat_lt_2p32 [of ?b] unat_lt_2p32 [of "sb_ninodes (dsb (disk s) dev)"]
          by (simp_all add: unat_div_distrib BPB_def IPB_def less_mult_imp_div_less)
        ultimately show False by (simp add: word_unat_eq_iff unat_word_ariths)
      qed
      show "?b \<noteq> ?a" using nu dd(4) [of ?a] am by (auto simp: meta_blocks_def)
      show "?b \<noteq> 1" using nu dd(4) [of 1] by (auto simp: meta_blocks_def)
    qed
    note nq = this
    have len: "length (disk s dev ?a) = BSIZE" by (rule dd(3))
    note mr = mark_restore [OF nu len nq(1,2,3), of "replicate BSIZE 0"]
    from bfree_ok [OF t(1) UNIV_I UNIV_I UNIV_I nq(3)] mr
    obtain u where "bfree dev ?b t = Inr ((), u)" "bready {} dev UNIV u" "same_held t u"
      "disk u = upd_disk dev ?b (replicate BSIZE 0) (disk s)"
      unfolding t(3) by auto
    then show ?thesis using s t(2) same_held_trans bready_quiet by blast
  qed
  moreover have "of_nat b \<notin> meta_blocks (dsb (disk s) dev)"
    if "first_free (disk s) dev 0 (bm_count (dsb (disk s) dev) * BPB) b" for b
    using that dd(4) by (auto simp: first_free_def)
  ultimately show ?thesis
    using balloc_ok [OF r UNIV_I subset_UNIV dd(2)] bready_quiet [OF s] by blast
qed


text \<open>A small disk: 40 blocks, 8 inodes, the bitmap in block 4, blocks 0 to 4 in use.\<close>

definition fs_disk :: "u32 \<Rightarrow> u32 \<Rightarrow> u8 list" where
  "fs_disk dev n = (if n = 1 then put_sb (replicate BSIZE 0) \<lparr>sb_size = 40, sb_nblocks = 30, sb_ninodes = 8\<rparr>
     else if n = 4 then 31 # replicate 511 0 else replicate BSIZE 0)"

definition fs_example :: fs_st where
  "fs_example = bio_st.extend (bio_example\<lparr>disk := fs_disk\<rparr>)
     \<lparr>icache = replicate NINODE \<lparr>idev = 0, inum = 0, iref = 0, ibusy = False, ivalid = False, itype = 0,
        imajor = 0, iminor = 0, inlink = 0, isize = 0, iaddrs = replicate 13 0\<rparr>\<rparr>"

lemma fs_example_sel [simp]: "disk fs_example = fs_disk" "bufs fs_example = bufs bio_example" "lru fs_example = lru bio_example"
  "havedisk1 fs_example" "icache fs_example = replicate NINODE \<lparr>idev = 0, inum = 0, iref = 0, ibusy = False, ivalid = False, itype = 0,
        imajor = 0, iminor = 0, inlink = 0, isize = 0, iaddrs = replicate 13 0\<rparr>"
  by (simp_all add: fs_example_def bio_st.defs bio_example_def proc_st.defs mlfq_example_def)

lemma fs_example_quiet: "quiet fs_example"
  using bio_example_quiet by (auto simp: quiet_def bio_inv_def busy_bufs_def NBUF_def)

lemma fs_disk_sb: "dsb fs_disk dev = \<lparr>sb_size = 40, sb_nblocks = 30, sb_ninodes = 8\<rparr>"
  by (simp add: dsb_def fs_disk_def get_put_sb BSIZE_def)

lemma u32_le_cases: "(i :: u32) \<le> 8 \<Longrightarrow> i \<in> {0, 1, 2, 3, 4, 5, 6, 7, 8}"
proof -
  assume "i \<le> 8"
  then have "unat i \<le> 8" by (simp add: word_le_nat_alt)
  moreover have "i = of_nat (unat i)" by simp
  ultimately show ?thesis
    by (cases "unat i = 0"; cases "unat i = 1"; cases "unat i = 2"; cases "unat i = 3"; cases "unat i = 4";
        cases "unat i = 5"; cases "unat i = 6"; cases "unat i = 7"; cases "unat i = 8") auto
qed

lemma fs_disk_ok: "disk_ok fs_disk 1"
proof -
  have m: "meta_blocks (dsb fs_disk 1) \<subseteq> {0, 1, 2, 3, 4}"
    by (auto simp: meta_blocks_def bitmap_blocks_def bm_count_def fs_disk_sb BPB_def BBLOCK_def IPB_def IBLOCK_def
        dest!: u32_le_cases)
  have u: "used fs_disk 1 a" if "a \<in> {0, 1, 2, 3, 4}" for a
    using that by (auto simp: used_def fs_disk_sb BBLOCK_def BPB_def IPB_def fs_disk_def bm_get_def bit_iff_odd)
  have "length (fs_disk 1 a) = BSIZE" for a
    by (simp add: fs_disk_def put_sb_def BSIZE_def)
  with m u show ?thesis
    by (auto simp: disk_ok_def fs_disk_sb)
qed

theorem balloc_bfree_witness:
  "\<exists>t u. balloc 1 fs_example = Inr (5, t) \<and> bfree 1 5 t = Inr ((), u)
     \<and> disk u = upd_disk 1 5 (replicate BSIZE 0) (disk fs_example)"
proof -
  have nu: "\<not> used fs_disk 1 5"
    by (simp add: used_def fs_disk_sb BBLOCK_def BPB_def IPB_def fs_disk_def bm_get_def bit_iff_odd)
  have f: "b = 5" if "first_free fs_disk 1 0 (bm_count (dsb fs_disk 1) * BPB) b" for b
  proof (rule ccontr)
    assume "b \<noteq> 5"
    then consider "b < 5" | "5 < b" by linarith
    then show False
    proof cases
      case 1
      then have "of_nat b \<in> {0 :: u32, 1, 2, 3, 4}" by (auto simp: less_Suc_eq numeral_eq_Suc)
      then have "used fs_disk 1 (of_nat b)"
        by (auto simp: used_def fs_disk_sb BBLOCK_def BPB_def IPB_def fs_disk_def bm_get_def bit_iff_odd)
      with that show False by (simp add: first_free_def)
    next
      case 2
      then have "used fs_disk 1 (of_nat 5)" using that unfolding first_free_def by blast
      with nu show False by simp
    qed
  qed
  have "\<not> (\<forall>b < bm_count (dsb fs_disk 1) * BPB. used fs_disk 1 (of_nat b))"
    using nu by (auto simp: bm_count_def fs_disk_sb BPB_def intro!: exI [of _ 5])
  with balloc_bfree [OF fs_example_quiet, of 1] fs_disk_ok f show ?thesis by fastforce
qed

section \<open>Inodes on disk\<close>

definition dinode_of :: "inode \<Rightarrow> dinode" where
  "dinode_of i = \<lparr>d_type = itype i, d_major = imajor i, d_minor = iminor i, d_nlink = inlink i, d_size = isize i, d_addrs = iaddrs i\<rparr>"

text \<open>Inode \<open>n\<close> as the disk has it.\<close>

definition disk_inode :: "(u32 \<Rightarrow> u32 \<Rightarrow> u8 list) \<Rightarrow> u32 \<Rightarrow> u32 \<Rightarrow> dinode" where
  "disk_inode d dev n = get_dinode (d dev (IBLOCK n)) (ioffset n)"

lemma inode_position:
  assumes "n \<noteq> m" "IBLOCK n = IBLOCK m"
  shows "ioffset n + DINODE_SIZE \<le> ioffset m \<or> ioffset m + DINODE_SIZE \<le> ioffset n"
proof -
  have "n div of_nat IPB = m div of_nat IPB" using assms(2) by (simp add: IBLOCK_def)
  then have "unat (n div of_nat IPB) = unat (m div of_nat IPB)" by (simp only:)
  then have "unat n div IPB = unat m div IPB" by (simp add: unat_div_distrib IPB_def)
  moreover have "unat n \<noteq> unat m" using assms(1) by (simp add: word_unat_eq_iff)
  ultimately have "unat n mod IPB \<noteq> unat m mod IPB" by (metis div_mult_mod_eq)
  then show ?thesis by (auto simp: ioffset_def DINODE_SIZE_def)
qed

lemma ioffset_bound: "ioffset n + DINODE_SIZE \<le> BSIZE"
proof -
  have "unat n mod 8 \<le> 7" by (simp add: less_Suc_eq_le [symmetric])
  then show ?thesis by (simp add: ioffset_def DINODE_SIZE_def BSIZE_def IPB_def)
qed

definition put_inode :: "u32 \<Rightarrow> u32 \<Rightarrow> dinode \<Rightarrow> (u32 \<Rightarrow> u32 \<Rightarrow> u8 list) \<Rightarrow> u32 \<Rightarrow> u32 \<Rightarrow> u8 list" where
  "put_inode dev n x d = upd_disk dev (IBLOCK n) (put_dinode (d dev (IBLOCK n)) (ioffset n) x) d"

lemma disk_inode_put:
  assumes "\<And>a. length (d dev a) = BSIZE" "length (d_addrs x) = NDIRECT + 1"
  shows "disk_inode (put_inode dev n x d) dev m = (if m = n then x else disk_inode d dev m)"
proof -
  have b: "ioffset n + DINODE_SIZE \<le> length (d dev (IBLOCK n))" unfolding assms(1) by (rule ioffset_bound)
  show ?thesis
  proof (cases "IBLOCK m = IBLOCK n")
    case True
    show ?thesis
    proof (cases "m = n")
      case True
      then show ?thesis using get_put_dinode [OF b assms(2)] by (simp add: disk_inode_def put_inode_def upd_disk_def)
    next
      case False
      with True show ?thesis
        using get_put_dinode_other [OF b assms(2)] inode_position [OF False True]
        by (auto simp: disk_inode_def put_inode_def upd_disk_def)
    qed
  qed (auto simp: disk_inode_def put_inode_def upd_disk_def)
qed

lemma iupdate_ok:
  assumes "bready M (idev (icache s ! ip)) A s" "IBLOCK (inum (icache s ! ip)) \<in> A"
  shows "\<exists>t. iupdate ip s = Inr ((), t) \<and> bready M (idev (icache s ! ip)) A t \<and> same_held s t
     \<and> disk t = put_inode (idev (icache s ! ip)) (inum (icache s ! ip)) (dinode_of (icache s ! ip)) (disk s)"
proof -
  let ?i = "icache s ! ip"
  let ?a = "IBLOCK (inum ?i)"
  obtain b t where t: "bread (idev ?i) ?a s = Inr (b, t)" "bdata (bufs t ! b) = disk s (idev ?i) ?a"
    and w: "\<forall>v. \<exists>u. kbind (poke b v) (\<lambda>_. kbind (bwrite b) (\<lambda>_. brelse b)) t = Inr ((), u) \<and> bready M (idev ?i) A u \<and> same_held s u
            \<and> disk u = upd_disk (idev ?i) ?a v (disk s)"
    using bread_use [OF assms] by blast
  obtain u where "kbind (poke b (put_dinode (disk s (idev ?i) ?a) (ioffset (inum ?i)) (dinode_of ?i))) (\<lambda>_. kbind (bwrite b) (\<lambda>_. brelse b)) t = Inr ((), u)"
    "bready M (idev ?i) A u" "same_held s u"
    "disk u = upd_disk (idev ?i) ?a (put_dinode (disk s (idev ?i) ?a) (ioffset (inum ?i)) (dinode_of ?i)) (disk s)"
    using w by blast
  then show ?thesis
    using t by (simp add: iupdate_def dinode_of_def put_inode_def)
qed

lemma brelse_icache:
  fixes t :: "'z fs_st_scheme"
  assumes "brelse b t = Inr ((), u)"
  shows "brelse b (t\<lparr>icache := X\<rparr>) = Inr ((), u\<lparr>icache := X\<rparr>)"
  using assms by (cases t) (auto simp: brelse_def split: if_splits)

lemma bready_icache [simp]: "bready M dev A (s\<lparr>icache := X\<rparr>) = bready M dev A s"
  by (simp add: bready_def bio_inv_def busy_bufs_def held_def)

lemma quiet_icache [simp]: "quiet (s\<lparr>icache := X\<rparr>) = quiet s"
  by (simp add: quiet_def bio_inv_def busy_bufs_def)

lemma ilock_load:
  assumes i: "i = icache s ! ip" "ip < length (icache s)" "iref i \<ge> 1" "\<not> ibusy i" "\<not> ivalid i"
    and r: "bready M (idev i) A s" "IBLOCK (inum i) \<in> A" and d: "d = disk_inode (disk s) (idev i) (inum i)" "d_type d \<noteq> 0"
  shows "\<exists>t. ilock ip s = Inr ((), t) \<and> disk t = disk s \<and> bready M (idev i) A t
     \<and> icache t = (icache s)[ip := i\<lparr>ibusy := True, ivalid := True, itype := d_type d, imajor := d_major d, iminor := d_minor d,
                               inlink := d_nlink d, isize := d_size d, iaddrs := d_addrs d\<rparr>]"
proof -
  let ?u = "s\<lparr>icache := (icache s)[ip := i\<lparr>ibusy := True\<rparr>]\<rparr>"
  have "bready M (idev i) A ?u" using r(1) by simp
  from bread_use [OF this r(2)] obtain b t w where t: "bread (idev i) (IBLOCK (inum i)) ?u = Inr (b, t)"
    "bread_post M (idev i) (IBLOCK (inum i)) ?u b t" "bdata (bufs t ! b) = disk s (idev i) (IBLOCK (inum i))"
    and w: "brelse b t = Inr ((), w)" "bready M (idev i) A w" "same_held ?u w" "disk w = disk s"
    by auto
  have ic: "icache t = (icache s)[ip := i\<lparr>ibusy := True\<rparr>]" "icache w = (icache s)[ip := i\<lparr>ibusy := True\<rparr>]"
    using t(2) same_held_icache(1) [OF w(3)] by (auto simp: bread_post_def bio_frame_def)
  have dd: "get_dinode (disk s (idev i) (IBLOCK (inum i))) (ioffset (inum i)) = d"
    using d(1) by (simp add: disk_inode_def)
  let ?j = "i\<lparr>ibusy := True, itype := d_type d, imajor := d_major d, iminor := d_minor d,
                               inlink := d_nlink d, isize := d_size d, iaddrs := d_addrs d\<rparr>"
  have k: "ilock ip s = Inr ((), w\<lparr>icache := (icache s)[ip := ?j\<lparr>ivalid := True\<rparr>]\<rparr>)"
    using i t(1,3) ic dd d(2) brelse_icache [OF w(1)] by (simp add: ilock_def Let_def)
  show ?thesis unfolding k using w by (cases i) simp
qed

text \<open>
  C21. Inodes survive the disk. \<open>iupdate\<close> writes the in-memory inode to its place on
  the disk without changing any other inode, and \<open>ilock\<close> of any cache slot assigned
  to the same inode number then loads exactly what was written.
\<close>

theorem inode_roundtrip:
  assumes s: "quiet s" "\<forall>a. length (disk s dev a) = BSIZE"
    and i: "i = icache s ! ip" "idev i = dev" "dev \<noteq> -1" "length (iaddrs i) = NDIRECT + 1" "itype i \<noteq> 0"
  shows "\<exists>t. iupdate ip s = Inr ((), t) \<and> quiet t \<and> disk_inode (disk t) dev (inum i) = dinode_of i
     \<and> (\<forall>n. n \<noteq> inum i \<longrightarrow> disk_inode (disk t) dev n = disk_inode (disk s) dev n)
     \<and> (\<forall>u jp. quiet u \<and> disk u = disk t \<and> jp < length (icache u) \<and> idev (icache u ! jp) = dev \<and> inum (icache u ! jp) = inum i
           \<and> iref (icache u ! jp) \<ge> 1 \<and> \<not> ibusy (icache u ! jp) \<and> \<not> ivalid (icache u ! jp) \<longrightarrow>
          (\<exists>v. ilock jp u = Inr ((), v) \<and> dinode_of (icache v ! jp) = dinode_of i \<and> ivalid (icache v ! jp) \<and> ibusy (icache v ! jp)))"
proof -
  have r: "bready {} (idev (icache s ! ip)) UNIV s" using quiet_bready [OF s(1)] i by simp
  obtain t where t: "iupdate ip s = Inr ((), t)" "bready {} dev UNIV t" "same_held s t"
    "disk t = put_inode dev (inum i) (dinode_of i) (disk s)"
    using iupdate_ok [OF r] i by auto
  have q: "quiet t" using bready_quiet [OF s(1) t(2,3)] .
  have l: "length (d_addrs (dinode_of i)) = NDIRECT + 1" using i(4) by (simp add: dinode_of_def)
  have di: "disk_inode (disk t) dev n = (if n = inum i then dinode_of i else disk_inode (disk s) dev n)" for n
    unfolding t(4) using s(2) l by (intro disk_inode_put) auto
  have "\<exists>v. ilock jp u = Inr ((), v) \<and> dinode_of (icache v ! jp) = dinode_of i \<and> ivalid (icache v ! jp) \<and> ibusy (icache v ! jp)"
    if u: "quiet u" "disk u = disk t" and j: "jp < length (icache u)" "idev (icache u ! jp) = dev" "inum (icache u ! jp) = inum i"
      "iref (icache u ! jp) \<ge> 1" "\<not> ibusy (icache u ! jp)" "\<not> ivalid (icache u ! jp)" for u jp
  proof -
    have "bready {} (idev (icache u ! jp)) UNIV u" using quiet_bready [OF u(1)] i j by simp
    moreover have "d_type (dinode_of i) \<noteq> 0" using i(5) by (simp add: dinode_of_def)
    moreover have "dinode_of i = disk_inode (disk u) (idev (icache u ! jp)) (inum (icache u ! jp))"
      using di u j by simp
    ultimately obtain v where v: "ilock jp u = Inr ((), v)" and
      ic: "icache v = (icache u)[jp := (icache u ! jp)\<lparr>ibusy := True, ivalid := True, itype := d_type (dinode_of i),
         imajor := d_major (dinode_of i), iminor := d_minor (dinode_of i), inlink := d_nlink (dinode_of i),
         isize := d_size (dinode_of i), iaddrs := d_addrs (dinode_of i)\<rparr>]"
      using ilock_load [OF refl j(1,4,5,6), of "{}" UNIV "dinode_of i"] by blast
    have "dinode_of (icache v ! jp) = dinode_of i \<and> ivalid (icache v ! jp) \<and> ibusy (icache v ! jp)"
      unfolding ic using j(1) by (simp add: dinode_of_def)
    with v show ?thesis by blast
  qed
  with t q di show ?thesis by auto
qed

definition inode_example :: fs_st where
  "inode_example = fs_example\<lparr>icache := (icache fs_example)[0 := \<lparr>idev = 1, inum = 3, iref = 1, ibusy = True, ivalid = True, itype = 2,
        imajor = 0, iminor = 0, inlink = 1, isize = 700, iaddrs = [5, 6, 0, 0, 0, 0, 0, 0, 0, 0, 0, 0, 0]\<rparr>]\<rparr>"

theorem inode_roundtrip_witness:
  "\<exists>t. iupdate 0 inode_example = Inr ((), t) \<and> d_size (disk_inode (disk t) 1 3) = 700
     \<and> d_size (disk_inode (disk t) 1 4) = d_size (disk_inode fs_disk 1 4)"
proof -
  let ?i = "\<lparr>idev = 1, inum = 3, iref = 1, ibusy = True, ivalid = True, itype = 2,
        imajor = 0, iminor = 0, inlink = 1, isize = 700, iaddrs = [5, 6, 0, 0, 0, 0, 0, 0, 0, 0, 0, 0, 0]\<rparr> :: inode"
  have q: "quiet inode_example" using fs_example_quiet by (simp add: inode_example_def)
  have l: "\<forall>a. length (disk inode_example 1 a) = BSIZE"
    using fs_disk_ok by (simp add: inode_example_def disk_ok_def)
  have i: "?i = icache inode_example ! 0" "idev ?i = 1" "(1 :: u32) \<noteq> -1" "length (iaddrs ?i) = NDIRECT + 1" "itype ?i \<noteq> 0"
    by (simp_all add: inode_example_def NINODE_def NDIRECT_def)
  obtain t where t: "iupdate 0 inode_example = Inr ((), t)" "disk_inode (disk t) 1 (inum ?i) = dinode_of ?i"
    "\<forall>n. n \<noteq> inum ?i \<longrightarrow> disk_inode (disk t) 1 n = disk_inode (disk inode_example) 1 n"
    using inode_roundtrip [OF q l i] by blast
  have "disk_inode (disk t) 1 4 = disk_inode fs_disk 1 4"
    using t(3) by (simp add: inode_example_def)
  then show ?thesis using t(1,2) by (simp add: dinode_of_def)
qed

section \<open>Path names\<close>

text \<open>The specification: split at the slashes, drop the empty pieces, cut to \<open>DIRSIZ\<close>.\<close>

fun split_slash :: "u8 list \<Rightarrow> u8 list list" where
  "split_slash [] = [[]]"
| "split_slash (c # cs) = (if c = slash then [] # split_slash cs
     else case split_slash cs of [] \<Rightarrow> [[c]] | p # ps \<Rightarrow> (c # p) # ps)"

definition path_elems :: "u8 list \<Rightarrow> u8 list list" where
  "path_elems path = map (take DIRSIZ) (filter (\<lambda>p. p \<noteq> []) (split_slash path))"

text \<open>What the loop of \<open>namex\<close> sees.\<close>

function skip_all :: "u8 list \<Rightarrow> u8 list list" where
  "skip_all path = (case skipelem path of None \<Rightarrow> [] | Some (name, rest) \<Rightarrow> name # skip_all rest)"
  by pat_completeness auto
termination
  by (relation "measure length") (auto dest: skipelem_shorter)

declare skip_all.simps [simp del]

lemma path_elems_slash: "path_elems (dropWhile (\<lambda>c. c = slash) path) = path_elems path"
  by (induction path) (auto simp: path_elems_def)

lemma split_slash_take:
  "split_slash p = takeWhile (\<lambda>c. c \<noteq> slash) p
     # (case dropWhile (\<lambda>c. c \<noteq> slash) p of [] \<Rightarrow> [] | _ # r \<Rightarrow> split_slash r)"
  by (induction p) (auto split: list.split)

lemma path_elems_cons:
  assumes "p \<noteq> []" "hd p \<noteq> slash"
  shows "path_elems p = take DIRSIZ (takeWhile (\<lambda>c. c \<noteq> slash) p) # path_elems (dropWhile (\<lambda>c. c \<noteq> slash) p)"
proof -
  have t: "takeWhile (\<lambda>c. c \<noteq> slash) p \<noteq> []" using assms by (cases p) auto
  show ?thesis
  proof (cases "dropWhile (\<lambda>c. c \<noteq> slash) p")
    case Nil
    show ?thesis unfolding path_elems_def split_slash_take [of p] Nil using t by simp
  next
    case (Cons c r)
    then have "c = slash" by (metis (mono_tags) hd_dropWhile list.distinct(1) list.sel(1))
    then show ?thesis unfolding path_elems_def split_slash_take [of p] Cons using t by simp
  qed
qed

text \<open>
  C27. Path parsing. Taking elements off a path with \<open>skipelem\<close> until it gives none
  yields exactly the nonempty pieces between the slashes, each cut to 14 bytes; the
  rest \<open>skipelem\<close> returns never starts with a slash, so it is empty exactly when the
  element was the last one.
\<close>

theorem skipelem_correct:
  "skip_all path = path_elems path
   \<and> (case skipelem path of
        None \<Rightarrow> path_elems path = []
      | Some (name, rest) \<Rightarrow> path_elems path = name # path_elems rest \<and> (rest = [] \<longleftrightarrow> path_elems rest = [])
          \<and> takeWhile (\<lambda>c. c = slash) rest = [])"
proof -
  have step: "case skipelem p of
        None \<Rightarrow> path_elems p = []
      | Some (name, rest) \<Rightarrow> path_elems p = name # path_elems rest \<and> (rest = [] \<longleftrightarrow> path_elems rest = [])
          \<and> takeWhile (\<lambda>c. c = slash) rest = []" for p
  proof -
    let ?q = "dropWhile (\<lambda>c. c = slash) p"
    show ?thesis
    proof (cases "?q = []")
      case True
      have "path_elems p = []" using path_elems_slash [of p] unfolding True by (simp add: path_elems_def)
      moreover have "skipelem p = None" unfolding skipelem_def Let_def using True by (rule if_P)
      ultimately show ?thesis by simp
    next
      case False
      then have h: "hd ?q \<noteq> slash" by (rule hd_dropWhile)
      let ?r = "dropWhile (\<lambda>c. c = slash) (dropWhile (\<lambda>c. c \<noteq> slash) ?q)"
      have "?r = [] \<or> hd ?r \<noteq> slash" using hd_dropWhile by blast
      moreover have "?r \<noteq> [] \<Longrightarrow> hd ?r \<noteq> slash \<Longrightarrow> path_elems ?r \<noteq> []"
        using path_elems_cons [of ?r] by simp
      moreover have "path_elems p = take DIRSIZ (takeWhile (\<lambda>c. c \<noteq> slash) ?q) # path_elems ?r"
        using path_elems_cons [OF False h] path_elems_slash by simp
      moreover have sk: "skipelem p = Some (take DIRSIZ (takeWhile (\<lambda>c. c \<noteq> slash) ?q), ?r)"
        unfolding skipelem_def Let_def if_not_P [OF False] by simp
      moreover have "path_elems [] = []" by (simp add: path_elems_def)
      moreover have "takeWhile (\<lambda>c. c = slash) ?r = []" unfolding takeWhile_eq_Nil_iff using hd_dropWhile by blast
      ultimately show ?thesis unfolding sk option.case prod.case by metis
    qed
  qed
  have "skip_all path = path_elems path"
  proof (induction path rule: skip_all.induct)
    case (1 path)
    then show ?case using step [of path] by (auto simp: skip_all.simps [of path] split: option.splits)
  qed
  with step show ?thesis by blast
qed

end
