(* ===== verification/File.thy ===== *)
theory File
  imports Fs
begin

text \<open>
  Open files and pipes, \<open>kernel/file.c\<close> and \<open>kernel/pipe.c\<close>. A \<open>struct file *\<close> is an index
  of \<open>ftable.file\<close>. The pipe in a page is the value of \<open>pipes\<close> at the page's address.
  Bytes moved to or from the caller's buffer are lists, as in theory \<open>Fs\<close>.
\<close>

section \<open>State\<close>

definition NFILE :: nat where "NFILE = 100"
definition PIPESIZE :: nat where "PIPESIZE = 512"

datatype ftype = FD_NONE | FD_PIPE | FD_INODE

record struct_file =
  ftyp :: ftype
  fref :: int
  readable :: bool
  writable :: bool
  fpipe :: addr
  fip :: nat
  foff :: u32

record pipe =
  pdata :: "u8 list"
  nread :: u32
  nwrite :: u32
  readopen :: bool
  writeopen :: bool

record file_st = fs_st +
  ftable :: "struct_file list"
  pipes :: "addr \<Rightarrow> pipe"

definition upd_file :: "nat \<Rightarrow> (struct_file \<Rightarrow> struct_file) \<Rightarrow> ('z file_st_scheme, unit) kop" where
  "upd_file f g = kmod (\<lambda>s. s\<lparr>ftable := (ftable s)[f := g (ftable s ! f)]\<rparr>)"

definition get_file :: "nat \<Rightarrow> ('z file_st_scheme, struct_file) kop" where
  "get_file f = kget (\<lambda>s. ftable s ! f)"

definition upd_pipe :: "addr \<Rightarrow> (pipe \<Rightarrow> pipe) \<Rightarrow> ('z file_st_scheme, unit) kop" where
  "upd_pipe p g = kmod (\<lambda>s. s\<lparr>pipes := (pipes s)(p := g (pipes s p))\<rparr>)"

definition get_pipe :: "addr \<Rightarrow> ('z file_st_scheme, pipe) kop" where
  "get_pipe p = kget (\<lambda>s. pipes s p)"

section \<open>Pipes\<close>

definition pipeclose :: "addr \<Rightarrow> bool \<Rightarrow> ('z file_st_scheme, unit) kop" where
  "pipeclose p wr =
     kbind (if wr then kbind (upd_pipe p (\<lambda>x. x\<lparr>writeopen := False\<rparr>)) (\<lambda>_. wakeup (ChPipeRead p))
            else kbind (upd_pipe p (\<lambda>x. x\<lparr>readopen := False\<rparr>)) (\<lambda>_. wakeup (ChPipeWrite p))) (\<lambda>_.
     kbind (get_pipe p) (\<lambda>x.
     kwhen (\<not> readopen x \<and> \<not> writeopen x) (kfree p)))"

text \<open>The result of a write: a value, or the bytes still to be written when the writer
  wakes up again.\<close>

datatype wresult = WRet int | WBlock "u8 list"

definition pipe_full :: "pipe \<Rightarrow> bool" where
  "pipe_full x \<longleftrightarrow> nwrite x = nread x + of_nat PIPESIZE"

definition pipe_put :: "u8 \<Rightarrow> pipe \<Rightarrow> pipe" where
  "pipe_put c x = x\<lparr>pdata := (pdata x)[unat (nwrite x) mod PIPESIZE := c], nwrite := nwrite x + 1\<rparr>"

primrec pipewrite_loop :: "addr \<Rightarrow> int \<Rightarrow> u8 list \<Rightarrow> ('z file_st_scheme, wresult) kop" where
  "pipewrite_loop p n [] = kbind (wakeup (ChPipeRead p)) (\<lambda>_. kret (WRet n))"
| "pipewrite_loop p n (c # cs) =
     kbind (get_pipe p) (\<lambda>x.
     if pipe_full x then
       kbind curproc (\<lambda>me.
       kbind (kget (\<lambda>s. killed (procs s me))) (\<lambda>k.
       if \<not> readopen x \<or> k then kret (WRet (-1))
       else
       kbind (wakeup (ChPipeRead p)) (\<lambda>_.
       kbind (sleep (ChPipeWrite p)) (\<lambda>_.
       kret (WBlock (c # cs))))))
     else kbind (upd_pipe p (pipe_put c)) (\<lambda>_. pipewrite_loop p n cs))"

text \<open>\<open>bs\<close> are the \<open>n\<close> bytes at \<open>addr\<close>.\<close>

definition pipewrite :: "addr \<Rightarrow> u8 list \<Rightarrow> int \<Rightarrow> ('z file_st_scheme, wresult) kop" where
  "pipewrite p bs n = pipewrite_loop p n bs"

text \<open>The copying loop: \<open>n\<close> more bytes at most.\<close>

primrec piperead_copy :: "addr \<Rightarrow> nat \<Rightarrow> ('z file_st_scheme, u8 list) kop" where
  "piperead_copy p 0 = kret []"
| "piperead_copy p (Suc n) =
     kbind (get_pipe p) (\<lambda>x.
     if nread x = nwrite x then kret []
     else
     kbind (upd_pipe p (\<lambda>x. x\<lparr>nread := nread x + 1\<rparr>)) (\<lambda>_.
     kbind (piperead_copy p n) (\<lambda>rest.
     kret (pdata x ! (unat (nread x) mod PIPESIZE) # rest))))"

definition piperead :: "addr \<Rightarrow> int \<Rightarrow> ('z file_st_scheme, (int \<times> u8 list) outcome) kop" where
  "piperead p n =
     kbind (get_pipe p) (\<lambda>x.
     if nread x = nwrite x \<and> writeopen x then
       kbind curproc (\<lambda>me.
       kbind (kget (\<lambda>s. killed (procs s me))) (\<lambda>k.
       if k then kret (Ret (-1, []))
       else kbind (sleep (ChPipeRead p)) (\<lambda>_. kret Blocked)))
     else
     kbind (piperead_copy p (nat n)) (\<lambda>bs.
     kbind (wakeup (ChPipeWrite p)) (\<lambda>_.
     kret (Ret (int (length bs), bs)))))"

section \<open>Files\<close>

definition filealloc :: "('z file_st_scheme, nat option) kop" where
  "filealloc =
     kbind (kget (\<lambda>s. List.find (\<lambda>f. fref (ftable s ! f) = 0) [0..<NFILE])) (\<lambda>r.
     case r of
       None \<Rightarrow> kret None
     | Some f \<Rightarrow> kbind (upd_file f (\<lambda>x. x\<lparr>fref := 1\<rparr>)) (\<lambda>_. kret (Some f)))"

definition filedup :: "nat \<Rightarrow> ('z file_st_scheme, nat) kop" where
  "filedup f =
     kbind (get_file f) (\<lambda>x.
     if fref x < 1 then kfail (Panic ''filedup'')
     else kbind (upd_file f (\<lambda>x. x\<lparr>fref := fref x + 1\<rparr>)) (\<lambda>_. kret f))"

definition fileclose :: "nat \<Rightarrow> ('z file_st_scheme, unit) kop" where
  "fileclose f =
     kbind (get_file f) (\<lambda>x.
     if fref x < 1 then kfail (Panic ''fileclose'')
     else if fref x - 1 > 0 then upd_file f (\<lambda>x. x\<lparr>fref := fref x - 1\<rparr>)
     else
     kbind (upd_file f (\<lambda>x. x\<lparr>fref := 0, ftyp := FD_NONE\<rparr>)) (\<lambda>_.
     case ftyp x of
       FD_PIPE \<Rightarrow> pipeclose (fpipe x) (writable x)
     | FD_INODE \<Rightarrow> iput (fip x)
     | FD_NONE \<Rightarrow> kret ()))"

text \<open>The failure exit of \<open>pipealloc\<close>.\<close>

definition pipealloc_bad :: "addr \<Rightarrow> nat option \<Rightarrow> nat option \<Rightarrow> ('z file_st_scheme, (nat \<times> nat) option) kop" where
  "pipealloc_bad p f0 f1 =
     kbind (kwhen (p \<noteq> 0) (kfree p)) (\<lambda>_.
     kbind (case f0 of None \<Rightarrow> kret () | Some f \<Rightarrow> fileclose f) (\<lambda>_.
     kbind (case f1 of None \<Rightarrow> kret () | Some f \<Rightarrow> fileclose f) (\<lambda>_.
     kret None)))"

definition pipealloc :: "('z file_st_scheme, (nat \<times> nat) option) kop" where
  "pipealloc =
     kbind filealloc (\<lambda>f0.
     case f0 of
       None \<Rightarrow> pipealloc_bad 0 None None
     | Some a \<Rightarrow>
     kbind filealloc (\<lambda>f1.
     case f1 of
       None \<Rightarrow> pipealloc_bad 0 (Some a) None
     | Some b \<Rightarrow>
     kbind kalloc (\<lambda>p.
     if p = 0 then pipealloc_bad 0 (Some a) (Some b)
     else
     kbind (upd_pipe p (\<lambda>x. x\<lparr>readopen := True, writeopen := True, nwrite := 0, nread := 0\<rparr>)) (\<lambda>_.
     kbind (upd_file a (\<lambda>x. x\<lparr>ftyp := FD_PIPE, readable := True, writable := False, fpipe := p\<rparr>)) (\<lambda>_.
     kbind (upd_file b (\<lambda>x. x\<lparr>ftyp := FD_PIPE, readable := False, writable := True, fpipe := p\<rparr>)) (\<lambda>_.
     kret (Some (a, b))))))))"

text \<open>The stat structure is \<open>Some\<close> when the call returns 0.\<close>

definition filestat :: "nat \<Rightarrow> ('z file_st_scheme, stat option) kop" where
  "filestat f =
     kbind (get_file f) (\<lambda>x.
     if ftyp x = FD_INODE then
       kbind (ilock (fip x)) (\<lambda>_.
       kbind (stati (fip x)) (\<lambda>st.
       kbind (iunlock (fip x)) (\<lambda>_.
       kret (Some st))))
     else kret None)"

definition fileread :: "'y file_st_ext devsw \<Rightarrow> nat \<Rightarrow> int \<Rightarrow> ('y file_st_scheme, (int \<times> u8 list) outcome) kop" where
  "fileread dsw f n =
     kbind (get_file f) (\<lambda>x.
     if \<not> readable x then kret (Ret (-1, []))
     else
     case ftyp x of
       FD_PIPE \<Rightarrow> piperead (fpipe x) n
     | FD_INODE \<Rightarrow>
         kbind (ilock (fip x)) (\<lambda>_.
         kbind (readi dsw (fip x) (foff x) (of_int n)) (\<lambda>(r, bs).
         kbind (kwhen (r > 0) (upd_file f (\<lambda>x. x\<lparr>foff := foff x + of_int r\<rparr>))) (\<lambda>_.
         kbind (iunlock (fip x)) (\<lambda>_.
         kret (Ret (r, bs))))))
     | FD_NONE \<Rightarrow> kfail (Panic ''fileread''))"

definition filewrite :: "'y file_st_ext devsw \<Rightarrow> nat \<Rightarrow> u8 list \<Rightarrow> int \<Rightarrow> ('y file_st_scheme, wresult) kop" where
  "filewrite dsw f bs n =
     kbind (get_file f) (\<lambda>x.
     if \<not> writable x then kret (WRet (-1))
     else
     case ftyp x of
       FD_PIPE \<Rightarrow> pipewrite (fpipe x) bs n
     | FD_INODE \<Rightarrow>
         kbind (ilock (fip x)) (\<lambda>_.
         kbind (writei dsw (fip x) bs (foff x) (of_int n)) (\<lambda>r.
         kbind (kwhen (r > 0) (upd_file f (\<lambda>x. x\<lparr>foff := foff x + of_int r\<rparr>))) (\<lambda>_.
         kbind (iunlock (fip x)) (\<lambda>_.
         kret (WRet r)))))
     | FD_NONE \<Rightarrow> kfail (Panic ''filewrite''))"


section \<open>A pipe is a bounded queue\<close>

text \<open>The bytes in the pipe, oldest first. The counters wrap around at \<open>2 ^ 32\<close>, a
  multiple of the size of the buffer.\<close>

definition pipe_len :: "pipe \<Rightarrow> nat" where
  "pipe_len x = unat (nwrite x - nread x)"

definition contents :: "pipe \<Rightarrow> u8 list" where
  "contents x = map (\<lambda>k. pdata x ! (unat (nread x + of_nat k) mod PIPESIZE)) [0..<pipe_len x]"

definition pipe_ok :: "pipe \<Rightarrow> bool" where
  "pipe_ok x \<longleftrightarrow> length (pdata x) = PIPESIZE \<and> pipe_len x \<le> PIPESIZE"

lemma length_contents [simp]: "length (contents x) = pipe_len x"
  by (simp add: contents_def)

lemma upd_pipe_run [simp]: "upd_pipe p g s = Inr ((), s\<lparr>pipes := (pipes s)(p := g (pipes s p))\<rparr>)"
  by (simp add: upd_pipe_def)

lemma get_pipe_run [simp]: "get_pipe p s = Inr (pipes s p, s)"
  by (simp add: get_pipe_def)

lemma mod_PIPESIZE_u32: "n mod 4294967296 mod PIPESIZE = n mod PIPESIZE"
  by (simp add: PIPESIZE_def mod_mod_cancel)

lemma unat_add_mod: "unat (a + of_nat k :: u32) mod PIPESIZE = (unat a + k) mod PIPESIZE"
  by (simp add: unat_word_ariths unat_of_nat mod_simps mod_PIPESIZE_u32)

lemma pipe_full_iff: "pipe_ok x \<Longrightarrow> pipe_full x \<longleftrightarrow> pipe_len x = PIPESIZE"
proof -
  have "pipe_full x \<longleftrightarrow> nwrite x - nread x = of_nat PIPESIZE"
    by (auto simp: pipe_full_def algebra_simps)
  also have "\<dots> \<longleftrightarrow> pipe_len x = PIPESIZE"
    by (simp add: pipe_len_def word_unat_eq_iff PIPESIZE_def)
  finally show "pipe_full x \<longleftrightarrow> pipe_len x = PIPESIZE" .
qed

lemma contents_alt: "contents x = map (\<lambda>k. pdata x ! ((unat (nread x) + k) mod PIPESIZE)) [0..<pipe_len x]"
  by (simp add: contents_def unat_add_mod)

lemma nwrite_mod: "unat (nwrite x) mod PIPESIZE = (unat (nread x) + pipe_len x) mod PIPESIZE"
  using unat_add_mod [of "nread x" "pipe_len x"] by (simp add: pipe_len_def)

lemma pipe_put_ok:
  assumes ok: "pipe_ok x" and nf: "pipe_len x < PIPESIZE"
  shows "pipe_ok (pipe_put c x)" "contents (pipe_put c x) = contents x @ [c]" "nwrite (pipe_put c x) = nwrite x + 1"
proof -
  have "nwrite (pipe_put c x) - nread (pipe_put c x) = (nwrite x - nread x) + 1"
    by (simp add: pipe_put_def)
  then have l: "pipe_len (pipe_put c x) = Suc (pipe_len x)"
    using nf by (simp add: pipe_len_def unat_word_ariths PIPESIZE_def)
  show "pipe_ok (pipe_put c x)" using ok nf l by (simp add: pipe_ok_def pipe_put_def)
  show "nwrite (pipe_put c x) = nwrite x + 1" by (simp add: pipe_put_def)
  have len: "length (pdata x) = PIPESIZE" using ok by (simp add: pipe_ok_def)
  have ne: "(unat (nread x) + k) mod PIPESIZE \<noteq> (unat (nread x) + pipe_len x) mod PIPESIZE" if "k < pipe_len x" for k
  proof
    assume "(unat (nread x) + k) mod PIPESIZE = (unat (nread x) + pipe_len x) mod PIPESIZE"
    then have "PIPESIZE dvd (unat (nread x) + pipe_len x) - (unat (nread x) + k)"
      using that by (subst mod_eq_dvd_iff_nat [symmetric]) simp_all
    then show False using that nf by (simp add: nat_dvd_not_less)
  qed
  have "contents (pipe_put c x) = map (\<lambda>k. (pdata x)[(unat (nread x) + pipe_len x) mod PIPESIZE := c] ! ((unat (nread x) + k) mod PIPESIZE)) [0..<Suc (pipe_len x)]"
    unfolding contents_alt l by (simp add: pipe_put_def nwrite_mod)
  also have "\<dots> = contents x @ [c]"
    unfolding contents_alt using not_sym [OF ne] len by (auto simp: PIPESIZE_def)
  finally show "contents (pipe_put c x) = contents x @ [c]" .
qed

lemma pipe_get_ok:
  assumes ok: "pipe_ok x" and ne: "nread x \<noteq> nwrite x"
  shows "pipe_ok (x\<lparr>nread := nread x + 1\<rparr>)"
    "contents x = pdata x ! (unat (nread x) mod PIPESIZE) # contents (x\<lparr>nread := nread x + 1\<rparr>)"
proof -
  have pos: "nwrite x - nread x \<noteq> 0" using ne by simp
  have e: "nwrite x - (nread x + 1) = (nwrite x - nread x) - 1" by (rule diff_diff_eq [symmetric])
  have "pipe_len (x\<lparr>nread := nread x + 1\<rparr>) = unat (nwrite x - nread x) - 1"
    unfolding unat_minus_one [OF pos, symmetric] e [symmetric] by (simp add: pipe_len_def)
  moreover have "0 < unat (nwrite x - nread x)" using pos unat_gt_0 by blast
  ultimately have l: "pipe_len x = Suc (pipe_len (x\<lparr>nread := nread x + 1\<rparr>))"
    by (simp add: pipe_len_def)
  show "pipe_ok (x\<lparr>nread := nread x + 1\<rparr>)" using ok l by (simp add: pipe_ok_def)
  have m: "(Suc (unat (nread x)) + k) mod PIPESIZE = (unat (nread x + 1) + k) mod PIPESIZE" for k
    using unat_add_mod [of "nread x" 1] mod_add_left_eq [of "unat (nread x + 1)" PIPESIZE k]
      mod_add_left_eq [of "Suc (unat (nread x))" PIPESIZE k] by simp
  show "contents x = pdata x ! (unat (nread x) mod PIPESIZE) # contents (x\<lparr>nread := nread x + 1\<rparr>)"
    unfolding contents_alt l by (simp add: upt_conv_Cons map_Suc_upt [symmetric] m [symmetric] del: upt_Suc)
qed


lemma sleep_pipes:
  fixes s :: "'z file_st_scheme"
  assumes "sleep ch s = Inr (r, t)"
  shows "pipes t = pipes s"
  using assms by (auto simp: sleep_def sched_def curproc_def kbind_Inr_iff split: option.splits if_splits)

lemma pipewrite_spec:
  assumes "pipe_ok (pipes s p)" "pipewrite_loop p n bs s = Inr (r, t)"
    and k: "k = min (length bs) (PIPESIZE - pipe_len (pipes s p))"
  shows "pipe_ok (pipes t p) \<and> contents (pipes t p) = contents (pipes s p) @ take k bs
     \<and> nwrite (pipes t p) = nwrite (pipes s p) + of_nat k
     \<and> (if k = length bs then r = WRet n else r = WRet (-1) \<or> r = WBlock (drop k bs))"
  using assms
proof (induction bs arbitrary: s k)
  case Nil
  then show ?case by auto
next
  case (Cons c cs)
  note ok = Cons.prems(1)
  show ?case
  proof (cases "pipe_full (pipes s p)")
    case True
    then have "pipe_len (pipes s p) = PIPESIZE" using pipe_full_iff [OF ok] by simp
    then have "k = 0" using Cons.prems(3) by simp
    moreover have "pipes t = pipes s \<and> (r = WRet (-1) \<or> r = WBlock (c # cs))"
      using Cons.prems(2) True
      by (auto simp: kbind_Inr_iff curproc_def split: option.splits if_splits dest!: sleep_pipes)
    ultimately show ?thesis using ok by auto
  next
    case False
    let ?u = "s\<lparr>pipes := (pipes s)(p := pipe_put c (pipes s p))\<rparr>"
    have lt: "pipe_len (pipes s p) < PIPESIZE"
      using False pipe_full_iff [OF ok] ok by (simp add: pipe_ok_def)
    note put = pipe_put_ok [OF ok lt, of c]
    have l: "pipe_len (pipe_put c (pipes s p)) = Suc (pipe_len (pipes s p))"
      using arg_cong [OF put(2), of length] by simp
    obtain j where kj: "k = Suc j" and j: "j = min (length cs) (PIPESIZE - pipe_len (pipes ?u p))"
      using Cons.prems(3) lt l by (cases k) auto
    have "pipewrite_loop p n cs ?u = Inr (r, t)" using Cons.prems(2) False by simp
    from Cons.IH [OF _ this j] put show ?thesis
      unfolding kj by (auto simp: add.commute split: if_splits)
  qed
qed

lemma piperead_copy_spec:
  assumes "pipe_ok (pipes s p)"
  shows "\<exists>t. piperead_copy p n s = Inr (take n (contents (pipes s p)), t) \<and> pipe_ok (pipes t p)
     \<and> contents (pipes t p) = drop n (contents (pipes s p)) \<and> nwrite (pipes t p) = nwrite (pipes s p)"
  using assms
proof (induction n arbitrary: s)
  case 0
  then show ?case by simp
next
  case (Suc n)
  show ?case
  proof (cases "nread (pipes s p) = nwrite (pipes s p)")
    case True
    then have "contents (pipes s p) = []" by (simp add: contents_def pipe_len_def)
    then show ?thesis using True Suc.prems by simp
  next
    case False
    let ?x = "pipes s p"
    let ?u = "s\<lparr>pipes := (pipes s)(p := ?x\<lparr>nread := nread ?x + 1\<rparr>)\<rparr>"
    note g = pipe_get_ok [OF Suc.prems False]
    have "pipe_ok (pipes ?u p)" using g(1) by simp
    from Suc.IH [OF this] obtain t where t: "piperead_copy p n ?u = Inr (take n (contents (pipes ?u p)), t)" "pipe_ok (pipes t p)"
      "contents (pipes t p) = drop n (contents (pipes ?u p))" "nwrite (pipes t p) = nwrite (pipes ?u p)"
      by blast
    have c: "contents (pipes s p) = pdata ?x ! (unat (nread ?x) mod PIPESIZE) # contents (pipes ?u p)"
      using g(2) by simp
    show ?thesis using t False unfolding c by simp
  qed
qed

lemma piperead_spec:
  assumes ok: "pipe_ok (pipes s p)" and r: "piperead p n s = Inr (r, t)"
  shows "pipe_ok (pipes t p) \<and> nwrite (pipes t p) = nwrite (pipes s p) \<and>
    (case r of
       Blocked \<Rightarrow> contents (pipes s p) = [] \<and> writeopen (pipes s p) \<and> pipes t = pipes s
     | Ret (m, out) \<Rightarrow> contents (pipes s p) = out @ contents (pipes t p)
         \<and> (m = int (length out) \<and> out = take (nat n) (contents (pipes s p)) \<or> m = -1 \<and> out = [] \<and> contents (pipes s p) = []))"
proof (cases "nread (pipes s p) = nwrite (pipes s p) \<and> writeopen (pipes s p)")
  case True
  then have c: "contents (pipes s p) = []" by (simp add: contents_def pipe_len_def)
  show ?thesis
    using r True c ok
    by (auto simp: piperead_def kbind_Inr_iff curproc_def split: option.splits if_splits outcome.splits dest!: sleep_pipes)
next
  case False
  obtain u where u: "piperead_copy p (nat n) s = Inr (take (nat n) (contents (pipes s p)), u)" "pipe_ok (pipes u p)"
    "contents (pipes u p) = drop (nat n) (contents (pipes s p))" "nwrite (pipes u p) = nwrite (pipes s p)"
    using piperead_copy_spec [OF ok] by blast
  have "piperead p n s = Inr (Ret (int (length (take (nat n) (contents (pipes s p)))), take (nat n) (contents (pipes s p))),
      u\<lparr>ptable := map (wake (ChPipeWrite p)) (ptable u)\<rparr>)"
    using False u(1) by (auto simp: piperead_def)
  with r have "r = Ret (int (length (take (nat n) (contents (pipes s p)))), take (nat n) (contents (pipes s p)))"
    "t = u\<lparr>ptable := map (wake (ChPipeWrite p)) (ptable u)\<rparr>" by auto
  then show ?thesis using u by simp
qed

text \<open>
  Runs of a pipe: writers, readers and everything else that leaves the pipe alone, in
  any order. The label has the bytes that went in, counted by \<open>nwrite\<close>, and those that
  came out.
\<close>

inductive pipe_step :: "addr \<Rightarrow> 'z file_st_scheme \<Rightarrow> u8 list \<times> u8 list \<Rightarrow> 'z file_st_scheme \<Rightarrow> bool" for p where
  pwrite: "pipewrite p bs n s = Inr (r, t) \<Longrightarrow>
     pipe_step p s (take (unat (nwrite (pipes t p) - nwrite (pipes s p))) bs, []) t"
| pread: "piperead p n s = Inr (Ret (m, out), t) \<Longrightarrow> pipe_step p s ([], out) t"
| pblock: "piperead p n s = Inr (Blocked, t) \<Longrightarrow> pipe_step p s ([], []) t"
| pother: "pipes t p = pipes s p \<Longrightarrow> pipe_step p s ([], []) t"

inductive pipe_run :: "addr \<Rightarrow> 'z file_st_scheme \<Rightarrow> u8 list \<Rightarrow> u8 list \<Rightarrow> 'z file_st_scheme \<Rightarrow> bool" for p where
  run_refl: "pipe_run p s [] [] s"
| run_step: "pipe_run p s xs ys t \<Longrightarrow> pipe_step p t (ws, rs) u \<Longrightarrow> pipe_run p s (xs @ ws) (ys @ rs) u"

lemma pipe_step_fifo:
  assumes "pipe_step p s l t" "pipe_ok (pipes s p)"
  shows "pipe_ok (pipes t p) \<and> contents (pipes s p) @ fst l = snd l @ contents (pipes t p)"
  using assms
proof cases
  case (pwrite bs n r)
  let ?k = "min (length bs) (PIPESIZE - pipe_len (pipes s p))"
  have t: "pipe_ok (pipes t p)" "contents (pipes t p) = contents (pipes s p) @ take ?k bs"
    "nwrite (pipes t p) = nwrite (pipes s p) + of_nat ?k"
    using pipewrite_spec [OF assms(2), of n bs r t ?k] pwrite by (auto simp: pipewrite_def)
  have "?k \<le> PIPESIZE" by simp
  then have "?k < 2 ^ 32" by (simp add: PIPESIZE_def)
  then have "unat (nwrite (pipes t p) - nwrite (pipes s p)) = ?k"
    unfolding t(3) by (simp add: unat_of_nat)
  then show ?thesis using t pwrite by simp
next
  case (pread n m out)
  then show ?thesis using piperead_spec [OF assms(2) pread(2)] by auto
next
  case (pblock n)
  then show ?thesis using piperead_spec [OF assms(2) pblock(2)] by auto
next
  case pother
  then show ?thesis using assms(2) by simp
qed

section \<open>Properties\<close>

text \<open>
  C5. A pipe is a queue. In every interleaving of \<open>pipewrite\<close> and \<open>piperead\<close> calls by any
  processes, complete, partial, blocked or killed, and of other kernel activity, the
  bytes read are the first of the bytes that were in the pipe or written since, in
  order, and the others are still in it, never more than 512; this does not depend
  on the counters, which wrap around.
\<close>

theorem pipe_fifo:
  assumes "pipe_run p s xs ys t" "pipe_ok (pipes s p)"
  shows "contents (pipes s p) @ xs = ys @ contents (pipes t p) \<and> length (contents (pipes t p)) \<le> PIPESIZE"
proof -
  have "pipe_ok (pipes t p) \<and> contents (pipes s p) @ xs = ys @ contents (pipes t p)"
    using assms
  proof (induction rule: pipe_run.induct)
    case (run_step s xs ys t ws rs u)
    then show ?case using pipe_step_fifo [OF run_step.hyps(2)] by (metis append.assoc fst_conv snd_conv)
  qed simp
  then show ?thesis by (simp add: pipe_ok_def)
qed


definition file_example :: file_st where
  "file_example = fs_st.extend (fs_example\<lparr>cur := Some 0\<rparr>)
     \<lparr>ftable = \<lparr>ftyp = FD_PIPE, fref = 1, readable = False, writable = True, fpipe = 0x9000, fip = 0, foff = 0\<rparr>
        # replicate 99 \<lparr>ftyp = FD_NONE, fref = 0, readable = False, writable = False, fpipe = 0, fip = 0, foff = 0\<rparr>,
      pipes = (\<lambda>_. \<lparr>pdata = replicate 512 0, nread = -1, nwrite = -1, readopen = True, writeopen = True\<rparr>)\<rparr>"

lemma file_example_sel [simp]: "pipes file_example = (\<lambda>_. \<lparr>pdata = replicate 512 0, nread = -1, nwrite = -1, readopen = True, writeopen = True\<rparr>)"
  "cur file_example = Some 0" "ptable file_example = ptable fs_example"
  "ftable file_example = \<lparr>ftyp = FD_PIPE, fref = 1, readable = False, writable = True, fpipe = 0x9000, fip = 0, foff = 0\<rparr>
        # replicate 99 \<lparr>ftyp = FD_NONE, fref = 0, readable = False, writable = False, fpipe = 0, fip = 0, foff = 0\<rparr>"
  by (simp_all add: file_example_def fs_st.defs fs_example_def bio_st.defs bio_example_def proc_st.defs mlfq_example_def)

theorem pipe_fifo_witness:
  "\<exists>t u v. pipewrite 0x9000 [7, 8, 9] 3 file_example = Inr (WRet 3, t) \<and> piperead 0x9000 2 t = Inr (Ret (2, [7, 8]), u)
     \<and> pipe_run 0x9000 file_example [7, 8, 9] [7, 8] v \<and> [7, 8, 9] = [7, 8] @ contents (pipes v 0x9000)"
proof -
  let ?p = "0x9000 :: addr"
  have ok: "pipe_ok (pipes file_example ?p)" "contents (pipes file_example ?p) = []"
    by (simp_all add: pipe_ok_def PIPESIZE_def pipe_len_def contents_def)
  have "\<exists>t. pipewrite ?p [7, 8, 9] 3 file_example = Inr (WRet 3, t) \<and> nwrite (pipes t ?p) = 2"
    by (simp add: pipewrite_def pipe_full_def pipe_put_def PIPESIZE_def)
  then obtain t where t: "pipewrite ?p [7, 8, 9] 3 file_example = Inr (WRet 3, t)" "nwrite (pipes t ?p) = 2" by blast
  have c: "pipe_ok (pipes t ?p) \<and> contents (pipes t ?p) = [7, 8, 9]"
    using pipewrite_spec [OF ok(1) t(1) [unfolded pipewrite_def] refl] ok(2)
    by (simp add: pipe_len_def PIPESIZE_def)
  then have "nread (pipes t ?p) \<noteq> nwrite (pipes t ?p)" by (auto simp: contents_def pipe_len_def)
  then obtain u where u: "piperead ?p 2 t = Inr (Ret (2, [7, 8]), u)"
    using piperead_copy_spec [of t ?p 2] c by (auto simp: piperead_def)
  have w: "pipe_run ?p file_example [7, 8, 9] [] t"
    using pipe_run.run_step [OF pipe_run.run_refl pipe_step.pwrite [OF t(1)]] t(2) by simp
  have r: "pipe_run ?p file_example [7, 8, 9] [7, 8] u"
    using pipe_run.run_step [OF w pipe_step.pread [OF u]] by simp
  from pipe_fifo [OF r ok(1)] ok(2) t(1) u r show ?thesis by auto
qed



end
