(* ===== verification/Lifecycle.thy ===== *)
theory Lifecycle
  imports File
begin

text \<open>
  The life of a process, the part of \<open>kernel/proc.c\<close> that also concerns open files and
  inodes: \<open>userinit\<close>, \<open>fork\<close>, \<open>clone\<close> and \<open>exit\<close>. The program \<open>initcode\<close>, which the build
  generates, is an argument.
\<close>

section \<open>Model\<close>

definition SEG_UCODE :: u16 where "SEG_UCODE = 4"
definition SEG_UDATA :: u16 where "SEG_UDATA = 5"
definition DPL_USER :: u16 where "DPL_USER = 3"
definition FL_IF :: u32 where "FL_IF = 0x200"

text \<open>\<open>sizeof(p->name)\<close>.\<close>

definition NAMELEN :: int where "NAMELEN = 16"

definition user_tf :: trapframe where
  "user_tf = zero_tf\<lparr>tf_cs := push_bit 3 SEG_UCODE OR DPL_USER, tf_ds := push_bit 3 SEG_UDATA OR DPL_USER,
     tf_es := push_bit 3 SEG_UDATA OR DPL_USER, tf_ss := push_bit 3 SEG_UDATA OR DPL_USER,
     tf_eflags := FL_IF, tf_esp := of_nat PGSIZE, tf_eip := 0\<rparr>"

definition userinit :: "u8 list \<Rightarrow> ('z file_st_scheme, unit) kop" where
  "userinit initcode =
     kbind allocproc (\<lambda>r.
     case r of
       None \<Rightarrow> kfail (Undef ''userinit: p'')
     | Some p \<Rightarrow>
         kbind (kmod (\<lambda>s. s\<lparr>initproc := Some p\<rparr>)) (\<lambda>_.
         kbind setupkvm (\<lambda>d.
         kbind (upd_proc p (\<lambda>q. q\<lparr>pgdir := d\<rparr>)) (\<lambda>_.
         if d = 0 then kfail (Panic ''userinit: out of memory?'')
         else
         kbind (inituvm d initcode) (\<lambda>_.
         kbind (upd_proc p (\<lambda>q. q\<lparr>psz := of_nat PGSIZE, tf := user_tf,
            pname := safestrcpy (pname q) (cstr_of (map (of_nat \<circ> of_char) ''initcode'')) NAMELEN\<rparr>)) (\<lambda>_.
         kbind (namei [slash]) (\<lambda>ip.
         upd_proc p (\<lambda>q. q\<lparr>cwd := ip, state := RUNNABLE\<rparr>))))))))"

text \<open>What \<open>fork\<close> and \<open>clone\<close> share: the open files and the current directory of \<open>p\<close> are
  passed on to the slot \<open>np\<close>, which becomes runnable and gets the name.\<close>

definition dup_files :: "nat \<Rightarrow> proc \<Rightarrow> ('z file_st_scheme, unit) kop" where
  "dup_files np p =
     kfor [0..<NOFILE] (\<lambda>i.
       case ofile p ! i of
         None \<Rightarrow> kret ()
       | Some f \<Rightarrow> kbind (filedup f) (\<lambda>g. upd_proc np (\<lambda>q. q\<lparr>ofile := (ofile q)[i := Some g]\<rparr>)))"

definition start_child :: "nat \<Rightarrow> proc \<Rightarrow> ('z file_st_scheme, int) kop" where
  "start_child np p =
     kbind (dup_files np p) (\<lambda>_.
     kbind (case cwd p of None \<Rightarrow> kfail (Undef ''proc->cwd'') | Some d \<Rightarrow> idup d) (\<lambda>d.
     kbind (upd_proc np (\<lambda>q. q\<lparr>cwd := Some d\<rparr>)) (\<lambda>_.
     kbind (kget (\<lambda>s. pid (procs s np))) (\<lambda>n.
     kbind (upd_proc np (\<lambda>q. q\<lparr>state := RUNNABLE, pname := safestrcpy (pname q) (pname p) NAMELEN\<rparr>)) (\<lambda>_.
     kret n)))))"

definition fork :: "('z file_st_scheme, int) kop" where
  "fork =
     kbind allocproc (\<lambda>r.
     case r of
       None \<Rightarrow> kret (-1)
     | Some np \<Rightarrow>
         kbind curproc (\<lambda>me.
         kbind (kget (\<lambda>s. procs s me)) (\<lambda>p.
         kbind (copyuvm (pgdir p) (psz p)) (\<lambda>d.
         kbind (upd_proc np (\<lambda>q. q\<lparr>pgdir := d\<rparr>)) (\<lambda>_.
         if d = 0 then
           kbind (kget (\<lambda>s. kstack (procs s np))) (\<lambda>k.
           kbind (kfree k) (\<lambda>_.
           kbind (upd_proc np (\<lambda>q. q\<lparr>kstack := 0, state := UNUSED\<rparr>)) (\<lambda>_.
           kret (-1))))
         else
         kbind (upd_proc np (\<lambda>q. q\<lparr>psz := psz p, parent := Some me, tf := (tf p)\<lparr>tf_eax := 0\<rparr>\<rparr>)) (\<lambda>_.
         start_child np p))))))"

definition clone :: "u32 \<Rightarrow> u32 \<Rightarrow> u32 \<Rightarrow> addr \<Rightarrow> ('z file_st_scheme, int) kop" where
  "clone fcn arg1 arg2 stack =
     kbind allocproc (\<lambda>r.
     case r of
       None \<Rightarrow> kret (-1)
     | Some np \<Rightarrow>
         kbind curproc (\<lambda>me.
         kbind (kget (\<lambda>s. procs s me)) (\<lambda>p.
         kbind (upd_proc np (\<lambda>q. q\<lparr>pgdir := pgdir p, psz := psz p, parent := Some me,
            tf := (tf p)\<lparr>tf_eax := 0, tf_esp := stack + of_nat PGSIZE - 12, tf_eip := fcn, tf_ebp := 0\<rparr>,
            ustack := stack\<rparr>)) (\<lambda>_.
         kbind (uva2ka (pgdir p) stack) (\<lambda>phys.
         if phys = 0 then kfail (Undef ''clone: stack_physical'')
         else
         kbind (store_word (phys + of_nat PGSIZE - 4) arg2) (\<lambda>_.
         kbind (store_word (phys + of_nat PGSIZE - 8) arg1) (\<lambda>_.
         kbind (store_word (phys + of_nat PGSIZE - 12) 0xFFFFFFFF) (\<lambda>_.
         start_child np p))))))))"

text \<open>\<open>exit\<close> does not return: its last step is the switch to the scheduler.\<close>

definition close_files :: "nat \<Rightarrow> ('z file_st_scheme, unit) kop" where
  "close_files me =
     kfor [0..<NOFILE] (\<lambda>fd.
       kbind (kget (\<lambda>s. ofile (procs s me) ! fd)) (\<lambda>r.
       case r of
         None \<Rightarrow> kret ()
       | Some f \<Rightarrow>
           kbind (fileclose f) (\<lambda>_.
           upd_proc me (\<lambda>q. q\<lparr>ofile := (ofile q)[fd := None]\<rparr>))))"

definition exit :: "('z file_st_scheme, unit) kop" where
  "exit =
     kbind curproc (\<lambda>me.
     kbind (kget initproc) (\<lambda>i.
     if i = Some me then kfail (Panic ''init exiting'')
     else
     kbind (close_files me) (\<lambda>_.
     kbind (kget (\<lambda>s. cwd (procs s me))) (\<lambda>c.
     kbind (case c of None \<Rightarrow> kfail (Undef ''proc->cwd'') | Some d \<Rightarrow> iput d) (\<lambda>_.
     kbind (upd_proc me (\<lambda>q. q\<lparr>cwd := None\<rparr>)) (\<lambda>_.
     exit_zombie me))))))"

end
