(* ===== verification/Fork.thy ===== *)
theory Fork
  imports Lifecycle
begin

text \<open>
  What \<open>fork\<close> gives the child. First the address space: \<open>setupkvm\<close> and \<open>copyuvm\<close> of
  \<open>kernel/vm.c\<close> build a page table of their own over copies of the parent's pages.
  Then the slot of the child, the open files and the current directory.
\<close>

section \<open>A page table of one's own\<close>

text \<open>A change of memory within the free pages leaves every page table as it is.\<close>

lemma other_pgdir:
  assumes inv: "kmem_inv s" and g: "pgdir_ok s g"
    and m: "\<forall>a. page_no a \<notin> page_no ` set (free_pages s) \<longrightarrow> mem t a = mem s a"
    and t: "kend t = kend s" "set (free_pages t) \<subseteq> set (free_pages s)"
  shows "pgdir_ok t g" "pte_of (mem t) g va = pte_of (mem s) g va" "pt_pages (mem t) g = pt_pages (mem s) g"
proof -
  have al: "page_aligned x" if "x \<in> set (free_pages s)" for x
    using inv that by (auto simp: kmem_inv_def free_page_ok_def)
  have out: "page_no q \<notin> page_no ` set (free_pages s)" if "q \<in> pt_pages (mem s) g" for q
    using that g al page_aligned_eq_iff by (auto simp: pgdir_ok_def free_page_ok_def)
  note G = pgdir_okD [OF g]
  have pd: "pde (mem t) g vb = pde (mem s) g vb" for vb
    using G(1) m out [of g] by (intro pde_cong) (simp_all add: pt_pages_def)
  then show "pt_pages (mem t) g = pt_pages (mem s) g"
    by (simp add: pt_pages_def)
  show "pgdir_ok t g"
    using g pd t by (rule pgdir_ok_cong)
  show "pte_of (mem t) g va = pte_of (mem s) g va"
  proof (rule pte_of_cong [OF G(1)])
    show "mem t a = mem s a" if "page_no a \<in> page_no ` pt_pages (mem s) g" for a
      using that out by (intro m [rule_format]) (auto; metis imageI)
  qed
qed

lemma fresh_pgdir:
  assumes inv: "kmem_inv s" and a: "kalloc s = Inr (p, s1)"
  defines "t \<equiv> s1\<lparr>mem := memset (mem s1) p 0 4096\<rparr>"
  shows "kmem_inv t" "pgdir_ok t p" "pt_pages (mem t) p = {p}" "pte_of (mem t) p va = 0"
    "p \<in> set (free_pages s)" "set (free_pages t) = set (free_pages s) - {p}" "p \<noteq> 0"
    "kend t = kend s" "kmem_st.more t = kmem_st.more s"
    "\<And>x. page_no x \<notin> page_no ` set (free_pages s) \<Longrightarrow> mem t x = mem s x"
proof -
  note A = kalloc_facts [OF inv a]
  have al: "page_aligned x" if "x \<in> set (free_pages s)" for x
    using inv that by (auto simp: kmem_inv_def free_page_ok_def)
  have keep: "memset (mem s1) p 0 4096 x = mem s1 x" if "page_no x \<noteq> page_no p" for x
    using that by (simp add: memset_page [OF A(9)])
  have "memset (mem s1) p 0 4096 x = mem s1 x" if "page_no x \<in> page_no ` set (free_pages s1)" for x
    using that A(2,3,9) al page_aligned_eq_iff by (intro keep) auto
  from kmem_inv_frame [OF A(1) this] have f: "free_pages t = free_pages s1" and "kmem_inv t"
    by (simp_all add: t_def)
  then show "kmem_inv t" by simp
  have pd: "pde (mem t) p vb = 0" for vb
    unfolding pde_def t_def using A(9) by (simp add: load32_memset_page_0 entry_simps)
  then show pp: "pt_pages (mem t) p = {p}" and "pte_of (mem t) p va = 0"
    by (simp_all add: pt_pages_def pte_of_def)
  show "p \<in> set (free_pages s)" "p \<noteq> 0" "kend t = kend s" "kmem_st.more t = kmem_st.more s"
    using A by (simp_all add: t_def)
  show fp: "set (free_pages t) = set (free_pages s) - {p}"
    using f A(3) by simp
  show "pgdir_ok t p"
    unfolding pgdir_ok_def pp pd using fp A by (simp add: free_page_ok_def t_def)
  show "mem t x = mem s x" if "page_no x \<notin> page_no ` set (free_pages s)" for x
    using that keep [of x] A(2,4) by (auto simp: t_def)
qed

text \<open>The ranges of \<open>kmap\<close>, from page \<open>lo\<close> on, one after the other.\<close>

fun ranges_ok :: "nat \<Rightarrow> (addr \<times> addr \<times> u32) list \<Rightarrow> bool" where
  "ranges_ok lo [] \<longleftrightarrow> True"
| "ranges_ok lo ((p, e, perm) # ks) \<longleftrightarrow>
     lo \<le> page_no p \<and> 0 < e - p \<and> unat p + unat (e - p) \<le> 2 ^ 32 \<and> ranges_ok (Suc (page_no (p + (e - p) - 1))) ks"

lemma setupkvm_loop_spec:
  assumes "ranges_ok lo ks" "kmem_inv s" "pgdir_ok s d" "\<And>va. lo \<le> page_no va \<Longrightarrow> \<not> present (pte_of (mem s) d va)"
  shows "(\<exists>t. setupkvm_loop d ks s = Inr (d, t) \<and> pt_extends d s t
       \<and> (\<forall>va. page_no va < lo \<longrightarrow> pte_of (mem t) d va = pte_of (mem s) d va))
     \<or> (\<exists>f. setupkvm_loop d ks s = Inl f \<and> kalloc_fault f)"
  using assms
proof (induction ks arbitrary: lo s)
  case Nil
  then show ?case by (simp add: pt_extends_refl)
next
  case (Cons k ks)
  obtain p e perm where k: "k = (p, e, perm)" by (cases k)
  let ?sz = "e - p"
  let ?hi = "page_no (p + ?sz - 1)"
  have r: "lo \<le> page_no p" "0 < ?sz" "unat p + unat ?sz \<le> 2 ^ 32" "ranges_ok (Suc ?hi) ks"
    using Cons.prems(1) k by simp_all
  have n: "unat (?sz - 1) = unat ?sz - 1"
    using r(2) unat_minus_one [of ?sz] by (auto simp: word_gt_0)
  have "unat (p + (?sz - 1)) = unat p + unat (?sz - 1)"
    using r(2,3) n by (intro unat_add_lem [THEN iffD1]) (simp add: word_less_nat_alt)
  then have "unat p \<le> unat (p + ?sz - 1)"
    by (simp only: add_diff_eq)
  then have hi: "page_no p \<le> ?hi"
    unfolding page_no_def by (rule div_le_mono)
  then have range: "page_no p \<le> page_no va \<and> page_no va \<le> ?hi" if "page_range p (?hi - page_no p) va" for va
    using that by (simp add: page_range_def)
  consider (ok) t where "mappages d p ?sz p perm s = Inr (0, t)" "mapped_range d p (?hi - page_no p) p perm s t"
    | (remap) va where "page_range p (?hi - page_no p) va" "present (pte_of (mem s) d va)"
    | (fault) f where "mappages d p ?sz p perm s = Inl f" "kalloc_fault f"
    using mappages_spec [OF Cons.prems(2,3) r(2,3), of p perm] by blast
  then show ?case
  proof cases
    case ok
    then have ex: "pt_extends d s t" and pte: "\<And>va. \<not> page_range p (?hi - page_no p) va \<Longrightarrow> pte_of (mem t) d va = pte_of (mem s) d va"
      by (simp_all add: mapped_range_def)
    have inv: "kmem_inv t" "pgdir_ok t d" using ex by (simp_all add: pt_extends_def)
    have "\<not> present (pte_of (mem t) d va)" if "Suc ?hi \<le> page_no va" for va
    proof -
      have "\<not> page_range p (?hi - page_no p) va" using range that by fastforce
      moreover have "lo \<le> page_no va" using that hi r(1) by simp
      ultimately show ?thesis using pte Cons.prems(4) by simp
    qed
    note IH = Cons.IH [OF r(4) inv this]
    have run: "setupkvm_loop d (k # ks) s = setupkvm_loop d ks t"
      using ok(1) by (simp add: k)
    show ?thesis
    proof (cases "\<exists>f. setupkvm_loop d ks t = Inl f \<and> kalloc_fault f")
      case False
      then obtain u where u: "setupkvm_loop d ks t = Inr (d, u)" "pt_extends d t u"
          "\<forall>va. page_no va < Suc ?hi \<longrightarrow> pte_of (mem u) d va = pte_of (mem t) d va"
        using IH by blast
      have "pte_of (mem u) d va = pte_of (mem s) d va" if "page_no va < lo" for va
        using that r(1) hi u(3) pte [of va] range [of va] by (metis less_le_trans le_imp_less_Suc linorder_not_less order_less_imp_le)
      then show ?thesis using run u(1) pt_extends_trans [OF ex u(2)] by auto
    qed (use run in auto)
  next
    case remap
    then show ?thesis using Cons.prems(4) r(1) range by (meson order_trans)
  next
    case fault
    then show ?thesis by (auto simp: k)
  qed
qed

lemma page_no_pred:
  assumes "page_aligned p" "0 < p"
  shows "Suc (page_no (p - 1)) = page_no p"
proof -
  have "unat (p - 1) = unat p - 1" "4096 dvd unat p" "0 < unat p"
    using assms unat_minus_one [of p] by (auto simp: word_gt_0 page_aligned_def unat_gt_0)
  then show ?thesis
    unfolding page_no_def by (auto elim!: dvdE)
qed

lemma ranges_kmap:
  assumes kd: "page_aligned (kdata s)" "0x100000 < kdata s" "kdata s < PHYSTOP"
  shows "ranges_ok 160 (kmap s)"
proof -
  let ?k = "kdata s"
  have k: "0x100000 < unat ?k" "unat ?k < 0x1000000"
    using kd by (simp_all add: word_less_nat_alt PHYSTOP_def)
  have d1: "unat (?k - 0x100000) = unat ?k - 0x100000" and d2: "unat (PHYSTOP - ?k) = 0x1000000 - unat ?k"
    using kd by (simp_all add: unat_sub word_le_nat_alt word_less_nat_alt PHYSTOP_def)
  have "0x100 \<le> page_no ?k"
    using k unfolding page_no_def by simp
  moreover have "Suc (page_no (?k - 1)) = page_no ?k"
    using kd(2) by (intro page_no_pred kd(1)) (simp add: word_less_nat_alt)
  moreover have "0 < ?k - 0x100000" "0 < PHYSTOP - ?k"
    using d1 d2 k by (simp_all add: word_less_nat_alt)
  moreover have "0 < - (0xFE000000 :: u32)"
    by (simp add: word_less_nat_alt)
  ultimately show ?thesis
    using d1 d2 k by (simp add: kmap_def USERTOP_def) (simp add: page_no_def PHYSTOP_def)
qed

lemma setupkvm_spec:
  fixes s :: "'z vm_st_scheme"
  assumes inv: "kmem_inv s" and kd: "page_aligned (kdata s)" "0x100000 < kdata s" "kdata s < PHYSTOP"
  shows "(\<exists>d t. setupkvm s = Inr (d, t) \<and> d \<in> set (free_pages s) \<and> d \<noteq> 0 \<and> kmem_inv t \<and> pgdir_ok t d
        \<and> kend t = kend s \<and> kmem_st.more t = kmem_st.more s \<and> set (free_pages t) \<subseteq> set (free_pages s)
        \<and> pt_pages (mem t) d \<subseteq> set (free_pages s) - set (free_pages t)
        \<and> (\<forall>a. page_no a \<notin> page_no ` set (free_pages s) \<longrightarrow> mem t a = mem s a)
        \<and> (\<forall>va. va < USERTOP \<longrightarrow> pte_of (mem t) d va = 0))
    \<or> (\<exists>f. setupkvm s = Inl f \<and> kalloc_fault f)"
proof (cases "kalloc s")
  case (Inl f)
  then show ?thesis using kalloc_Inl [OF inv Inl] by (simp add: setupkvm_def kalloc_fault_def)
next
  case (Inr x)
  obtain d s1 where a: "kalloc s = Inr (d, s1)" using Inr by (cases x) auto
  let ?s = "s1\<lparr>mem := memset (mem s1) d 0 4096\<rparr>"
  note F = fresh_pgdir [OF inv a]
  have kd': "kdata ?s = kdata s"
    using F(9) by (cases s; cases s1) simp
  have lo: "page_no USERTOP = 160"
    by (simp add: page_no_def USERTOP_def)
  have rk: "ranges_ok 160 (kmap ?s)"
    using ranges_kmap [of ?s] kd unfolding kd' .
  have run: "setupkvm s = setupkvm_loop d (kmap ?s) ?s"
    using a F(7) by (simp add: setupkvm_def zero_page_def PGSIZE_def)
  have low: "page_no va < 160" if "va < USERTOP" for va
    using that by (simp add: page_no_def USERTOP_def word_less_nat_alt)
  show ?thesis
  proof (cases "\<exists>f. setupkvm_loop d (kmap ?s) ?s = Inl f \<and> kalloc_fault f")
    case False
    then obtain t where t: "setupkvm_loop d (kmap ?s) ?s = Inr (d, t)" "pt_extends d ?s t"
        "\<forall>va. page_no va < 160 \<longrightarrow> pte_of (mem t) d va = pte_of (mem ?s) d va"
      using setupkvm_loop_spec [OF rk F(1,2)] F(4) by auto
    then have "\<forall>va. va < USERTOP \<longrightarrow> pte_of (mem t) d va = 0"
      using low F(4) by simp
    moreover have "mem t x = mem s x" if "page_no x \<notin> page_no ` set (free_pages s)" for x
    proof -
      have "page_no x \<notin> page_no ` (set (free_pages ?s) \<union> pt_pages (mem ?s) d)"
        using that F(3,5,6) by auto
      then show ?thesis using t(2) F(10) [OF that] by (simp add: pt_extends_def)
    qed
    moreover have "pt_pages (mem t) d \<subseteq> set (free_pages s) - set (free_pages t)" "set (free_pages t) \<subseteq> set (free_pages s)"
      using t(2) F(3,5,6) unfolding pt_extends_def by auto
    moreover have "kmem_inv t" "pgdir_ok t d" "kend t = kend s" "kmem_st.more t = kmem_st.more s"
      using t(2) F(8,9) by (simp_all add: pt_extends_def)
    ultimately show ?thesis
      unfolding run t(1) using F(5,7) by blast
  qed (use run in auto)
qed

section \<open>A copy of the address space\<close>

text \<open>
  \<open>user_pages_ok g sz s\<close>: every page below \<open>sz\<close> is present in the page table \<open>g\<close>, on a
  frame that is allocated. \<open>own_copy g d sz s t\<close>: the directory \<open>d\<close> maps every such page
  to a frame of its own, free before, with the bytes and the write permission the page
  has in \<open>g\<close>; nothing but pages free before has changed.
\<close>

definition user_pages_ok :: "addr \<Rightarrow> u32 \<Rightarrow> 'z kmem_st_scheme \<Rightarrow> bool" where
  "user_pages_ok g sz s \<longleftrightarrow>
     (\<forall>va. in_size 0 sz va \<longrightarrow> present (pte_of (mem s) g va) \<and> PTE_ADDR (pte_of (mem s) g va) \<notin> set (free_pages s))"

definition own_copy :: "addr \<Rightarrow> addr \<Rightarrow> u32 \<Rightarrow> 'z kmem_st_scheme \<Rightarrow> 'z kmem_st_scheme \<Rightarrow> bool" where
  "own_copy g d sz s t \<longleftrightarrow>
     kmem_inv t \<and> pgdir_ok t d \<and> pgdir_ok t g \<and> d \<in> set (free_pages s)
     \<and> pt_pages (mem t) d \<subseteq> set (free_pages s) - set (free_pages t)
     \<and> (\<forall>va. in_size 0 sz va \<longrightarrow> copied_page g d s t va)
     \<and> (\<forall>va vb. in_size 0 sz va \<longrightarrow> in_size 0 sz vb \<longrightarrow> page_no va \<noteq> page_no vb \<longrightarrow>
           PTE_ADDR (pte_of (mem t) d va) \<noteq> PTE_ADDR (pte_of (mem t) d vb))
     \<and> set (free_pages t) \<subseteq> set (free_pages s) \<and> kend t = kend s
     \<and> (\<forall>a. page_no a \<notin> page_no ` set (free_pages s) \<longrightarrow> mem t a = mem s a)"

lemma in_size_below:
  assumes "in_size i sz va" "sz \<le> USERTOP"
  shows "va < USERTOP"
proof -
  have "unat sz \<le> 655360" using assms(2) by (simp add: word_le_nat_alt USERTOP_def)
  then have "page_no va < 160" using assms(1) by (simp add: in_size_def)
  then show ?thesis by (simp add: page_no_def word_less_nat_alt USERTOP_def)
qed

lemma alloc_content:
  assumes inv: "kmem_inv s" and p: "page_aligned p" "p \<notin> set (free_pages s)" and off: "unat off < 4096"
    and m: "\<forall>a. page_no a \<notin> page_no ` set (free_pages s) \<longrightarrow> mem t a = mem s a"
  shows "mem t (p + off) = mem s (p + off)"
proof (rule m [rule_format])
  have "page_aligned z" if "z \<in> set (free_pages s)" for z
    using that inv by (auto simp: kmem_inv_def free_page_ok_def)
  then have "page_no p \<notin> page_no ` set (free_pages s)"
    using p by (intro page_no_notin) auto
  then show "page_no (p + off) \<notin> page_no ` set (free_pages s)"
    using page_no_off [OF p(1) off] by simp
qed

lemma copied_page_before:
  assumes inv: "kmem_inv s" and g: "pgdir_ok s g" and src: "user_pages_ok g sz s" and va: "in_size 0 sz va"
    and m: "\<forall>a. page_no a \<notin> page_no ` set (free_pages s) \<longrightarrow> mem s1 a = mem s a"
    and s1: "kend s1 = kend s" "set (free_pages s1) \<subseteq> set (free_pages s)" and cp: "copied_page g d s1 t va"
  shows "copied_page g d s t va"
proof -
  note O = other_pgdir [OF inv g m s1]
  have "PTE_ADDR (pte_of (mem s) g va) \<notin> set (free_pages s)"
    using src va by (simp add: user_pages_ok_def)
  note c = alloc_content [OF inv page_aligned_PTE_ADDR this _ m]
  then show ?thesis
    using cp O(2) [of va] s1(2) by (auto simp: copied_page_def Let_def)
qed

text \<open>Allocations in between do not matter to a copy.\<close>

lemma own_copy_before:
  assumes inv: "kmem_inv s" and g: "pgdir_ok s g" and src: "user_pages_ok g sz s"
    and m: "\<forall>a. page_no a \<notin> page_no ` set (free_pages s) \<longrightarrow> mem s1 a = mem s a"
    and s1: "kend s1 = kend s" "set (free_pages s1) \<subseteq> set (free_pages s)"
    and cp: "own_copy g d sz s1 t"
  shows "own_copy g d sz s t"
proof -
  have cpy: "copied_page g d s t va" if "in_size 0 sz va" for va
    using copied_page_before [OF inv g src that m s1] cp that by (simp add: own_copy_def)
  have sub: "page_no ` set (free_pages s1) \<subseteq> page_no ` set (free_pages s)"
    using s1(2) by blast
  have "mem t a = mem s a" if "page_no a \<notin> page_no ` set (free_pages s)" for a
  proof -
    have "mem t a = mem s1 a" using that sub cp unfolding own_copy_def by blast
    then show ?thesis using m that by simp
  qed
  with cpy show ?thesis
    using cp s1 unfolding own_copy_def by (simp; blast)
qed

lemma copyuvm_spec:
  fixes s :: "'z vm_st_scheme"
  assumes inv: "kmem_inv s" and g: "pgdir_ok s g" and src: "user_pages_ok g sz s" and sz: "sz \<le> USERTOP"
    and kd: "page_aligned (kdata s)" "0x100000 < kdata s" "kdata s < PHYSTOP"
  shows "(\<exists>d t. copyuvm g sz s = Inr (d, t) \<and> d \<noteq> 0 \<and> kmem_st.more t = kmem_st.more s \<and> own_copy g d sz s t)
    \<or> (\<exists>f. copyuvm g sz s = Inl f \<and> kalloc_fault f)"
proof (cases "\<exists>f. setupkvm s = Inl f \<and> kalloc_fault f")
  case True
  then show ?thesis by (auto simp: copyuvm_def)
next
  case False
  then obtain d s1 where d: "setupkvm s = Inr (d, s1)" "d \<in> set (free_pages s)" "d \<noteq> 0" and inv1: "kmem_inv s1"
      and d1: "pgdir_ok s1 d" and s1: "kend s1 = kend s" "set (free_pages s1) \<subseteq> set (free_pages s)"
      and mr: "kmem_st.more s1 = kmem_st.more s"
      and pp: "pt_pages (mem s1) d \<subseteq> set (free_pages s) - set (free_pages s1)"
      and m: "\<forall>a. page_no a \<notin> page_no ` set (free_pages s) \<longrightarrow> mem s1 a = mem s a"
      and low: "\<And>va. va < USERTOP \<Longrightarrow> pte_of (mem s1) d va = 0"
    using setupkvm_spec [OF inv kd] by blast
  note O = other_pgdir [OF inv g m s1]
  have gal: "pt_pages (mem s) g \<inter> set (free_pages s) = {}"
    using g by (auto simp: pgdir_ok_def)
  have src1: "copy_src_ok g d 0 sz s1"
    unfolding copy_src_ok_def
  proof (intro conjI allI impI)
    show "pt_pages (mem s1) g \<inter> pt_pages (mem s1) d = {}"
      using gal pp O(3) by auto
    fix va assume va: "in_size 0 sz va"
    show "present (pte_of (mem s1) g va)" "PTE_ADDR (pte_of (mem s1) g va) \<notin> set (free_pages s1) \<union> pt_pages (mem s1) d"
      using src va pp s1(2) O(2) [of va] by (auto simp: user_pages_ok_def)
    show "\<not> present (pte_of (mem s1) d va)"
      using low [OF in_size_below [OF va sz]] by simp
  qed (use inv1 d1 O(1) in simp_all)
  have run: "copyuvm g sz s = copyuvm_loop d g 0 sz s1"
    using d by (simp add: copyuvm_def)
  have al0: "page_aligned 0" by (simp add: page_aligned_def)
  show ?thesis
  proof (cases "\<exists>f. copyuvm_loop d g 0 sz s1 = Inl f \<and> kalloc_fault f")
    case False
    then obtain t where t: "copyuvm_loop d g 0 sz s1 = Inr (d, t)" "copied_all g d 0 sz s1 t"
      using copyuvm_loop_spec [OF src1 al0 sz] by blast
    have ex: "pt_extends d s1 t" using t(2) by (simp add: copied_all_def)
    have dj: "pt_pages (mem s1) g \<inter> pt_pages (mem s1) d = {}"
      using src1 by (simp add: copy_src_ok_def)
    note O1 = pt_extends_other [OF ex O(1) dj inv1 d1]
    have ptp: "pt_pages (mem t) d \<subseteq> set (free_pages s) - set (free_pages t)" and fr: "set (free_pages t) \<subseteq> set (free_pages s1)"
      using ex pp s1(2) unfolding pt_extends_def by auto
    have c: "copied_page g d s t va" if "in_size 0 sz va" for va
      using copied_page_before [OF inv g src that m s1] t(2) that by (simp add: copied_all_def)
    have keep: "mem t a = mem s a" if "page_no a \<notin> page_no ` set (free_pages s)" for a
    proof -
      have "page_no a \<notin> page_no ` (set (free_pages s1) \<union> pt_pages (mem s1) d)"
        using that pp s1(2) by auto
      then show ?thesis using ex m that by (simp add: pt_extends_def)
    qed
    have "own_copy g d sz s t"
      unfolding own_copy_def
      using ex O1(1) d(2) ptp c t(2) fr s1 keep by (auto simp: copied_all_def pt_extends_def)
    then show ?thesis
      using run t(1) d(3) ex mr by (auto simp: pt_extends_def)
  qed (use run in auto)
qed

section \<open>The child\<close>

lemma same_kmem:
  assumes "mem t = mem s" "freelist t = freelist s" "size_freelist t = size_freelist s" "kend t = kend s"
    "allocated t = allocated s" "num_alloc t = num_alloc s"
  shows "free_pages t = free_pages s" "kmem_inv t \<longleftrightarrow> kmem_inv s" "pgdir_ok t g \<longleftrightarrow> pgdir_ok s g"
    "user_pages_ok g sz t \<longleftrightarrow> user_pages_ok g sz s" "own_copy g d sz v t \<longleftrightarrow> own_copy g d sz v s"
    "own_copy g d sz t v \<longleftrightarrow> own_copy g d sz s v"
proof -
  show fp: "free_pages t = free_pages s"
    using assms by (simp add: free_pages_def)
  have ok: "free_page_ok t = free_page_ok s"
    using assms by (simp add: free_page_ok_def fun_eq_iff)
  show k: "kmem_inv t \<longleftrightarrow> kmem_inv s"
    using assms fp ok by (simp add: kmem_inv_def)
  show pg: "pgdir_ok t g \<longleftrightarrow> pgdir_ok s g" for g
    using assms fp ok by (simp add: pgdir_ok_def)
  show "user_pages_ok g sz t \<longleftrightarrow> user_pages_ok g sz s"
    using assms fp by (simp add: user_pages_ok_def)
  show "own_copy g d sz v t \<longleftrightarrow> own_copy g d sz v s" "own_copy g d sz t v \<longleftrightarrow> own_copy g d sz s v"
    using assms fp k pg by (simp_all add: own_copy_def copied_page_def)
qed

text \<open>What \<open>allocproc\<close> does on every branch.\<close>

definition embryo :: "int \<Rightarrow> addr \<Rightarrow> proc \<Rightarrow> proc" where
  "embryo n k q = q\<lparr>state := EMBRYO, pid := n, kstack := k, level := 3, ticks_curr := 0,
     wait_ticks_curr := 0, pticks := replicate NLAYER 0, wait_ticks := replicate NLAYER 0\<rparr>"

definition took_slot :: "nat \<Rightarrow> addr \<Rightarrow> 'z proc_st_scheme \<Rightarrow> 'z proc_st_scheme \<Rightarrow> bool" where
  "took_slot p k s t \<longleftrightarrow>
     k \<in> set (free_pages s) \<and> kmem_inv t \<and> set (free_pages t) = set (free_pages s) - {k} \<and> kend t = kend s
     \<and> (\<forall>a. page_no a \<notin> page_no ` set (free_pages s) \<longrightarrow> mem t a = mem s a)
     \<and> ptable t = (ptable s)[p := embryo (nextpid s) k (ptable s ! p)] \<and> nextpid t = nextpid s + 1
     \<and> queue t 3 = queue s 3 @ [p] \<and> cur t = cur s \<and> kdata t = kdata s \<and> proc_st.more t = proc_st.more s"

lemma allocproc_run:
  fixes s :: "'z proc_st_scheme"
  assumes inv: "kmem_inv s" "mlfq_ok s" and len: "length (ptable s) = NPROC" and p: "free_slot s = Some p"
  shows "(\<exists>f. allocproc s = Inl f \<and> (kalloc_fault f \<or> f = Undef ''mlfq'' \<and> length (queue s 3) = MLFQ_LEN))
     \<or> (\<exists>k t. allocproc s = Inr (Some p, t) \<and> took_slot p k s t)"
proof -
  let ?u = "s\<lparr>ptable := (ptable s)[p := (ptable s ! p)\<lparr>state := EMBRYO, pid := nextpid s\<rparr>], nextpid := nextpid s + 1\<rparr>"
  have u: "kmem_inv ?u" "free_pages ?u = free_pages s"
    using inv(1) by (simp_all add: same_kmem [of ?u s])
  have pn: "p < NPROC" using free_slot_Some [OF p] by simp
  show ?thesis
  proof (cases "kalloc ?u")
    case (Inl f)
    then show ?thesis
      using kalloc_Inl [OF u(1) Inl] p by (auto simp: allocproc_def kalloc_fault_def)
  next
    case (Inr x)
    obtain k v where a: "kalloc ?u = Inr (k, v)" using Inr by (cases x) auto
    note A = kalloc_facts [OF u(1) a, unfolded u(2)]
    note m = more_proc_st [OF A(6)]
    have kd: "kdata v = kdata s" using A(6) by (cases s; cases v) simp
    let ?x = "v\<lparr>ptable := (ptable s)[p := embryo (nextpid s) k (ptable s ! p)]\<rparr>"
    have run: "allocproc s = kbind (mlfq_append 3 p) (\<lambda>_. kret (Some p)) ?x"
      using p a A(10) m(1) pn len by (simp add: allocproc_def embryo_def)
    have x: "mlfq_ok ?x" "queue ?x = queue s"
      using inv(2) m(5,6) by (simp_all add: mlfq_ok_def queue_def fun_eq_iff)
    have x2: "kmem_inv ?x" "free_pages ?x = free_pages v" using A(1) same_kmem(1,2) [of ?x v] by simp_all
    have "3 < NLAYER" by (simp add: NLAYER_def)
    have le: "length (queue s 3) \<le> MLFQ_LEN"
      using length_queue [OF inv(2) \<open>3 < NLAYER\<close>] mlfq_okD(3) [OF inv(2) \<open>3 < NLAYER\<close>] by simp
    note M = mlfq_append_run [OF x(1) \<open>3 < NLAYER\<close> pn, unfolded x(2) of_nat_numeral]
    show ?thesis
    proof (cases "length (queue s 3) < MLFQ_LEN")
      case False
      then show ?thesis using M run le by auto
    next
      case True
      then obtain t where t: "mlfq_append 3 p ?x = Inr ((), t)" "requeued ?x t" "queue t 3 = queue s 3 @ [p]"
        using M by auto
      obtain ml z where tt: "t = ?x\<lparr>mlfq := ml, mlfq_size := z\<rparr>" using t(2) by (auto simp: requeued_def)
      have "kmem_inv t" "free_pages t = free_pages v" using x2 same_kmem(1,2) [of t ?x] by (simp_all add: tt)
      then have "took_slot p k s t"
        using A(2-5) t(3) m(2,4,10) kd unfolding took_slot_def by (simp add: tt)
      then show ?thesis using run t(1) by auto
    qed
  qed
qed

text \<open>The file table with one reference more for every descriptor of \<open>fs\<close> in the list,
  and the descriptors of a child that takes them over.\<close>

definition more_refs :: "nat list \<Rightarrow> nat option list \<Rightarrow> struct_file list \<Rightarrow> struct_file list" where
  "more_refs is fs ft = map (\<lambda>f. (ft ! f)\<lparr>fref := fref (ft ! f) + int (length (filter (\<lambda>i. fs ! i = Some f) is))\<rparr>) [0..<length ft]"

definition inherit :: "nat list \<Rightarrow> nat option list \<Rightarrow> nat option list \<Rightarrow> nat option list" where
  "inherit is fs os = map (\<lambda>i. if i \<in> set is \<and> fs ! i \<noteq> None then fs ! i else os ! i) [0..<length os]"

lemma more_refs_simps:
  "more_refs [] fs ft = ft"
  "fs ! i = None \<Longrightarrow> more_refs (i # is) fs ft = more_refs is fs ft"
  "fs ! i = Some f \<Longrightarrow> f < length ft \<Longrightarrow> more_refs (i # is) fs ft = more_refs is fs (ft[f := (ft ! f)\<lparr>fref := fref (ft ! f) + 1\<rparr>])"
  by (auto simp: more_refs_def map_nth nth_list_update intro!: nth_equalityI)

lemma inherit_simps:
  "inherit [] fs os = os"
  "fs ! i = None \<Longrightarrow> inherit (i # is) fs os = inherit is fs os"
  "fs ! i = Some f \<Longrightarrow> inherit (i # is) fs os = inherit is fs (os[i := Some f])"
proof -
  show "inherit (i # is) fs os = inherit is fs (os[i := Some f])" if "fs ! i = Some f"
    using that by (intro nth_equalityI) (auto simp: inherit_def nth_list_update, metis nth_list_update_neq option.distinct(1))
qed (auto simp: inherit_def map_nth intro!: nth_equalityI)

lemma dup_files_run:
  fixes s :: "'z file_st_scheme"
  assumes "\<forall>i \<in> set is. \<forall>f. fs ! i = Some f \<longrightarrow> f < length (ftable s) \<and> 1 \<le> fref (ftable s ! f)"
    and "np < length (ptable s)"
  shows "kfor is (\<lambda>i. case fs ! i of None \<Rightarrow> kret ()
         | Some f \<Rightarrow> kbind (filedup f) (\<lambda>g. upd_proc np (\<lambda>q. q\<lparr>ofile := (ofile q)[i := Some g]\<rparr>))) s
       = Inr ((), s\<lparr>ftable := more_refs is fs (ftable s),
          ptable := (ptable s)[np := (ptable s ! np)\<lparr>ofile := inherit is fs (ofile (ptable s ! np))\<rparr>]\<rparr>)"
  using assms
proof (induction "is" arbitrary: s)
  case Nil
  then show ?case by (simp add: more_refs_simps inherit_simps)
next
  case (Cons i js)
  show ?case
  proof (cases "fs ! i")
    case None
    then show ?thesis using Cons.IH [of s] Cons.prems by (simp add: more_refs_simps inherit_simps)
  next
    case (Some f)
    let ?x = "ftable s ! f"
    define t where "t = s\<lparr>ftable := (ftable s)[f := ?x\<lparr>fref := fref ?x + 1\<rparr>],
       ptable := (ptable s)[np := (ptable s ! np)\<lparr>ofile := (ofile (ptable s ! np))[i := Some f]\<rparr>]\<rparr>"
    have f: "f < length (ftable s)" "1 \<le> fref ?x" using Cons.prems(1) Some by auto
    have step: "kbind (filedup f) (\<lambda>g. upd_proc np (\<lambda>q. q\<lparr>ofile := (ofile q)[i := Some g]\<rparr>)) s = Inr ((), t)"
      using f Cons.prems(2) by (simp add: filedup_def get_file_def upd_file_def t_def)
    have pre: "\<forall>j \<in> set js. \<forall>h. fs ! j = Some h \<longrightarrow> h < length (ftable t) \<and> 1 \<le> fref (ftable t ! h)"
      "np < length (ptable t)"
      using Cons.prems f by (auto simp: t_def nth_list_update)
    show ?thesis
      using Cons.IH [OF pre] step f Cons.prems(2) Some
      by (simp add: more_refs_simps inherit_simps) (simp add: t_def)
  qed
qed

text \<open>
  When \<open>fork\<close> is called: process \<open>me\<close> runs, its pages are there, its open files and its
  directory are referenced, and no free slot has an open file.
\<close>

definition fork_ok :: "nat \<Rightarrow> 'z file_st_scheme \<Rightarrow> bool" where
  "fork_ok me s \<longleftrightarrow>
     kmem_inv s \<and> mlfq_ok s \<and> length (ptable s) = NPROC \<and> cur s = Some me \<and> me < NPROC
     \<and> state (procs s me) = RUNNING
     \<and> pgdir_ok s (pgdir (procs s me)) \<and> user_pages_ok (pgdir (procs s me)) (psz (procs s me)) s
     \<and> psz (procs s me) \<le> USERTOP
     \<and> page_aligned (kdata s) \<and> 0x100000 < kdata s \<and> kdata s < PHYSTOP
     \<and> (\<forall>i < NPROC. length (ofile (procs s i)) = NOFILE \<and> (state (procs s i) = UNUSED \<longrightarrow> set (ofile (procs s i)) \<subseteq> {None}))
     \<and> (\<forall>f. Some f \<in> set (ofile (procs s me)) \<longrightarrow> f < length (ftable s) \<and> 1 \<le> fref (ftable s ! f))
     \<and> (\<exists>c < length (icache s). cwd (procs s me) = Some c)"

definition forked :: "nat \<Rightarrow> nat \<Rightarrow> 'z file_st_scheme \<Rightarrow> 'z file_st_scheme \<Rightarrow> bool" where
  "forked me np s t \<longleftrightarrow> (let p = procs s me; c = procs t np; d = the (cwd p) in
     state c = RUNNABLE \<and> pid c = nextpid s \<and> parent c = Some me \<and> psz c = psz p
     \<and> tf c = (tf p)\<lparr>tf_eax := 0\<rparr> \<and> ofile c = ofile p \<and> cwd c = cwd p
     \<and> pname c = safestrcpy (pname (procs s np)) (pname p) NAMELEN
     \<and> own_copy (pgdir p) (pgdir c) (psz p) s t
     \<and> kstack c \<in> set (free_pages s) - set (free_pages t) - pt_pages (mem t) (pgdir c)
     \<and> (\<forall>va. in_size 0 (psz p) va \<longrightarrow> PTE_ADDR (pte_of (mem t) (pgdir c) va) \<noteq> kstack c)
     \<and> (\<forall>i. i \<noteq> np \<longrightarrow> procs t i = procs s i)
     \<and> (\<forall>f < length (ftable s). ftable t ! f = (ftable s ! f)\<lparr>fref := fref (ftable s ! f) + int (count_list (ofile p) (Some f))\<rparr>)
     \<and> icache t = (icache s)[d := (icache s ! d)\<lparr>iref := iref (icache s ! d) + 1\<rparr>]
     \<and> queue t 3 = queue s 3 @ [np] \<and> nextpid t = nextpid s + 1 \<and> cur t = cur s)"

lemma inherit_all: "length fs = n \<Longrightarrow> length os = n \<Longrightarrow> set os \<subseteq> {None} \<Longrightarrow> inherit [0..<n] fs os = fs"
proof (intro nth_equalityI)
  fix i assume a: "length fs = n" "length os = n" "set os \<subseteq> {None}" "i < length (inherit [0..<n] fs os)"
  then have "os ! i \<in> set os" by (simp add: inherit_def)
  then have "os ! i = None" using a(3) by blast
  then show "inherit [0..<n] fs os ! i = fs ! i" using a by (simp add: inherit_def)
qed (simp add: inherit_def)

lemma more_refs_all:
  assumes "length fs = n" "f < length ft"
  shows "more_refs [0..<n] fs ft ! f = (ft ! f)\<lparr>fref := fref (ft ! f) + int (count_list fs (Some f))\<rparr>"
proof -
  have "length (filter (\<lambda>i. fs ! i = Some f) [0..<n]) = length (filter ((=) (Some f)) (map ((!) fs) [0..<n]))"
    by (simp add: filter_map comp_def eq_commute [of "Some f"])
  also have "map ((!) fs) [0..<n] = fs"
    using assms(1) map_nth [of fs] by simp
  also have "length (filter ((=) (Some f)) fs) = count_list fs (Some f)"
    by (simp add: count_list_eq_length_filter)
  finally show ?thesis using assms(2) by (simp add: more_refs_def)
qed

lemma start_child_run:
  fixes s :: "'z file_st_scheme"
  assumes len: "length (ofile p) = NOFILE" and np: "np < length (ptable s)"
    and f: "\<forall>f. Some f \<in> set (ofile p) \<longrightarrow> f < length (ftable s) \<and> 1 \<le> fref (ftable s ! f)"
    and os: "length (ofile (procs s np)) = NOFILE" "set (ofile (procs s np)) \<subseteq> {None}"
    and c: "cwd p = Some c"
  shows "start_child np p s = Inr (pid (procs s np), s\<lparr>ftable := more_refs [0..<NOFILE] (ofile p) (ftable s),
     icache := (icache s)[c := (icache s ! c)\<lparr>iref := iref (icache s ! c) + 1\<rparr>],
     ptable := (ptable s)[np := (ptable s ! np)\<lparr>ofile := ofile p, cwd := cwd p, state := RUNNABLE,
       pname := safestrcpy (pname (procs s np)) (pname p) NAMELEN\<rparr>]\<rparr>)"
proof -
  have "\<forall>i \<in> set [0..<NOFILE]. \<forall>f. ofile p ! i = Some f \<longrightarrow> f < length (ftable s) \<and> 1 \<le> fref (ftable s ! f)"
    using f len by (metis atLeastLessThan_iff nth_mem set_upt)
  note D = dup_files_run [OF this np] inherit_all [OF len os]
  show ?thesis
    using D np c by (simp add: start_child_def dup_files_def idup_def upd_inode_def procs_def)
qed

lemma more_file_st:
  assumes "proc_st.more t = proc_st.more s"
  shows "ftable t = ftable s" "icache t = icache s"
  using assms by (cases s; cases t; simp)+

lemma fork_child:
  fixes s :: "'z file_st_scheme"
  assumes ok: "fork_ok me s" and np: "np < NPROC" "state (procs s np) = UNUSED" and T: "took_slot np k s s1"
    and mr: "kmem_st.more s2 = kmem_st.more s1" and cp: "own_copy (pgdir (procs s me)) d (psz (procs s me)) s1 s2"
  shows "\<exists>t. start_child np (procs s me) (s2\<lparr>ptable := (ptable s2)[np := (ptable s2 ! np)\<lparr>pgdir := d, psz := psz (procs s me),
       parent := Some me, tf := (tf (procs s me))\<lparr>tf_eax := 0\<rparr>\<rparr>]\<rparr>) = Inr (nextpid s, t) \<and> forked me np s t"
    (is "\<exists>t. start_child np ?p ?s3 = _ \<and> _")
proof -
  have len: "length (ptable s) = NPROC" "length (ofile ?p) = NOFILE" "length (ofile (procs s np)) = NOFILE"
      "set (ofile (procs s np)) \<subseteq> {None}"
    and f: "\<forall>f. Some f \<in> set (ofile ?p) \<longrightarrow> f < length (ftable s) \<and> 1 \<le> fref (ftable s ! f)"
    using ok np by (simp_all add: fork_ok_def)
  obtain c where c: "cwd ?p = Some c"
    using ok by (auto simp: fork_ok_def)
  have s1: "ptable s1 = (ptable s)[np := embryo (nextpid s) k (ptable s ! np)]" "proc_st.more s1 = proc_st.more s"
    "nextpid s1 = nextpid s + 1" "queue s1 3 = queue s 3 @ [np]" "cur s1 = cur s"
    using T by (simp_all add: took_slot_def)
  note m = more_proc_st [OF mr]
  have s2: "ptable s2 = (ptable s)[np := embryo (nextpid s) k (ptable s ! np)]" "ftable s2 = ftable s" "icache s2 = icache s"
    "nextpid s2 = nextpid s + 1" "queue s2 3 = queue s 3 @ [np]" "cur s2 = cur s"
    using s1 m more_file_st [of s2 s] by (simp_all add: queue_def)
  let ?q = "(embryo (nextpid s) k (procs s np))\<lparr>pgdir := d, psz := psz ?p, parent := Some me, tf := (tf ?p)\<lparr>tf_eax := 0\<rparr>\<rparr>"
  have q: "procs ?s3 np = ?q" "ofile ?q = ofile (procs s np)" "pname ?q = pname (procs s np)" "pid ?q = nextpid s"
    using np(1) len(1) s2(1) by (simp_all add: procs_def embryo_def)
  define t where "t = ?s3\<lparr>ftable := more_refs [0..<NOFILE] (ofile ?p) (ftable s),
     icache := (icache s)[c := (icache s ! c)\<lparr>iref := iref (icache s ! c) + 1\<rparr>],
     ptable := (ptable s)[np := ?q\<lparr>ofile := ofile ?p, cwd := cwd ?p, state := RUNNABLE,
       pname := safestrcpy (pname (procs s np)) (pname ?p) NAMELEN\<rparr>]\<rparr>"
  have run: "start_child np ?p ?s3 = Inr (nextpid s, t)"
    using start_child_run [of ?p np ?s3 c] len f c np(1) q s2 by (simp add: t_def procs_def)
  have tq: "procs t np = ?q\<lparr>ofile := ofile ?p, cwd := cwd ?p, state := RUNNABLE,
       pname := safestrcpy (pname (procs s np)) (pname ?p) NAMELEN\<rparr>"
    "\<forall>i. i \<noteq> np \<longrightarrow> procs t i = procs s i"
    using np(1) len(1) by (simp_all add: t_def procs_def)
  have sm: "mem t = mem s2" "freelist t = freelist s2" "size_freelist t = size_freelist s2" "kend t = kend s2"
    "allocated t = allocated s2" "num_alloc t = num_alloc s2"
    by (simp_all add: t_def)
  note K = same_kmem [OF sm]
  have inv: "kmem_inv s" "pgdir_ok s (pgdir ?p)" "user_pages_ok (pgdir ?p) (psz ?p) s"
    using ok by (simp_all add: fork_ok_def)
  have T': "\<forall>x. page_no x \<notin> page_no ` set (free_pages s) \<longrightarrow> mem s1 x = mem s x" "kend s1 = kend s"
    "set (free_pages s1) \<subseteq> set (free_pages s)" "k \<in> set (free_pages s)" "k \<notin> set (free_pages s1)"
    using T by (auto simp: took_slot_def)
  have own: "own_copy (pgdir ?p) d (psz ?p) s t"
    using own_copy_before [OF inv T'(1-3) cp] K(5) by blast
  have ks: "k \<notin> set (free_pages t)" "k \<notin> pt_pages (mem t) d"
    "\<forall>va. in_size 0 (psz ?p) va \<longrightarrow> PTE_ADDR (pte_of (mem t) d va) \<noteq> k"
    using cp T'(5) unfolding K(1) sm(1) own_copy_def copied_page_def Let_def by auto
  have "forked me np s t"
    unfolding forked_def Let_def tq(1)
    using own ks T'(4) tq(2) c s2 more_refs_all [OF len(2)] by (simp add: embryo_def t_def queue_def)
  with run show ?thesis by blast
qed

lemma fork_spec:
  fixes s :: "'z file_st_scheme"
  assumes ok: "fork_ok me s" and np: "free_slot s = Some np"
  shows "(\<exists>f. fork s = Inl f \<and> (kalloc_fault f \<or> f = Undef ''mlfq'' \<and> length (queue s 3) = MLFQ_LEN))
    \<or> (\<exists>t. fork s = Inr (nextpid s, t) \<and> forked me np s t)"
proof (cases "\<exists>f. allocproc s = Inl f \<and> (kalloc_fault f \<or> f = Undef ''mlfq'' \<and> length (queue s 3) = MLFQ_LEN)")
  case True
  then show ?thesis by (auto simp: fork_def)
next
  case False
  let ?p = "procs s me"
  let ?g = "pgdir ?p" and ?sz = "psz ?p"
  have o: "kmem_inv s" "mlfq_ok s" "length (ptable s) = NPROC" "cur s = Some me" "me < NPROC"
      "pgdir_ok s ?g" "user_pages_ok ?g ?sz s" "?sz \<le> USERTOP"
      "page_aligned (kdata s)" "0x100000 < kdata s" "kdata s < PHYSTOP"
    using ok by (simp_all add: fork_ok_def)
  have npn: "np < NPROC" "state (procs s np) = UNUSED"
    using free_slot_Some [OF np] by auto
  then have ne: "me \<noteq> np" using ok by (auto simp: fork_ok_def)
  obtain k s1 where a: "allocproc s = Inr (Some np, s1)" "took_slot np k s s1"
    using False allocproc_run [OF o(1-3) np] by blast
  note T = a(2) [unfolded took_slot_def]
  have m: "\<forall>x. page_no x \<notin> page_no ` set (free_pages s) \<longrightarrow> mem s1 x = mem s x"
    and s1: "kend s1 = kend s" "set (free_pages s1) \<subseteq> set (free_pages s)" "kmem_inv s1" "kdata s1 = kdata s"
    and p1: "procs s1 me = ?p"
    using T ne by (auto simp: procs_def)
  note O = other_pgdir [OF o(1,6) m s1(1,2)]
  have src: "user_pages_ok ?g ?sz s1"
    using o(7) s1(2) O(2) by (auto simp: user_pages_ok_def)
  have run: "fork s = kbind (copyuvm ?g ?sz) (\<lambda>d. kbind (upd_proc np (\<lambda>q. q\<lparr>pgdir := d\<rparr>)) (\<lambda>_.
      if d = 0 then
           kbind (kget (\<lambda>s. kstack (procs s np))) (\<lambda>k.
           kbind (kfree k) (\<lambda>_.
           kbind (upd_proc np (\<lambda>q. q\<lparr>kstack := 0, state := UNUSED\<rparr>)) (\<lambda>_.
           kret (-1))))
         else
         kbind (upd_proc np (\<lambda>q. q\<lparr>psz := ?sz, parent := Some me, tf := (tf ?p)\<lparr>tf_eax := 0\<rparr>\<rparr>)) (\<lambda>_.
         start_child np ?p))) s1"
    using a(1) T o(4) p1 by (simp add: fork_def)
  have kd: "page_aligned (kdata s1)" "0x100000 < kdata s1" "kdata s1 < PHYSTOP"
    using o(9-11) s1(4) by simp_all
  show ?thesis
  proof (cases "\<exists>f. copyuvm ?g ?sz s1 = Inl f \<and> kalloc_fault f")
    case True
    then show ?thesis using run by auto
  next
    case False
    then obtain d s2 where d: "copyuvm ?g ?sz s1 = Inr (d, s2)" "d \<noteq> 0" "kmem_st.more s2 = kmem_st.more s1"
        "own_copy ?g d ?sz s1 s2"
      using copyuvm_spec [OF s1(3) O(1) src o(8) kd] by blast
    obtain t where t: "start_child np ?p (s2\<lparr>ptable := (ptable s2)[np := (ptable s2 ! np)\<lparr>pgdir := d, psz := ?sz,
         parent := Some me, tf := (tf ?p)\<lparr>tf_eax := 0\<rparr>\<rparr>]\<rparr>) = Inr (nextpid s, t)" "forked me np s t"
      using fork_child [OF ok npn a(2) d(3,4)] by blast
    have "np < length (ptable s2)"
      using T npn(1) o(3) more_proc_st(1) [OF d(3)] by simp
    then show ?thesis using run d(1,2) t by simp
  qed
qed

text \<open>
  C3. \<open>fork\<close> on a well-formed state: with no free slot it returns \<open>-1\<close> and changes
  nothing. Otherwise it faults in the allocator or in the full scheduler queue (it has
  no other way to fail), or it returns the next process identifier, and the first free
  slot holds a runnable child of the caller: with the caller's registers but for a
  result of 0, its size, name, directory and descriptors, one reference more on each open
  file per descriptor and on the directory, and a page table of its own that maps every
  page of the caller's memory to a frame no one else has, with the same bytes and the
  same write permission. No other slot and no memory in use changes.
\<close>

theorem fork_correct:
  assumes "fork_ok me s"
  shows "case free_slot s of
       None \<Rightarrow> fork s = Inr (-1, s)
     | Some np \<Rightarrow>
         (\<exists>f. fork s = Inl f \<and> (kalloc_fault f \<or> f = Undef ''mlfq'' \<and> length (queue s 3) = MLFQ_LEN))
         \<or> (\<exists>t. fork s = Inr (nextpid s, t) \<and> forked me np s t)"
proof (cases "free_slot s")
  case None
  then show ?thesis by (simp add: fork_def allocproc_def)
next
  case (Some np)
  then show ?thesis using fork_spec [OF assms Some] by simp
qed

text \<open>A process of one page, with one open file and a directory, and one free page.\<close>

definition fork_example :: file_st where
  "fork_example = file_example\<lparr>mem := mem vm_example, freelist := 0x203000, size_freelist := 1,
     ptable := zero_proc\<lparr>state := RUNNING, pid := 1, pgdir := 0x200000, psz := 4096, level := 3,
        ofile := Some 0 # replicate 15 None, cwd := Some 0\<rparr> # replicate 63 zero_proc\<rparr>"

lemma fork_example_sel [simp]:
  "mem fork_example = mem vm_example" "freelist fork_example = 0x203000" "size_freelist fork_example = 1"
  "kend fork_example = 0x100000" "allocated fork_example = replicate NALLOC 0" "num_alloc fork_example = 0"
  "kdata fork_example = 0x101000" "cur fork_example = Some 0" "ftable fork_example = ftable file_example"
  "mlfq fork_example = mlfq mlfq_example" "mlfq_size fork_example = mlfq_size mlfq_example"
  "icache fork_example = icache fs_example"
  "ptable fork_example = zero_proc\<lparr>state := RUNNING, pid := 1, pgdir := 0x200000, psz := 4096, level := 3,
        ofile := Some 0 # replicate 15 None, cwd := Some 0\<rparr> # replicate 63 zero_proc"
  by (simp_all add: fork_example_def file_example_def fs_st.defs fs_example_def bio_st.defs bio_example_def proc_st.defs
      mlfq_example_def)

lemma fork_example_procs:
  "procs fork_example i = (if i = 0 then zero_proc\<lparr>state := RUNNING, pid := 1, pgdir := 0x200000, psz := 4096, level := 3,
        ofile := Some 0 # replicate 15 None, cwd := Some 0\<rparr> else zero_proc)" if "i < NPROC"
  using that by (auto simp: procs_def NPROC_def nth_Cons')

lemma fork_example_free: "free_pages fork_example = [0x203000]"
  using vm_example_free by (simp add: free_pages_def)

lemma fork_example_ok: "fork_ok 0 fork_example"
proof -
  have v: "kend vm_example = 0x100000" "freelist vm_example = 0x203000" "size_freelist vm_example = 1"
    "allocated vm_example = replicate NALLOC 0" "num_alloc vm_example = 0"
    by (simp_all add: vm_example_def)
  have k: "kmem_inv fork_example"
    using vm_example_inv v by (simp add: kmem_inv_def free_page_ok_def free_pages_def)
  have g: "pgdir_ok fork_example 0x200000"
    using vm_example_ok v by (simp add: pgdir_ok_def free_page_ok_def free_pages_def)
  have m: "mlfq_ok fork_example"
    using mlfq_example_ok(1) by (simp add: mlfq_ok_def)
  have n: "0 < NPROC" "NOFILE = 16" by (simp_all add: NPROC_def NOFILE_def)
  have p0: "psz (procs fork_example 0) = 4096" "pgdir (procs fork_example 0) = 0x200000"
    "state (procs fork_example 0) = RUNNING" "ofile (procs fork_example 0) = Some 0 # replicate 15 None" "cwd (procs fork_example 0) = Some 0"
    using fork_example_procs [OF n(1)] by simp_all
  have "pte_of (mem vm_example) 0x200000 va = 0x202007" if "in_size 0 4096 va" for va
  proof -
    have "page_no va = page_no 0" using that by (simp add: in_size_def page_no_def)
    then show ?thesis using vm_example_pte(1) pte_of_same_page by metis
  qed
  then have u: "user_pages_ok 0x200000 4096 fork_example"
    by (simp add: user_pages_ok_def fork_example_free PTE_P_def PTE_ADDR_def)
  have o: "length (ofile (procs fork_example i)) = NOFILE \<and> (state (procs fork_example i) = UNUSED \<longrightarrow> set (ofile (procs fork_example i)) \<subseteq> {None})"
    if "i < NPROC" for i
    using fork_example_procs [OF that] n(2) by (auto simp: zero_proc_def)
  have "0 < length (icache fs_example)" by (simp add: fs_example_def bio_st.defs NINODE_def)
  moreover have "length (ptable fork_example) = NPROC" by (simp add: NPROC_def)
  moreover have "page_aligned 0x101000" "(0x100000 :: addr) < 0x101000" "0x101000 < PHYSTOP" "(4096 :: u32) \<le> USERTOP"
    by (simp_all add: page_aligned_def PHYSTOP_def USERTOP_def word_less_nat_alt word_le_nat_alt)
  ultimately show ?thesis
    using k g m n(1) p0 u o unfolding fork_ok_def by auto
qed

text \<open>One free page is not enough: it becomes the stack of the child.\<close>

theorem fork_correct_witness:
  "free_slot fork_example = Some 1 \<and> (\<exists>f. fork fork_example = Inl f \<and> kalloc_fault f)"
proof -
  have "[0..<NPROC] = 0 # 1 # [2..<64]"
    by (simp add: NPROC_def upt_rec)
  then have fs: "free_slot fork_example = Some 1"
    by (simp add: free_slot_def procs_def zero_proc_def)
  have q: "length (queue fork_example 3) \<noteq> MLFQ_LEN"
    using mlfq_example_queue(4) by (simp add: queue_def MLFQ_LEN_def)
  have "\<not> forked 0 1 fork_example t" for t
  proof
    assume "forked 0 1 fork_example t"
    then have "own_copy (pgdir (procs fork_example 0)) (pgdir (procs t 1)) (psz (procs fork_example 0)) fork_example t"
      "kstack (procs t 1) = 0x203000" "kstack (procs t 1) \<notin> pt_pages (mem t) (pgdir (procs t 1))"
      by (auto simp: forked_def Let_def fork_example_free)
    then show False by (auto simp: own_copy_def fork_example_free pt_pages_def)
  qed
  then show ?thesis
    using fork_correct [OF fork_example_ok] fs q by auto
qed

end
