(* ===== verification/Usermem.thy ===== *)
theory Usermem
  imports Lifecycle
begin

text \<open>
  How the kernel reaches the memory of the current process: through the page table the
  processor uses, the register \<open>cr3\<close>. An access to an address that is not mapped is a
  page fault in the kernel, which \<open>trap\<close> answers with a panic; the kernel runs without
  write protection, so the write bit of an entry does not matter. On top of that the
  fetching of system call arguments, \<open>kernel/syscall.c\<close>.
\<close>

section \<open>User memory\<close>

definition uva :: "addr \<Rightarrow> ('z vm_st_scheme, addr) kop" where
  "uva va =
     kbind (kget cr3) (\<lambda>d.
     kbind (walkpgdir d va False) (\<lambda>pte.
     if pte = 0 then kfail (Panic ''trap'')
     else
     kbind (load_word pte) (\<lambda>e.
     if e AND PTE_P = 0 then kfail (Panic ''trap'')
     else kret (PTE_ADDR e OR (va AND 0xFFF)))))"

definition uload :: "addr \<Rightarrow> ('z vm_st_scheme, u8) kop" where
  "uload va = kbind (uva va) (\<lambda>a. kget (\<lambda>s. mem s a))"

definition ustore :: "addr \<Rightarrow> u8 \<Rightarrow> ('z vm_st_scheme, unit) kop" where
  "ustore va c = kbind (uva va) (\<lambda>a. kmod (\<lambda>s. s\<lparr>mem := (mem s)(a := c)\<rparr>))"

primrec uread :: "addr \<Rightarrow> nat \<Rightarrow> ('z vm_st_scheme, u8 list) kop" where
  "uread va 0 = kret []"
| "uread va (Suc n) = kbind (uload va) (\<lambda>c. kbind (uread (va + 1) n) (\<lambda>cs. kret (c # cs)))"

primrec uwrite :: "addr \<Rightarrow> u8 list \<Rightarrow> ('z vm_st_scheme, unit) kop" where
  "uwrite va [] = kret ()"
| "uwrite va (c # cs) = kbind (ustore va c) (\<lambda>_. uwrite (va + 1) cs)"

definition uload32 :: "addr \<Rightarrow> ('z vm_st_scheme, u32) kop" where
  "uload32 va = kbind (uread va 4) (\<lambda>bs. kret (get32 bs 0))"

definition bytes32 :: "u32 \<Rightarrow> u8 list" where
  "bytes32 v = [ucast v, ucast (drop_bit 8 v), ucast (drop_bit 16 v), ucast (drop_bit 24 v)]"

definition ustore32 :: "addr \<Rightarrow> u32 \<Rightarrow> ('z vm_st_scheme, unit) kop" where
  "ustore32 va v = uwrite va (bytes32 v)"

section \<open>Arguments\<close>

text \<open>Each result is \<open>None\<close> when the call returns \<open>-1\<close>, and otherwise what is stored
  through the pointer.\<close>

definition fetchint :: "nat \<Rightarrow> addr \<Rightarrow> ('z proc_st_scheme, u32 option) kop" where
  "fetchint p a =
     kbind (kget (\<lambda>s. psz (procs s p))) (\<lambda>sz.
     if a \<ge> sz \<or> a + 4 > sz then kret None
     else kbind (uload32 a) (\<lambda>v. kret (Some v)))"

text \<open>The bytes from \<open>a\<close> to the terminating zero, \<open>n\<close> bytes at most.\<close>

primrec fetchstr_scan :: "addr \<Rightarrow> nat \<Rightarrow> ('z proc_st_scheme, u8 list option) kop" where
  "fetchstr_scan a 0 = kret None"
| "fetchstr_scan a (Suc n) =
     kbind (uload a) (\<lambda>c.
     if c = 0 then kret (Some [])
     else kbind (fetchstr_scan (a + 1) n) (\<lambda>r. kret (map_option (\<lambda>cs. c # cs) r)))"

text \<open>The pointer and the string at it, whose length the call returns.\<close>

definition fetchstr :: "nat \<Rightarrow> addr \<Rightarrow> ('z proc_st_scheme, (addr \<times> u8 list) option) kop" where
  "fetchstr p a =
     kbind (kget (\<lambda>s. psz (procs s p))) (\<lambda>sz.
     if a \<ge> sz then kret None
     else kbind (fetchstr_scan a (unat (sz - a))) (\<lambda>r. kret (map_option (\<lambda>cs. (a, cs)) r)))"

definition argint :: "nat \<Rightarrow> ('z proc_st_scheme, u32 option) kop" where
  "argint n =
     kbind curproc (\<lambda>me.
     kbind (kget (\<lambda>s. tf_esp (tf (procs s me)))) (\<lambda>esp.
     fetchint me (esp + 4 + 4 * of_nat n)))"

definition argptr :: "nat \<Rightarrow> int \<Rightarrow> ('z proc_st_scheme, addr option) kop" where
  "argptr n sz0 =
     kbind (argint n) (\<lambda>r.
     case r of
       None \<Rightarrow> kret None
     | Some i \<Rightarrow>
         kbind curproc (\<lambda>me.
         kbind (kget (\<lambda>s. psz (procs s me))) (\<lambda>sz.
         if i \<ge> sz \<or> i + of_int sz0 > sz then kret None else kret (Some i))))"

definition argstr :: "nat \<Rightarrow> ('z proc_st_scheme, (addr \<times> u8 list) option) kop" where
  "argstr n =
     kbind (argint n) (\<lambda>r.
     case r of
       None \<Rightarrow> kret None
     | Some a \<Rightarrow> kbind curproc (\<lambda>me. fetchstr me a))"

text \<open>A system call that needs its arguments: \<open>-1\<close> when one is refused.\<close>

definition kopt :: "('s, 'a option) kop \<Rightarrow> 'b \<Rightarrow> ('a \<Rightarrow> ('s, 'b) kop) \<Rightarrow> ('s, 'b) kop" where
  "kopt m b f = kbind m (\<lambda>r. case r of None \<Rightarrow> kret b | Some x \<Rightarrow> f x)"

end
