(* ===== verification/Exec.thy ===== *)
theory Exec
  imports Usermem
begin

text \<open>
  Loading a program, \<open>kernel/exec.c\<close> with \<open>loaduvm\<close> of \<open>kernel/vm.c\<close> and the format of
  \<open>kernel/elf.h\<close>. The path and the argument strings are given by their bytes.
\<close>

definition MAXARG :: nat where "MAXARG = 32"
definition ELF_MAGIC :: u32 where "ELF_MAGIC = 0x464C457F"
definition ELF_PROG_LOAD :: u32 where "ELF_PROG_LOAD = 1"

text \<open>The fields of the headers that are used, and the sizes of the structures.\<close>

record elfhdr =
  eh_magic :: u32
  eh_entry :: u32
  eh_phoff :: u32
  eh_phnum :: u16

record proghdr =
  ph_type :: u32
  ph_offset :: u32
  ph_va :: u32
  ph_filesz :: u32
  ph_memsz :: u32

definition ELFHDR_SIZE :: nat where "ELFHDR_SIZE = 52"
definition PROGHDR_SIZE :: nat where "PROGHDR_SIZE = 32"

definition get_elfhdr :: "u8 list \<Rightarrow> elfhdr" where
  "get_elfhdr bs = \<lparr>eh_magic = get32 bs 0, eh_entry = get32 bs 24, eh_phoff = get32 bs 28, eh_phnum = get16 bs 44\<rparr>"

definition get_proghdr :: "u8 list \<Rightarrow> proghdr" where
  "get_proghdr bs = \<lparr>ph_type = get32 bs 0, ph_offset = get32 bs 4, ph_va = get32 bs 8, ph_filesz = get32 bs 16,
     ph_memsz = get32 bs 20\<rparr>"

text \<open>
  \<open>loaduvm\<close>: \<open>ks\<close> are the numbers of the pages left. The walk ends with the panic at the first
  page without a page table, before the page offset could wrap around.
\<close>

primrec loaduvm_loop :: "'y file_st_ext devsw \<Rightarrow> addr \<Rightarrow> addr \<Rightarrow> nat \<Rightarrow> u32 \<Rightarrow> u32 \<Rightarrow> nat list \<Rightarrow> ('y file_st_scheme, int) kop" where
  "loaduvm_loop dsw pd a ip offset sz [] = kret 0"
| "loaduvm_loop dsw pd a ip offset sz (k # ks) =
     (let i = of_nat (k * PGSIZE) in
      kbind (walkpgdir pd (a + i) False) (\<lambda>pte.
      if pte = 0 then kfail (Panic ''loaduvm: address should exist'')
      else
      kbind (load_word pte) (\<lambda>e.
      let n = (if sz - i < of_nat PGSIZE then sz - i else of_nat PGSIZE) in
      kbind (readi dsw ip (offset + i) n) (\<lambda>(r, bs).
      kbind (write_bytes (PTE_ADDR e) bs) (\<lambda>_.
      if r \<noteq> sint n then kret (-1) else loaduvm_loop dsw pd a ip offset sz ks)))))"

definition loaduvm :: "'y file_st_ext devsw \<Rightarrow> addr \<Rightarrow> addr \<Rightarrow> nat \<Rightarrow> u32 \<Rightarrow> u32 \<Rightarrow> ('y file_st_scheme, int) kop" where
  "loaduvm dsw pd a ip offset sz =
     (if unat a mod PGSIZE \<noteq> 0 then kfail (Panic ''loaduvm: addr must be page aligned'')
      else loaduvm_loop dsw pd a ip offset sz [0..<(unat sz + PGSIZE - 1) div PGSIZE])"

text \<open>The failure exit: \<open>ip\<close> is \<open>None\<close> once the inode has been released.\<close>

definition exec_bad :: "addr \<Rightarrow> nat option \<Rightarrow> ('y file_st_scheme, int) kop" where
  "exec_bad pd ip =
     kbind (kwhen (pd \<noteq> 0) (freevm pd)) (\<lambda>_.
     kbind (case ip of None \<Rightarrow> kret () | Some i \<Rightarrow> iunlockput i) (\<lambda>_.
     kret (-1)))"

text \<open>The segments \<open>is\<close> left; the result is the size of the image, \<open>None\<close> for \<open>goto bad\<close>.\<close>

primrec exec_load :: "'y file_st_ext devsw \<Rightarrow> addr \<Rightarrow> nat \<Rightarrow> elfhdr \<Rightarrow> u32 \<Rightarrow> nat list \<Rightarrow> ('y file_st_scheme, u32 option) kop" where
  "exec_load dsw pd ip elf sz [] = kret (Some sz)"
| "exec_load dsw pd ip elf sz (i # is) =
     kbind (readi dsw ip (eh_phoff elf + of_nat (i * PROGHDR_SIZE)) (of_nat PROGHDR_SIZE)) (\<lambda>(r, bs).
     if r \<noteq> int PROGHDR_SIZE then kret None
     else
     let ph = get_proghdr bs in
     if ph_type ph \<noteq> ELF_PROG_LOAD then exec_load dsw pd ip elf sz is
     else if ph_memsz ph < ph_filesz ph then kret None
     else
     kbind (allocuvm pd sz (ph_va ph + ph_memsz ph)) (\<lambda>sz.
     if sz = 0 then kret None
     else
     kbind (loaduvm dsw pd (ph_va ph) ip (ph_offset ph) (ph_filesz ph)) (\<lambda>r.
     if r < 0 then kret None else exec_load dsw pd ip elf sz is)))"

text \<open>Pushing the argument strings: the stack pointer and the pointers pushed so far.\<close>

primrec exec_args :: "addr \<Rightarrow> u32 \<Rightarrow> u32 list \<Rightarrow> u8 list list \<Rightarrow> ('y file_st_scheme, (u32 \<times> u32 list) option) kop" where
  "exec_args pd sp us [] = kret (Some (sp, us))"
| "exec_args pd sp us (a # as) =
     (if length us \<ge> MAXARG then kret None
      else
      let sp' = (sp - (of_nat (length a) + 1)) AND NOT 3 in
      kbind (copyout pd sp' (a @ [0])) (\<lambda>r.
      if r < 0 then kret None else exec_args pd sp' (us @ [sp']) as))"

text \<open>The part of a path after its last slash. The result of the first \<open>readi\<close> is compared as
  an unsigned number: its \<open>-1\<close> passes the test and an uninitialised header is used.\<close>

definition after_slash :: "u8 list \<Rightarrow> u8 list" where
  "after_slash path = rev (takeWhile (\<lambda>c. c \<noteq> slash) (rev path))"

definition exec :: "'y file_st_ext devsw \<Rightarrow> u8 list \<Rightarrow> u8 list list \<Rightarrow> ('y file_st_scheme, int) kop" where
  "exec dsw path argv =
     kopt (namei path) (-1) (\<lambda>ip.
     kbind (ilock ip) (\<lambda>_.
     kbind (readi dsw ip 0 (of_nat ELFHDR_SIZE)) (\<lambda>(r, bs).
     if r < 0 then kfail (Undef ''exec: elf'')
     else if r < int ELFHDR_SIZE then exec_bad 0 (Some ip)
     else
     let elf = get_elfhdr bs in
     if eh_magic elf \<noteq> ELF_MAGIC then exec_bad 0 (Some ip)
     else
     kbind setupkvm (\<lambda>d.
     if d = 0 then exec_bad 0 (Some ip)
     else
     kbind (exec_load dsw d ip elf 0 [0..<unat (eh_phnum elf)]) (\<lambda>r.
     case r of
       None \<Rightarrow> exec_bad d (Some ip)
     | Some sz \<Rightarrow>
     kbind (iunlockput ip) (\<lambda>_.
     kbind (allocuvm d (PGROUNDUP sz) (PGROUNDUP sz + of_nat PGSIZE)) (\<lambda>sz.
     if sz = 0 then exec_bad d None
     else
     kbind (exec_args d sz [] argv) (\<lambda>r.
     case r of
       None \<Rightarrow> exec_bad d None
     | Some (sp, us) \<Rightarrow>
     let argc = of_nat (length us) :: u32;
         ust = [0xFFFFFFFF, argc, sp - (argc + 1) * 4] @ us @ [0];
         sp' = sp - (3 + argc + 1) * 4 in
     kbind (copyout d sp' (concat (map bytes32 ust))) (\<lambda>r.
     if r < 0 then exec_bad d None
     else
     kbind curproc (\<lambda>me.
     kbind (kget (\<lambda>s. pgdir (procs s me))) (\<lambda>old.
     kbind (upd_proc me (\<lambda>q. q\<lparr>pname := safestrcpy (pname q) (cstr_of (after_slash path)) NAMELEN, pgdir := d, psz := sz,
        tf := (tf q)\<lparr>tf_eip := eh_entry elf, tf_esp := sp'\<rparr>\<rparr>)) (\<lambda>_.
     kbind (switchuvm me) (\<lambda>_.
     kbind (freevm old) (\<lambda>_.
     kret 0))))))))))))))"

end
