(* ===== verification/Sysfile.thy ===== *)
theory Sysfile
  imports Exec
begin

text \<open>
  The system calls on files, \<open>kernel/sysfile.c\<close>. Their arguments come from the user stack
  by theory \<open>Usermem\<close>; \<open>dsw\<close> is the table of devices. The result is \<open>Blocked\<close> when the
  process went to sleep inside the call.
\<close>

definition O_RDONLY :: u32 where "O_RDONLY = 0x000"
definition O_WRONLY :: u32 where "O_WRONLY = 0x001"
definition O_RDWR :: u32 where "O_RDWR = 0x002"
definition O_CREATE :: u32 where "O_CREATE = 0x200"

text \<open>The descriptor and the file.\<close>

definition argfd :: "nat \<Rightarrow> ('z proc_st_scheme, (nat \<times> nat) option) kop" where
  "argfd n =
     kopt (argint n) None (\<lambda>v.
     if sint v < 0 \<or> sint v \<ge> int NOFILE then kret None
     else
     kbind curproc (\<lambda>me.
     kbind (kget (\<lambda>s. ofile (procs s me) ! nat (sint v))) (\<lambda>r.
     kret (map_option (\<lambda>f. (nat (sint v), f)) r))))"

definition fdalloc :: "nat \<Rightarrow> ('z proc_st_scheme, int) kop" where
  "fdalloc f =
     kbind curproc (\<lambda>me.
     kbind (kget (\<lambda>s. List.find (\<lambda>fd. ofile (procs s me) ! fd = None) [0..<NOFILE])) (\<lambda>r.
     case r of
       None \<Rightarrow> kret (-1)
     | Some fd \<Rightarrow> kbind (upd_proc me (\<lambda>q. q\<lparr>ofile := (ofile q)[fd := Some f]\<rparr>)) (\<lambda>_. kret (int fd))))"

definition sys_dup :: "('z file_st_scheme, int outcome) kop" where
  "sys_dup =
     kopt (argfd 0) (Ret (-1)) (\<lambda>(_, f).
     kbind (fdalloc f) (\<lambda>fd.
     if fd < 0 then kret (Ret (-1))
     else kbind (filedup f) (\<lambda>_. kret (Ret fd))))"

definition sys_read :: "'y file_st_ext devsw \<Rightarrow> ('y file_st_scheme, int outcome) kop" where
  "sys_read dsw =
     kopt (argfd 0) (Ret (-1)) (\<lambda>(_, f).
     kopt (argint 2) (Ret (-1)) (\<lambda>n.
     kopt (argptr 1 (sint n)) (Ret (-1)) (\<lambda>p.
     kbind (fileread dsw f (sint n)) (\<lambda>r.
     case r of
       Blocked \<Rightarrow> kret Blocked
     | Ret (m, bs) \<Rightarrow> kbind (uwrite p bs) (\<lambda>_. kret (Ret m))))))"

text \<open>The bytes of the request are read from user memory before the write.\<close>

definition sys_write :: "'y file_st_ext devsw \<Rightarrow> ('y file_st_scheme, int outcome) kop" where
  "sys_write dsw =
     kopt (argfd 0) (Ret (-1)) (\<lambda>(_, f).
     kopt (argint 2) (Ret (-1)) (\<lambda>n.
     kopt (argptr 1 (sint n)) (Ret (-1)) (\<lambda>p.
     kbind (uread p (nat (sint n))) (\<lambda>bs.
     kbind (filewrite dsw f bs (sint n)) (\<lambda>r.
     case r of WBlock _ \<Rightarrow> kret Blocked | WRet m \<Rightarrow> kret (Ret m))))))"

definition sys_close :: "('z file_st_scheme, int outcome) kop" where
  "sys_close =
     kopt (argfd 0) (Ret (-1)) (\<lambda>(fd, f).
     kbind curproc (\<lambda>me.
     kbind (upd_proc me (\<lambda>q. q\<lparr>ofile := (ofile q)[fd := None]\<rparr>)) (\<lambda>_.
     kbind (fileclose f) (\<lambda>_.
     kret (Ret 0)))))"

text \<open>\<open>struct stat\<close> in user memory: \<open>short type\<close>, two bytes of padding, \<open>dev\<close>, \<open>ino\<close>, \<open>short
  nlink\<close>, two bytes of padding, \<open>size\<close>.\<close>

definition STAT_SIZE :: int where "STAT_SIZE = 20"

definition bytes16 :: "u16 \<Rightarrow> u8 list" where
  "bytes16 v = [ucast v, ucast (drop_bit 8 v)]"

definition put_stat :: "addr \<Rightarrow> stat \<Rightarrow> ('z file_st_scheme, unit) kop" where
  "put_stat p st =
     kbind (uwrite (p + 4) (bytes32 (st_dev st))) (\<lambda>_.
     kbind (uwrite (p + 8) (bytes32 (st_ino st))) (\<lambda>_.
     kbind (uwrite p (bytes16 (st_type st))) (\<lambda>_.
     kbind (uwrite (p + 12) (bytes16 (st_nlink st))) (\<lambda>_.
     uwrite (p + 16) (bytes32 (st_size st))))))"

definition sys_fstat :: "('z file_st_scheme, int outcome) kop" where
  "sys_fstat =
     kopt (argfd 0) (Ret (-1)) (\<lambda>(_, f).
     kopt (argptr 1 STAT_SIZE) (Ret (-1)) (\<lambda>p.
     kopt (filestat f) (Ret (-1)) (\<lambda>st.
     kbind (put_stat p st) (\<lambda>_. kret (Ret 0)))))"

definition sys_link_bad :: "nat \<Rightarrow> ('z file_st_scheme, int outcome) kop" where
  "sys_link_bad ip =
     kbind (ilock ip) (\<lambda>_.
     kbind (upd_inode ip (\<lambda>x. x\<lparr>inlink := inlink x - 1\<rparr>)) (\<lambda>_.
     kbind (iupdate ip) (\<lambda>_.
     kbind (iunlockput ip) (\<lambda>_.
     kret (Ret (-1))))))"

definition sys_link :: "'y file_st_ext devsw \<Rightarrow> ('y file_st_scheme, int outcome) kop" where
  "sys_link dsw =
     kopt (argstr 0) (Ret (-1)) (\<lambda>(_, old).
     kopt (argstr 1) (Ret (-1)) (\<lambda>(_, new).
     kopt (namei old) (Ret (-1)) (\<lambda>ip.
     kbind (ilock ip) (\<lambda>_.
     kbind (get_inode ip) (\<lambda>i.
     if itype i = T_DIR then kbind (iunlockput ip) (\<lambda>_. kret (Ret (-1)))
     else
     kbind (upd_inode ip (\<lambda>x. x\<lparr>inlink := inlink x + 1\<rparr>)) (\<lambda>_.
     kbind (iupdate ip) (\<lambda>_.
     kbind (iunlock ip) (\<lambda>_.
     kbind (nameiparent new) (\<lambda>r.
     case r of
       None \<Rightarrow> sys_link_bad ip
     | Some (dp, name) \<Rightarrow>
         kbind (ilock dp) (\<lambda>_.
         kbind (get_inode dp) (\<lambda>d.
         kbind (get_inode ip) (\<lambda>i.
         kbind (if idev d \<noteq> idev i then kret (-1) else dirlink dsw dp name (inum i)) (\<lambda>r.
         if r < 0 then kbind (iunlockput dp) (\<lambda>_. sys_link_bad ip)
         else
         kbind (iunlockput dp) (\<lambda>_.
         kbind (iput ip) (\<lambda>_.
         kret (Ret 0))))))))))))))))"

text \<open>The entries \<open>ks\<close> of the directory are still to be looked at.\<close>

primrec isdirempty_loop :: "'z devsw \<Rightarrow> nat \<Rightarrow> nat list \<Rightarrow> ('z fs_st_scheme, bool) kop" where
  "isdirempty_loop dsw dp [] = kret True"
| "isdirempty_loop dsw dp (k # ks) =
     kbind (readi dsw dp (of_nat (k * DIRENT_SIZE)) (of_nat DIRENT_SIZE)) (\<lambda>(r, bs).
     if r \<noteq> int DIRENT_SIZE then kfail (Panic ''isdirempty: readi'')
     else if de_inum (get_dirent bs 0) \<noteq> 0 then kret False
     else isdirempty_loop dsw dp ks)"

definition isdirempty :: "'z devsw \<Rightarrow> nat \<Rightarrow> ('z fs_st_scheme, bool) kop" where
  "isdirempty dsw dp =
     kbind (get_inode dp) (\<lambda>i.
     isdirempty_loop dsw dp [2..<(unat (isize i) + DIRENT_SIZE - 1) div DIRENT_SIZE])"

definition dot :: "u8 list" where "dot = [46]"
definition dotdot :: "u8 list" where "dotdot = [46, 46]"

definition sys_unlink :: "'y file_st_ext devsw \<Rightarrow> ('y file_st_scheme, int outcome) kop" where
  "sys_unlink dsw =
     kopt (argstr 0) (Ret (-1)) (\<lambda>(_, path).
     kopt (nameiparent path) (Ret (-1)) (\<lambda>(dp, name).
     kbind (ilock dp) (\<lambda>_.
     if namecmp name dot = 0 \<or> namecmp name dotdot = 0 then kbind (iunlockput dp) (\<lambda>_. kret (Ret (-1)))
     else
     kbind (dirlookup dp name) (\<lambda>r.
     case r of
       None \<Rightarrow> kbind (iunlockput dp) (\<lambda>_. kret (Ret (-1)))
     | Some (ip, off) \<Rightarrow>
         kbind (ilock ip) (\<lambda>_.
         kbind (get_inode ip) (\<lambda>i.
         if sint (inlink i) < 1 then kfail (Panic ''unlink: nlink < 1'')
         else
         kbind (if itype i = T_DIR then isdirempty dsw ip else kret True) (\<lambda>e.
         if \<not> e then kbind (iunlockput ip) (\<lambda>_. kbind (iunlockput dp) (\<lambda>_. kret (Ret (-1))))
         else
         kbind (writei dsw dp (replicate DIRENT_SIZE 0) off (of_nat DIRENT_SIZE)) (\<lambda>r.
         if r \<noteq> int DIRENT_SIZE then kfail (Panic ''unlink: writei'')
         else
         kbind (kwhen (itype i = T_DIR)
           (kbind (upd_inode dp (\<lambda>x. x\<lparr>inlink := inlink x - 1\<rparr>)) (\<lambda>_. iupdate dp))) (\<lambda>_.
         kbind (iunlockput dp) (\<lambda>_.
         kbind (upd_inode ip (\<lambda>x. x\<lparr>inlink := inlink x - 1\<rparr>)) (\<lambda>_.
         kbind (iupdate ip) (\<lambda>_.
         kbind (iunlockput ip) (\<lambda>_.
         kret (Ret 0))))))))))))))"

text \<open>The new inode is returned locked.\<close>

definition create :: "'y file_st_ext devsw \<Rightarrow> u8 list \<Rightarrow> u16 \<Rightarrow> u16 \<Rightarrow> u16 \<Rightarrow> ('y file_st_scheme, nat option) kop" where
  "create dsw path ty major minor =
     kopt (nameiparent path) None (\<lambda>(dp, name).
     kbind (ilock dp) (\<lambda>_.
     kbind (dirlookup dp name) (\<lambda>r.
     case r of
       Some (ip, _) \<Rightarrow>
         kbind (iunlockput dp) (\<lambda>_.
         kbind (ilock ip) (\<lambda>_.
         kbind (get_inode ip) (\<lambda>i.
         if ty = T_FILE \<and> itype i = T_FILE then kret (Some ip)
         else kbind (iunlockput ip) (\<lambda>_. kret None))))
     | None \<Rightarrow>
         kbind (get_inode dp) (\<lambda>d.
         kbind (ialloc (idev d) ty) (\<lambda>ip.
         kbind (ilock ip) (\<lambda>_.
         kbind (upd_inode ip (\<lambda>x. x\<lparr>imajor := major, iminor := minor, inlink := 1\<rparr>)) (\<lambda>_.
         kbind (iupdate ip) (\<lambda>_.
         kbind (get_inode ip) (\<lambda>i.
         kbind (kwhen (ty = T_DIR)
           (kbind (upd_inode dp (\<lambda>x. x\<lparr>inlink := inlink x + 1\<rparr>)) (\<lambda>_.
            kbind (iupdate dp) (\<lambda>_.
            kbind (dirlink dsw ip dot (inum i)) (\<lambda>r.
            if r < 0 then kfail (Panic ''create dots'')
            else
            kbind (dirlink dsw ip dotdot (inum d)) (\<lambda>r.
            if r < 0 then kfail (Panic ''create dots'') else kret ())))))) (\<lambda>_.
         kbind (dirlink dsw dp name (inum i)) (\<lambda>r.
         if r < 0 then kfail (Panic ''create: dirlink'')
         else
         kbind (iunlockput dp) (\<lambda>_.
         kret (Some ip)))))))))))))"

text \<open>The inode, locked, or the error value of \<open>sys_open\<close>.\<close>

definition open_inode :: "'y file_st_ext devsw \<Rightarrow> u8 list \<Rightarrow> u32 \<Rightarrow> ('y file_st_scheme, int + nat) kop" where
  "open_inode dsw path omode =
     (if omode AND O_CREATE \<noteq> 0 then kopt (create dsw path T_FILE 0 0) (Inl (-1)) (\<lambda>ip. kret (Inr ip))
      else
      kopt (namei path) (Inl (-2)) (\<lambda>ip.
      kbind (ilock ip) (\<lambda>_.
      kbind (get_inode ip) (\<lambda>i.
      if itype i = T_DIR \<and> omode \<noteq> O_RDONLY then kbind (iunlockput ip) (\<lambda>_. kret (Inl (-3)))
      else kret (Inr ip)))))"

definition sys_open :: "'y file_st_ext devsw \<Rightarrow> ('y file_st_scheme, int outcome) kop" where
  "sys_open dsw =
     kopt (argstr 0) (Ret (-1)) (\<lambda>(_, path).
     kopt (argint 1) (Ret (-1)) (\<lambda>omode.
     kbind (open_inode dsw path omode) (\<lambda>r.
     case r of
       Inl e \<Rightarrow> kret (Ret e)
     | Inr ip \<Rightarrow>
         kbind filealloc (\<lambda>r.
         case r of
           None \<Rightarrow> kbind (iunlockput ip) (\<lambda>_. kret (Ret (-4)))
         | Some f \<Rightarrow>
             kbind (fdalloc f) (\<lambda>fd.
             if fd < 0 then kbind (fileclose f) (\<lambda>_. kbind (iunlockput ip) (\<lambda>_. kret (Ret (-4))))
             else
             kbind (iunlock ip) (\<lambda>_.
             kbind (upd_file f (\<lambda>x. x\<lparr>ftyp := FD_INODE, fip := ip, foff := 0, readable := (omode AND O_WRONLY = 0),
                writable := (omode AND O_WRONLY \<noteq> 0 \<or> omode AND O_RDWR \<noteq> 0)\<rparr>)) (\<lambda>_.
             kret (Ret fd))))))))"

definition sys_mkdir :: "'y file_st_ext devsw \<Rightarrow> ('y file_st_scheme, int outcome) kop" where
  "sys_mkdir dsw =
     kopt (argstr 0) (Ret (-1)) (\<lambda>(_, path).
     kopt (create dsw path T_DIR 0 0) (Ret (-1)) (\<lambda>ip.
     kbind (iunlockput ip) (\<lambda>_. kret (Ret 0))))"

definition sys_mknod :: "'y file_st_ext devsw \<Rightarrow> ('y file_st_scheme, int outcome) kop" where
  "sys_mknod dsw =
     kopt (argstr 0) (Ret (-1)) (\<lambda>(_, path).
     kopt (argint 1) (Ret (-1)) (\<lambda>major.
     kopt (argint 2) (Ret (-1)) (\<lambda>minor.
     kopt (create dsw path T_DEV (ucast major) (ucast minor)) (Ret (-1)) (\<lambda>ip.
     kbind (iunlockput ip) (\<lambda>_. kret (Ret 0))))))"

definition sys_chdir :: "('y file_st_scheme, int outcome) kop" where
  "sys_chdir =
     kopt (argstr 0) (Ret (-1)) (\<lambda>(_, path).
     kopt (namei path) (Ret (-1)) (\<lambda>ip.
     kbind (ilock ip) (\<lambda>_.
     kbind (get_inode ip) (\<lambda>i.
     if itype i \<noteq> T_DIR then kbind (iunlockput ip) (\<lambda>_. kret (Ret (-1)))
     else
     kbind (iunlock ip) (\<lambda>_.
     kbind curproc (\<lambda>me.
     kbind (kget (\<lambda>s. cwd (procs s me))) (\<lambda>c.
     kbind (case c of None \<Rightarrow> kfail (Undef ''proc->cwd'') | Some d \<Rightarrow> iput d) (\<lambda>_.
     kbind (upd_proc me (\<lambda>q. q\<lparr>cwd := Some ip\<rparr>)) (\<lambda>_.
     kret (Ret 0))))))))))"

text \<open>The argument vector at \<open>uargv\<close>: \<open>is\<close> are the indices left.\<close>

primrec fetch_argv :: "nat \<Rightarrow> addr \<Rightarrow> nat list \<Rightarrow> ('z proc_st_scheme, u8 list list option) kop" where
  "fetch_argv me uargv [] = kret None"
| "fetch_argv me uargv (i # is) =
     kopt (fetchint me (uargv + 4 * of_nat i)) None (\<lambda>uarg.
     if uarg = 0 then kret (Some [])
     else
     kopt (fetchstr me uarg) None (\<lambda>(_, a).
     kbind (fetch_argv me uargv is) (\<lambda>r. kret (map_option (\<lambda>as. a # as) r))))"

definition sys_exec :: "'y file_st_ext devsw \<Rightarrow> ('y file_st_scheme, int outcome) kop" where
  "sys_exec dsw =
     kopt (argstr 0) (Ret (-1)) (\<lambda>(_, path).
     kopt (argint 1) (Ret (-1)) (\<lambda>uargv.
     kbind curproc (\<lambda>me.
     kopt (fetch_argv me uargv [0..<MAXARG]) (Ret (-1)) (\<lambda>argv.
     kbind (exec dsw path argv) (\<lambda>r. kret (Ret r))))))"

definition sys_pipe :: "('z file_st_scheme, int outcome) kop" where
  "sys_pipe =
     kopt (argptr 0 8) (Ret (-1)) (\<lambda>fd.
     kopt pipealloc (Ret (-1)) (\<lambda>(rf, wf).
     kbind curproc (\<lambda>me.
     kbind (fdalloc rf) (\<lambda>fd0.
     kbind (if fd0 < 0 then kret (-1) else fdalloc wf) (\<lambda>fd1.
     if fd0 < 0 \<or> fd1 < 0 then
       kbind (kwhen (fd0 \<ge> 0) (upd_proc me (\<lambda>q. q\<lparr>ofile := (ofile q)[nat fd0 := None]\<rparr>))) (\<lambda>_.
       kbind (fileclose rf) (\<lambda>_.
       kbind (fileclose wf) (\<lambda>_.
       kret (Ret (-1)))))
     else
     kbind (ustore32 fd (of_int fd0)) (\<lambda>_.
     kbind (ustore32 (fd + 4) (of_int fd1)) (\<lambda>_.
     kret (Ret 0))))))))"

end
