(* ===== verification/Semaphore.thy ===== *)
theory Semaphore
  imports Proc
begin

text \<open>
  The counting semaphores of \<open>kernel/proc.c\<close>. A waiter sleeps on the address of its
  local variable \<open>sem\<close>, whose content is the address of the semaphore; \<open>wakeup2\<close>
  compares the words the two channels point to. The word behind a channel is given
  by the function \<open>deref\<close>; the channel \<open>ChSem i\<close> stands for a variable that holds
  \<open>&sem_list[i]\<close>.
\<close>

section \<open>Model\<close>

definition zero_sem :: semaphore where
  "zero_sem = \<lparr>sem_id = 0, sem_value = 0, sem_used = 0\<rparr>"

definition upd_sem :: "int \<Rightarrow> (semaphore \<Rightarrow> semaphore) \<Rightarrow> ('z proc_st_scheme, unit) kop" where
  "upd_sem i f = kmod (\<lambda>s. s\<lparr>sem_list := (sem_list s)[nat i := f (sem_list s ! nat i)]\<rparr>)"

text \<open>\<open>sem_list[sem_id]\<close> with the bounds the source does not check.\<close>

definition get_sem :: "int \<Rightarrow> ('z proc_st_scheme, semaphore) kop" where
  "get_sem i =
     (if in_array NUM_SEMAPHORES i then kget (\<lambda>s. sem_list s ! nat i) else kfail (Undef ''sem_list''))"

definition wake2 :: "(chan \<Rightarrow> u32) \<Rightarrow> chan \<Rightarrow> proc \<Rightarrow> proc" where
  "wake2 deref ch p = (if state p = SLEEPING \<and> deref (pchan p) = deref ch then p\<lparr>state := RUNNABLE\<rparr> else p)"

definition wakeup2 :: "(chan \<Rightarrow> u32) \<Rightarrow> chan \<Rightarrow> ('z proc_st_scheme, unit) kop" where
  "wakeup2 deref ch = kmod (\<lambda>s. s\<lparr>ptable := map (wake2 deref ch) (ptable s)\<rparr>)"

text \<open>\<open>sem_init\<close>: the second component is what is stored through the pointer \<open>sem_id\<close>.\<close>

definition sem_init :: "int \<Rightarrow> ('z proc_st_scheme, int \<times> int option) kop" where
  "sem_init cnt =
     kbind (kget num_sem) (\<lambda>n.
     if n \<ge> int NUM_SEMAPHORES then kret (-1, None)
     else
     kbind (kget (\<lambda>s. List.find (\<lambda>i. sem_used (sem_list s ! i) = 0) [0..<NUM_SEMAPHORES])) (\<lambda>r.
     case r of
       None \<Rightarrow> kret (-1, None)
     | Some i \<Rightarrow>
         kbind (upd_sem (int i) (\<lambda>sem. sem\<lparr>sem_id := int i, sem_value := cnt, sem_used := 1\<rparr>)) (\<lambda>_.
         kbind (kmod (\<lambda>s. s\<lparr>num_sem := n + 1\<rparr>)) (\<lambda>_.
         kret (0, Some (int i))))))"

text \<open>The loop of \<open>sem_wait\<close>; after a wakeup the source is at its head again.\<close>

definition sem_wait_loop :: "int \<Rightarrow> ('z proc_st_scheme, int outcome) kop" where
  "sem_wait_loop i =
     kbind (get_sem i) (\<lambda>sem.
     if sem_value sem \<le> 0 then kbind (sleep (ChSem (nat i))) (\<lambda>_. kret Blocked)
     else kbind (upd_sem i (\<lambda>sem. sem\<lparr>sem_value := sem_value sem - 1\<rparr>)) (\<lambda>_. kret (Ret 0)))"

definition sem_wait :: "int \<Rightarrow> ('z proc_st_scheme, int outcome) kop" where
  "sem_wait i =
     kbind (get_sem i) (\<lambda>sem.
     if sem_id sem = i \<and> sem_used sem = 1 then sem_wait_loop i else kret (Ret (-1)))"

definition sem_post :: "(chan \<Rightarrow> u32) \<Rightarrow> int \<Rightarrow> ('z proc_st_scheme, int) kop" where
  "sem_post deref i =
     kbind (get_sem i) (\<lambda>sem.
     if sem_id sem = i \<and> sem_used sem = 1 then
       kbind (upd_sem i (\<lambda>sem. sem\<lparr>sem_value := sem_value sem + 1\<rparr>)) (\<lambda>_.
       kbind (wakeup2 deref (ChSem (nat i))) (\<lambda>_.
       kret 0))
     else kret (-1))"

definition sem_destroy :: "int \<Rightarrow> ('z proc_st_scheme, int) kop" where
  "sem_destroy i =
     kbind (get_sem i) (\<lambda>sem.
     if sem_id sem = i then kbind (upd_sem i (\<lambda>sem. sem\<lparr>sem_used := 0\<rparr>)) (\<lambda>_. kret 0)
     else kret (-1))"

section \<open>Runs of a semaphore\<close>

text \<open>
  The steps the processes of the system make that concern semaphore \<open>i\<close>: a process
  passes or blocks in the loop of \<open>sem_wait\<close>, a process posts, the scheduler changes
  the current process, and something else wakes sleepers or kills a process. The
  label records what happened to the semaphore.
\<close>

datatype sem_label = Passed | Slept | Posted | Other

inductive sem_step :: "(chan \<Rightarrow> u32) \<Rightarrow> int \<Rightarrow> 'z proc_st_scheme \<Rightarrow> sem_label \<Rightarrow> 'z proc_st_scheme \<Rightarrow> bool"
  for deref :: "chan \<Rightarrow> u32" and i :: int where
  pass: "sem_wait_loop i s = Inr (Ret 0, t) \<Longrightarrow> sem_step deref i s Passed t"
| block: "sem_wait_loop i s = Inr (Blocked, t) \<Longrightarrow> sem_step deref i s Slept t"
| post: "sem_post deref i s = Inr (0, t) \<Longrightarrow> sem_step deref i s Posted t"
| switch: "p < NPROC \<Longrightarrow> sem_step deref i s Other (s\<lparr>cur := Some p\<rparr>)"
| wakes: "wakeup1 ch s = Inr ((), t) \<Longrightarrow> sem_step deref i s Other t"
| kills: "kill n s = Inr (r, t) \<Longrightarrow> sem_step deref i s Other t"

inductive sem_run :: "(chan \<Rightarrow> u32) \<Rightarrow> int \<Rightarrow> 'z proc_st_scheme \<Rightarrow> sem_label list \<Rightarrow> 'z proc_st_scheme \<Rightarrow> bool"
  for deref :: "chan \<Rightarrow> u32" and i :: int where
  start: "sem_run deref i s [] s"
| more: "sem_run deref i s ls t \<Longrightarrow> sem_step deref i t l u \<Longrightarrow> sem_run deref i s (ls @ [l]) u"

inductive_cases sem_stepE: "sem_step deref i s l t"

definition semval :: "'z proc_st_scheme \<Rightarrow> int \<Rightarrow> int" where
  "semval s i = sem_value (sem_list s ! nat i)"

text \<open>
  The invariant: the semaphore is in the table, its value is not negative, and while
  it is positive no process sleeps on it.
\<close>

definition sem_inv :: "int \<Rightarrow> 'z proc_st_scheme \<Rightarrow> bool" where
  "sem_inv i s \<longleftrightarrow> in_array NUM_SEMAPHORES i \<and> length (sem_list s) = NUM_SEMAPHORES
     \<and> length (ptable s) = NPROC \<and> (\<forall>p. cur s = Some p \<longrightarrow> p < NPROC) \<and> 0 \<le> semval s i
     \<and> (0 < semval s i \<longrightarrow> (\<forall>p < NPROC. \<not> (state (procs s p) = SLEEPING \<and> pchan (procs s p) = ChSem (nat i))))"

definition label_value :: "sem_label \<Rightarrow> int" where
  "label_value l = (case l of Passed \<Rightarrow> -1 | Posted \<Rightarrow> 1 | Slept \<Rightarrow> 0 | Other \<Rightarrow> 0)"

lemma sem_wait_loop_pass:
  assumes "sem_inv i s" "sem_wait_loop i s = Inr (Ret r, t)"
  shows "0 < semval s i \<and> t = s\<lparr>sem_list := (sem_list s)[nat i := (sem_list s ! nat i)\<lparr>sem_value := semval s i - 1\<rparr>]\<rparr>"
  using assms
  by (auto simp: sem_wait_loop_def get_sem_def sem_inv_def upd_sem_def semval_def kbind_Inr_iff not_le
      split: if_splits)

lemma sem_wait_loop_block:
  assumes inv: "sem_inv i s" and run: "sem_wait_loop i s = Inr (Blocked, t)"
  shows "semval s i \<le> 0" "sem_list t = sem_list s" "length (ptable t) = length (ptable s)" "cur t = cur s"
proof -
  have i: "in_array NUM_SEMAPHORES i" using inv by (simp add: sem_inv_def)
  show le: "semval s i \<le> 0"
    using i run by (auto simp: sem_wait_loop_def get_sem_def semval_def upd_sem_def split: if_splits)
  have "kbind (sleep (ChSem (nat i))) (\<lambda>_. kret Blocked :: ('a proc_st_scheme, int outcome) kop) s = Inr (Blocked, t)"
    using i run le by (simp add: sem_wait_loop_def get_sem_def semval_def)
  then have "sleep (ChSem (nat i)) s = Inr ((), t)"
    by (auto simp: kbind_Inr_iff)
  then show "sem_list t = sem_list s" "length (ptable t) = length (ptable s)" "cur t = cur s"
    by (auto simp: sleep_def sched_def curproc_def kbind_Inr_iff split: option.splits if_splits)
qed

text \<open>Steps that leave the semaphores alone and put nobody to sleep.\<close>

lemma sem_inv_fewer_sleepers:
  assumes "sem_inv i s" "sem_list t = sem_list s" "length (ptable t) = length (ptable s)" "cur t = cur s"
    "\<And>p. p < NPROC \<Longrightarrow> state (procs t p) = SLEEPING \<Longrightarrow> state (procs s p) = SLEEPING \<and> pchan (procs t p) = pchan (procs s p)"
  shows "sem_inv i t \<and> semval t i = semval s i"
  using assms by (auto simp: sem_inv_def semval_def)

lemma sem_step_inv:
  assumes inv: "sem_inv i s" and step: "sem_step deref i s l t"
  shows "sem_inv i t \<and> semval t i = semval s i + label_value l"
  using step
proof (cases rule: sem_step.cases)
  case pass
  have "nat i < length (sem_list s)"
    using inv by (auto simp: sem_inv_def in_array_def)
  then show ?thesis
    using sem_wait_loop_pass [OF inv pass(2)] inv pass(1)
    by (auto simp: sem_inv_def semval_def label_value_def procs_def)
next
  case block
  note B = sem_wait_loop_block [OF inv block(2)]
  then show ?thesis
    using inv block(1) by (simp add: sem_inv_def semval_def label_value_def)
next
  case post
  have i: "in_array NUM_SEMAPHORES i" "nat i < length (sem_list s)"
    using inv by (auto simp: sem_inv_def in_array_def)
  let ?sem = "sem_list s ! nat i"
  have t: "t = s\<lparr>sem_list := (sem_list s)[nat i := ?sem\<lparr>sem_value := sem_value ?sem + 1\<rparr>],
      ptable := map (wake2 deref (ChSem (nat i))) (ptable s)\<rparr>"
    using post(2) i by (auto simp: sem_post_def get_sem_def upd_sem_def wakeup2_def kbind_Inr_iff split: if_splits)
  have "\<not> (state (procs t p) = SLEEPING \<and> pchan (procs t p) = ChSem (nat i))" if "p < NPROC" for p
    using that inv by (auto simp: t procs_def wake2_def sem_inv_def)
  then show ?thesis
    using inv i(2) post(1) by (simp add: sem_inv_def semval_def label_value_def t)
next
  case (switch p)
  then show ?thesis
    using inv by (simp add: sem_inv_def semval_def label_value_def procs_def)
next
  case (wakes ch)
  then have "sem_list t = sem_list s" "length (ptable t) = length (ptable s)" "cur t = cur s"
    by (auto simp: wakeup1_run)
  moreover have "state (procs s p) = SLEEPING \<and> pchan (procs t p) = pchan (procs s p)"
    if "p < NPROC" "state (procs t p) = SLEEPING" for p
    using that wakes inv by (auto simp: wakeup1_run procs_def wake_def sem_inv_def split: if_splits)
  ultimately have "sem_inv i t \<and> semval t i = semval s i"
    by (rule sem_inv_fewer_sleepers [OF inv])
  then show ?thesis
    using wakes(1) by (simp add: label_value_def)
next
  case (kills n r)
  have t: "sem_list t = sem_list s \<and> length (ptable t) = length (ptable s) \<and> cur t = cur s
      \<and> (\<forall>p < NPROC. state (procs t p) = SLEEPING \<longrightarrow> state (procs s p) = SLEEPING \<and> pchan (procs t p) = pchan (procs s p))"
  proof (cases "find (\<lambda>i. pid (procs s i) = n) [0..<NPROC]")
    case None
    then show ?thesis using kills(2) by (simp add: kill_def)
  next
    case (Some q)
    then have q: "q < length (ptable s)"
      using inv by (auto simp: find_Some_iff sem_inv_def)
    show ?thesis
      using kills(2) kill_find [OF Some] q by (auto simp: procs_def nth_list_update split: if_splits)
  qed
  then show ?thesis
    using sem_inv_fewer_sleepers [OF inv, of t] kills(1) by (auto simp: label_value_def)
qed

lemma sem_run_inv:
  "sem_run deref i s ls t \<Longrightarrow> sem_inv i s \<Longrightarrow>
     sem_inv i t \<and> semval t i = semval s i + sum_list (map label_value ls)"
  by (induction rule: sem_run.induct) (auto dest: sem_step_inv)

lemma label_value_sum:
  "sum_list (map label_value ls) = int (length (filter (\<lambda>l. l = Posted) ls)) - int (length (filter (\<lambda>l. l = Passed) ls))"
proof (induction ls)
  case (Cons l ls)
  then show ?case by (cases l) (simp_all add: label_value_def)
qed simp

section \<open>Properties\<close>

text \<open>
  C4. Semaphore runs. In every interleaving of waits, posts, scheduling, other wakeups
  and kills that starts with a value that is not negative and nobody asleep on a
  positive semaphore, the number of waits that have passed is at most the initial
  value plus the number of posts; the value is exactly the difference; and no wakeup
  is lost: a process sleeps on the semaphore only while its value is 0.
\<close>

theorem semaphore_safe:
  assumes "sem_run deref i s ls t" "sem_inv i s"
  shows "int (length (filter (\<lambda>l. l = Passed) ls)) \<le> semval s i + int (length (filter (\<lambda>l. l = Posted) ls))
    \<and> semval t i = semval s i + int (length (filter (\<lambda>l. l = Posted) ls)) - int (length (filter (\<lambda>l. l = Passed) ls))
    \<and> (\<forall>p < NPROC. state (procs t p) = SLEEPING \<and> pchan (procs t p) = ChSem (nat i) \<longrightarrow> semval t i = 0)"
proof -
  have t: "sem_inv i t" "semval t i = semval s i + sum_list (map label_value ls)"
    using sem_run_inv [OF assms] by simp_all
  have "0 \<le> semval t i" using t(1) by (simp add: sem_inv_def)
  moreover have "semval t i = 0" if "p < NPROC" "state (procs t p) = SLEEPING" "pchan (procs t p) = ChSem (nat i)" for p
    using t(1) that by (auto simp: sem_inv_def)
  ultimately show ?thesis
    using t(2) by (auto simp: label_value_sum)
qed

text \<open>Two processes and a semaphore of value 1.\<close>

definition sem_example :: proc_st where
  "sem_example = mlfq_example\<lparr>cur := Some 0,
     sem_list := zero_sem\<lparr>sem_value := 1, sem_used := 1\<rparr> # replicate 31 zero_sem, num_sem := 1\<rparr>"

lemma sem_example_inv: "sem_inv 0 sem_example"
proof -
  have "\<not> (state (procs sem_example p) = SLEEPING \<and> pchan (procs sem_example p) = ChSem 0)" if "p < NPROC" for p
    using that by (auto simp: procs_def sem_example_def mlfq_example_def zero_proc_def NPROC_def nth_Cons')
  moreover have "length (ptable sem_example) = NPROC"
    using mlfq_example_ok(2) by (simp add: sem_example_def)
  ultimately show ?thesis
    by (simp add: sem_inv_def sem_example_def semval_def in_array_def NUM_SEMAPHORES_def NPROC_def)
qed

theorem semaphore_safe_witness:
  "\<exists>t. sem_run (\<lambda>_. 0) 0 sem_example [Passed] t \<and> semval t 0 = 0"
proof -
  have "\<exists>t. sem_wait_loop 0 sem_example = Inr (Ret 0, t)"
    by (simp add: sem_wait_loop_def get_sem_def in_array_def NUM_SEMAPHORES_def upd_sem_def sem_example_def)
  then obtain t where "sem_run (\<lambda>_. 0) 0 sem_example ([] @ [Passed]) t"
    using sem_run.intros sem_step.pass by metis
  then have r: "sem_run (\<lambda>_. 0) 0 sem_example [Passed] t" by simp
  from semaphore_safe [OF r sem_example_inv] have "semval t 0 = 0"
    by (simp add: semval_def sem_example_def)
  with r show ?thesis by blast
qed



end
