(* ===== verification/Console.thy ===== *)
theory Console
  imports File
begin

text \<open>
  The console, \<open>kernel/console.c\<close>, with the keyboard of \<open>kernel/kbd.c\<close> and \<open>kernel/kbd.h\<close>
  and the serial port of \<open>kernel/uart.c\<close>. The hardware is part of the state: the bytes
  sent over the serial line, the cells of the screen and the cursor register. An
  interrupt handler is given the bytes the device has for it.
\<close>

section \<open>State\<close>

definition INPUT_BUF :: nat where "INPUT_BUF = 128"
definition BACKSPACE :: u32 where "BACKSPACE = 0x100"

text \<open>\<open>in_r\<close>, \<open>in_w\<close> and \<open>in_e\<close> are the indices of the structure \<open>input\<close>; \<open>kshift\<close> is the
  static variable of \<open>kbdgetc\<close>.\<close>

record cons_st = file_st +
  uart :: bool
  serial :: "u8 list"
  crt :: "u16 list"
  crt_pos :: nat
  inbuf :: "u8 list"
  in_r :: u32
  in_w :: u32
  in_e :: u32
  kshift :: u8

section \<open>Output\<close>

definition uartputc :: "u32 \<Rightarrow> ('z cons_st_scheme, unit) kop" where
  "uartputc c = kmod (\<lambda>s. if uart s then s\<lparr>serial := serial s @ [ucast c]\<rparr> else s)"

text \<open>The screen after a character: the cells and the new cursor position.\<close>

definition cga_move :: "u32 \<Rightarrow> u16 list \<Rightarrow> nat \<Rightarrow> u16 list \<times> nat" where
  "cga_move c cells pos =
     (if c = 10 then (cells, pos + (80 - pos mod 80))
      else if c = BACKSPACE then (cells, if pos > 0 then pos - 1 else pos)
      else (cells[pos := ucast (c AND 0xFF) OR 0x0700], pos + 1))"

definition cga_scroll :: "u16 list \<times> nat \<Rightarrow> u16 list \<times> nat" where
  "cga_scroll = (\<lambda>(cells, pos).
     if pos div 80 \<ge> 24 then
       let cells' = take (23 * 80) (drop 80 cells) @ drop (23 * 80) cells;
           pos' = pos - 80
       in (take pos' cells' @ replicate (24 * 80 - pos') 0 @ drop (24 * 80) cells', pos')
     else (cells, pos))"

definition cgaputc :: "u32 \<Rightarrow> ('z cons_st_scheme, unit) kop" where
  "cgaputc c = kmod (\<lambda>s.
     let (cells, pos) = cga_scroll (cga_move c (crt s) (crt_pos s))
     in s\<lparr>crt := cells[pos := 0x0720], crt_pos := pos\<rparr>)"

definition consputc :: "u32 \<Rightarrow> ('z cons_st_scheme, unit) kop" where
  "consputc c =
     kbind (if c = BACKSPACE then kbind (uartputc 8) (\<lambda>_. kbind (uartputc 32) (\<lambda>_. uartputc 8))
            else uartputc c) (\<lambda>_.
     cgaputc c)"

text \<open>The digits of \<open>printint\<close>, least significant first; \<open>base\<close> is 10 or 16.\<close>

definition digit :: "nat \<Rightarrow> u8" where
  "digit d = (if d < 10 then of_nat (48 + d) else of_nat (87 + d))"

function digits_rev :: "nat \<Rightarrow> nat \<Rightarrow> u8 list" where
  "digits_rev base x = (if base < 2 then [] else digit (x mod base) # (if x div base = 0 then [] else digits_rev base (x div base)))"
  by pat_completeness auto
termination
proof (relation "measure snd", goal_cases)
  case (2 base x)
  have "x \<noteq> 0" using 2 by (intro notI) simp
  moreover have "1 < base" using 2 by simp
  ultimately show ?case by simp
qed simp

declare digits_rev.simps [simp del]

definition printint_chars :: "u32 \<Rightarrow> nat \<Rightarrow> bool \<Rightarrow> u8 list" where
  "printint_chars xx base sign =
     (let neg = sign \<and> sint xx < 0;
          x = (if neg then - xx else xx)
      in rev (digits_rev base (unat x) @ (if neg then [45] else [])))"

definition conswrite :: "u8 list \<Rightarrow> ('z cons_st_scheme, unit) kop" where
  "conswrite bs = kfor bs (\<lambda>c. consputc (ucast c))"

definition printint :: "u32 \<Rightarrow> nat \<Rightarrow> bool \<Rightarrow> ('z cons_st_scheme, unit) kop" where
  "printint xx base sign = conswrite (printint_chars xx base sign)"

text \<open>The arguments of a format: a word, or a string given by its bytes, \<open>None\<close> for a null
  pointer. A format that asks for more or other arguments reads the stack.\<close>

datatype fmtarg = AInt u32 | AStr "u8 list option"

fun cprintf :: "u8 list \<Rightarrow> fmtarg list \<Rightarrow> ('z cons_st_scheme, unit) kop" where
  "cprintf [] as = kret ()"
| "cprintf (c # fmt) as =
     (if c \<noteq> 37 then kbind (consputc (ucast c)) (\<lambda>_. cprintf fmt as)
      else
      case fmt of
        [] \<Rightarrow> kret ()
      | d # fmt' \<Rightarrow>
          if d = 100 then
            (case as of AInt v # as' \<Rightarrow> kbind (printint v 10 True) (\<lambda>_. cprintf fmt' as') | _ \<Rightarrow> kfail (Undef ''cprintf: argp''))
          else if d = 120 \<or> d = 112 then
            (case as of AInt v # as' \<Rightarrow> kbind (printint v 16 False) (\<lambda>_. cprintf fmt' as') | _ \<Rightarrow> kfail (Undef ''cprintf: argp''))
          else if d = 115 then
            (case as of AStr s # as' \<Rightarrow>
               kbind (conswrite (case s of None \<Rightarrow> map (of_nat \<circ> of_char) ''(null)'' | Some bs \<Rightarrow> bs)) (\<lambda>_. cprintf fmt' as')
             | _ \<Rightarrow> kfail (Undef ''cprintf: argp''))
          else if d = 37 then kbind (consputc 37) (\<lambda>_. cprintf fmt' as)
          else kbind (consputc 37) (\<lambda>_. kbind (consputc (ucast d)) (\<lambda>_. cprintf fmt' as)))"

definition str :: "string \<Rightarrow> u8 list" where
  "str cs = map (of_nat \<circ> of_char) cs"

section \<open>The process listing\<close>

definition state_name :: "procstate \<Rightarrow> u8 list" where
  "state_name st = (case st of UNUSED \<Rightarrow> str ''unused'' | EMBRYO \<Rightarrow> str ''embryo'' | SLEEPING \<Rightarrow> str ''sleep ''
     | RUNNABLE \<Rightarrow> str ''runble'' | RUNNING \<Rightarrow> str ''run   '' | ZOMBIE \<Rightarrow> str ''zombie'')"

text \<open>The name of a process: the bytes before the first zero.\<close>

definition name_bytes :: "cstr \<Rightarrow> u8 list" where
  "name_bytes n = takeWhile (\<lambda>c. c \<noteq> 0) (map n [0..<16])"

text \<open>The chain of saved frame pointers from \<open>ebp\<close> on, \<open>n\<close> frames at most. Kernel addresses
  are physical ones.\<close>

primrec pcs_walk :: "memory \<Rightarrow> addr \<Rightarrow> nat \<Rightarrow> u32 list" where
  "pcs_walk m ebp 0 = []"
| "pcs_walk m ebp (Suc n) =
     (if ebp = 0 \<or> ebp < 0x100000 \<or> ebp = 0xFFFFFFFF then []
      else load32 m (ebp + 4) # pcs_walk m (load32 m ebp) n)"

definition getcallerpcs :: "memory \<Rightarrow> addr \<Rightarrow> u32 list" where
  "getcallerpcs m v = (let pcs = pcs_walk m (v - 8) 10 in pcs @ replicate (10 - length pcs) 0)"

text \<open>\<open>ebp p\<close> is the frame pointer in the saved context of slot \<open>p\<close>, which is not part of
  the state.\<close>

definition procdump :: "(nat \<Rightarrow> addr) \<Rightarrow> ('z cons_st_scheme, unit) kop" where
  "procdump ebp =
     kfor [0..<NPROC] (\<lambda>p.
       kbind (kget (\<lambda>s. procs s p)) (\<lambda>q.
       kbind (kget (\<lambda>s. getcallerpcs (mem s) (ebp p + 8))) (\<lambda>pc.
       if state q = UNUSED then kret ()
       else
       kbind (cprintf (str ''%d %s %s'') [AInt (of_int (pid q)), AStr (Some (state_name (state q))), AStr (Some (name_bytes (pname q)))]) (\<lambda>_.
       kbind (kwhen (state q = SLEEPING)
         (kfor (takeWhile (\<lambda>a. a \<noteq> 0) pc) (\<lambda>a. cprintf (str '' %p'') [AInt a]))) (\<lambda>_.
       cprintf [10] [])))))"

section \<open>Input\<close>

text \<open>Kill line: at most as many rounds as there are uncommitted bytes.\<close>

primrec kill_line :: "nat \<Rightarrow> ('z cons_st_scheme, unit) kop" where
  "kill_line 0 = kret ()"
| "kill_line (Suc n) =
     kbind (kget (\<lambda>s. in_e s \<noteq> in_w s \<and> inbuf s ! (unat (in_e s - 1) mod INPUT_BUF) \<noteq> 10)) (\<lambda>go.
     if go then
       kbind (kmod (\<lambda>s. s\<lparr>in_e := in_e s - 1\<rparr>)) (\<lambda>_.
       kbind (consputc BACKSPACE) (\<lambda>_.
       kill_line n))
     else kret ())"

definition cons_char :: "(nat \<Rightarrow> addr) \<Rightarrow> u8 \<Rightarrow> ('z cons_st_scheme, unit) kop" where
  "cons_char ebp c =
     (if c = 16 then procdump ebp
      else if c = 21 then kbind (kget (\<lambda>s. unat (in_e s - in_w s))) (\<lambda>n. kill_line n)
      else if c = 8 \<or> c = 0x7F then
        kbind (kget (\<lambda>s. in_e s \<noteq> in_w s)) (\<lambda>go.
        kwhen go (kbind (kmod (\<lambda>s. s\<lparr>in_e := in_e s - 1\<rparr>)) (\<lambda>_. consputc BACKSPACE)))
      else
        kbind (kget (\<lambda>s. c \<noteq> 0 \<and> unat (in_e s - in_r s) < INPUT_BUF)) (\<lambda>go.
        if \<not> go then kret ()
        else
        let d = (if c = 13 then 10 else c) in
        kbind (kmod (\<lambda>s. s\<lparr>inbuf := (inbuf s)[unat (in_e s) mod INPUT_BUF := d], in_e := in_e s + 1\<rparr>)) (\<lambda>_.
        kbind (consputc (ucast d)) (\<lambda>_.
        kbind (kget (\<lambda>s. d = 10 \<or> d = 4 \<or> in_e s = in_r s + of_nat INPUT_BUF)) (\<lambda>commit.
        kwhen commit (kbind (kmod (\<lambda>s. s\<lparr>in_w := in_e s\<rparr>)) (\<lambda>_. wakeup ChInput)))))))"

definition consoleintr :: "(nat \<Rightarrow> addr) \<Rightarrow> u8 list \<Rightarrow> ('z cons_st_scheme, unit) kop" where
  "consoleintr ebp cs = kfor cs (cons_char ebp)"

text \<open>\<open>n\<close> bytes are still wanted, of \<open>target\<close>.\<close>

primrec consoleread_loop :: "nat \<Rightarrow> nat \<Rightarrow> nat \<Rightarrow> ('z cons_st_scheme, (int \<times> u8 list) option) kop" where
  "consoleread_loop ip target 0 = kret (Some (0, []))"
| "consoleread_loop ip target (Suc n) =
     kbind (kget (\<lambda>s. in_r s = in_w s)) (\<lambda>empty.
     if empty then
       kbind curproc (\<lambda>me.
       kbind (kget (\<lambda>s. killed (procs s me))) (\<lambda>k.
       if k then kret None else kfail (Sleep ChInput)))
     else
     kbind (kget (\<lambda>s. inbuf s ! (unat (in_r s) mod INPUT_BUF))) (\<lambda>c.
     if c = 4 then
       kbind (kwhen (\<not> Suc n < target) (kmod (\<lambda>s. s\<lparr>in_r := in_r s + 1\<rparr>))) (\<lambda>_. kret (Some (int (Suc n), [])))
     else
     kbind (kmod (\<lambda>s. s\<lparr>in_r := in_r s + 1\<rparr>)) (\<lambda>_.
     if c = 10 then kret (Some (int n, [c]))
     else kbind (consoleread_loop ip target n) (\<lambda>r. kret (map_option (\<lambda>(m, cs). (m, c # cs)) r)))))"

text \<open>The result is the number of bytes, and the bytes stored.\<close>

definition consoleread :: "nat \<Rightarrow> u32 \<Rightarrow> ('z cons_st_scheme, int \<times> u8 list) kop" where
  "consoleread ip n =
     kbind (iunlock ip) (\<lambda>_.
     kbind (consoleread_loop ip (nat (sint n)) (nat (sint n))) (\<lambda>r.
     kbind (ilock ip) (\<lambda>_.
     case r of
       None \<Rightarrow> kret (-1, [])
     | Some (m, cs) \<Rightarrow> kret (int (nat (sint n)) - m, cs))))"

definition consolewrite :: "nat \<Rightarrow> u8 list \<Rightarrow> ('z cons_st_scheme, int) kop" where
  "consolewrite ip bs =
     kbind (iunlock ip) (\<lambda>_.
     kbind (conswrite bs) (\<lambda>_.
     kbind (ilock ip) (\<lambda>_.
     kret (int (length bs)))))"

text \<open>The table of devices after \<open>consoleinit\<close>.\<close>

definition CONSOLE :: nat where "CONSOLE = 1"

definition console_devsw :: "('z cons_st_ext) file_st_ext devsw" where
  "console_devsw m = (if m = CONSOLE then (Some consoleread, Some consolewrite) else (None, None))"


section \<open>The keyboard\<close>

definition SHIFT :: u8 where "SHIFT = 1"
definition CTL :: u8 where "CTL = 2"
definition ALT :: u8 where "ALT = 4"
definition CAPSLOCK :: u8 where "CAPSLOCK = 8"
definition NUMLOCK :: u8 where "NUMLOCK = 16"
definition SCROLLLOCK :: u8 where "SCROLLLOCK = 32"
definition E0ESC :: u8 where "E0ESC = 64"

definition shiftcode :: "u8 \<Rightarrow> u8" where
  "shiftcode d = (if d = 0x1D \<or> d = 0x9D then CTL else if d = 0x2A \<or> d = 0x36 then SHIFT
     else if d = 0x38 \<or> d = 0xB8 then ALT else 0)"

definition togglecode :: "u8 \<Rightarrow> u8" where
  "togglecode d = (if d = 0x3A then CAPSLOCK else if d = 0x45 then NUMLOCK else if d = 0x46 then SCROLLLOCK else 0)"

text \<open>A map is its first rows and the keys of the extended keyboard, which differ only in
  enter and divide.\<close>

definition keys :: "u8 list \<Rightarrow> u8 \<Rightarrow> u8 \<Rightarrow> u8 \<Rightarrow> u8" where
  "keys rows ent sl d =
     (if unat d < length rows then rows ! unat d
      else if d = 0x9C then ent
      else if d = 0xB5 then sl
      else if d = 0xC8 then 0xE2 else if d = 0xD0 then 0xE3
      else if d = 0xC9 then 0xE6 else if d = 0xD1 then 0xE7
      else if d = 0xCB then 0xE4 else if d = 0xCD then 0xE5
      else if d = 0x97 then 0xE0 else if d = 0xCF then 0xE1
      else if d = 0xD2 then 0xE8 else if d = 0xD3 then 0xE9
      else 0)"

definition pad_rows :: "u8 list" where
  "pad_rows = replicate 13 0 @ str ''789-456+1230.'' @ replicate 4 0"

definition normalmap :: "u8 \<Rightarrow> u8" where
  "normalmap = keys ([0, 0x1B] @ str ''1234567890-='' @ [8, 9] @ str ''qwertyuiop[]'' @ [10, 0] @ str ''asdfghjkl;''
     @ [39, 96, 0, 92] @ str ''zxcvbnm,./'' @ [0] @ str ''*'' @ [0] @ str '' '' @ pad_rows) 10 47"

definition shiftmap :: "u8 \<Rightarrow> u8" where
  "shiftmap = keys ([0, 0x1B] @ str ''!@#$%^&*()_+'' @ [8, 9] @ str ''QWERTYUIOP{}'' @ [10, 0] @ str ''ASDFGHJKL:''
     @ [34, 126, 0, 124] @ str ''ZXCVBNM<>?'' @ [0] @ str ''*'' @ [0] @ str '' '' @ pad_rows) 10 47"

text \<open>\<open>C(x)\<close> of the header.\<close>

definition ctl :: "string \<Rightarrow> u8 list" where
  "ctl cs = map (\<lambda>c. c - 64) (str cs)"

definition ctlmap :: "u8 \<Rightarrow> u8" where
  "ctlmap = keys (replicate 16 0 @ ctl ''QWERTYUIOP'' @ [0, 0, 13, 0] @ ctl ''ASDFGHJKL'' @ [0, 0, 0, 0, 92 - 64]
     @ ctl ''ZXCVBNM'' @ [0, 0, 47 - 64, 0, 0]) 13 (47 - 64)"

text \<open>One byte of the keyboard controller.\<close>

definition kbdgetc :: "u8 \<Rightarrow> ('z cons_st_scheme, u8) kop" where
  "kbdgetc d =
     kbind (kget kshift) (\<lambda>sh.
     if d = 0xE0 then kbind (kmod (\<lambda>s. s\<lparr>kshift := sh OR E0ESC\<rparr>)) (\<lambda>_. kret 0)
     else if d AND 0x80 \<noteq> 0 then
       (let d' = (if sh AND E0ESC \<noteq> 0 then d else d AND 0x7F) in
        kbind (kmod (\<lambda>s. s\<lparr>kshift := sh AND NOT (shiftcode d' OR E0ESC)\<rparr>)) (\<lambda>_. kret 0))
     else
     let (d', sh1) = (if sh AND E0ESC \<noteq> 0 then (d OR 0x80, sh AND NOT E0ESC) else (d, sh));
         sh2 = (sh1 OR shiftcode d') XOR togglecode d';
         c = (if sh2 AND (CTL OR SHIFT) = 0 then normalmap d'
              else if sh2 AND (CTL OR SHIFT) = SHIFT then shiftmap d' else ctlmap d')
     in kbind (kmod (\<lambda>s. s\<lparr>kshift := sh2\<rparr>)) (\<lambda>_.
        kret (if sh2 AND CAPSLOCK \<noteq> 0 then
                (if 97 \<le> c \<and> c \<le> 122 then c - 32 else if 65 \<le> c \<and> c \<le> 90 then c + 32 else c)
              else c)))"

primrec kbd_chars :: "u8 list \<Rightarrow> ('z cons_st_scheme, u8 list) kop" where
  "kbd_chars [] = kret []"
| "kbd_chars (d # ds) = kbind (kbdgetc d) (\<lambda>c. kbind (kbd_chars ds) (\<lambda>cs. kret (c # cs)))"

definition kbdintr :: "(nat \<Rightarrow> addr) \<Rightarrow> u8 list \<Rightarrow> ('z cons_st_scheme, unit) kop" where
  "kbdintr ebp ds = kbind (kbd_chars ds) (consoleintr ebp)"

definition uartintr :: "(nat \<Rightarrow> addr) \<Rightarrow> u8 list \<Rightarrow> ('z cons_st_scheme, unit) kop" where
  "uartintr ebp cs = kbind (kget uart) (\<lambda>u. kwhen u (consoleintr ebp cs))"

section \<open>Output operations\<close>

text \<open>Every output operation returns and changes nothing but the devices, and the cursor
  stays on the first 24 lines of the screen.\<close>

definition screen_ok :: "'z cons_st_scheme \<Rightarrow> bool" where
  "screen_ok s \<longleftrightarrow> length (crt s) = 2000 \<and> crt_pos s < 24 * 80"

definition out_step :: "'z cons_st_scheme \<Rightarrow> 'z cons_st_scheme \<Rightarrow> bool" where
  "out_step s t \<longleftrightarrow> (\<exists>a b c. t = s\<lparr>serial := a, crt := b, crt_pos := c\<rparr>) \<and> (screen_ok s \<longrightarrow> screen_ok t)"

definition out_op :: "('z cons_st_scheme, unit) kop \<Rightarrow> bool" where
  "out_op m \<longleftrightarrow> (\<forall>s. \<exists>t. m s = Inr ((), t) \<and> out_step s t)"

lemma out_step_refl [simp]: "out_step s s"
  unfolding out_step_def by (rule conjI, rule exI [of _ "serial s"], rule exI [of _ "crt s"], rule exI [of _ "crt_pos s"]) simp_all

lemma out_step_trans: "out_step s t \<Longrightarrow> out_step t u \<Longrightarrow> out_step s u"
  unfolding out_step_def by auto blast+

lemma out_opD: "out_op m \<Longrightarrow> \<exists>t. m s = Inr ((), t) \<and> out_step s t"
  by (simp add: out_op_def)

lemma out_op_kret [intro]: "out_op (kret ())"
  by (simp add: out_op_def)

lemma out_op_kbind [intro]:
  assumes "out_op m" "out_op (f ())"
  shows "out_op (kbind m f)"
  unfolding out_op_def
proof
  fix s
  obtain t where t: "m s = Inr ((), t)" "out_step s t" using out_opD [OF assms(1)] by blast
  obtain u where "f () t = Inr ((), u)" "out_step t u" using out_opD [OF assms(2)] by blast
  then show "\<exists>u. kbind m f s = Inr ((), u) \<and> out_step s u"
    using t out_step_trans by (intro exI [of _ u]) auto
qed

lemma out_op_kget [intro]: "(\<And>x. out_op (f x)) \<Longrightarrow> out_op (kbind (kget g) f)"
  by (simp add: out_op_def)

lemma out_op_kwhen [intro]: "out_op m \<Longrightarrow> out_op (kwhen b m)"
  by (simp add: kwhen_def out_op_kret)

lemma out_op_if [intro]: "(b \<Longrightarrow> out_op m) \<Longrightarrow> (\<not> b \<Longrightarrow> out_op n) \<Longrightarrow> out_op (if b then m else n)"
  by simp

lemma out_op_kfor [intro]: "(\<And>x. out_op (f x)) \<Longrightarrow> out_op (kfor xs f)"
  by (induction xs) (auto intro: out_op_kbind)

lemma out_step_serial: "out_step s (s\<lparr>serial := x\<rparr>)"
  unfolding out_step_def
  by (rule conjI, rule exI [of _ x], rule exI [of _ "crt s"], rule exI [of _ "crt_pos s"]) (simp_all add: screen_ok_def)

lemma out_op_uartputc [intro, simp]: "out_op (uartputc c)"
  by (simp add: out_op_def uartputc_def out_step_serial)

lemma newline_bound:
  assumes "pos < 1920"
  shows "pos + (80 - pos mod 80) \<le> (1920 :: nat)"
proof -
  define q r where "q = pos div 80" and "r = pos mod 80"
  have "pos = 80 * q + r" "r < 80"
    by (simp_all add: q_def r_def)
  moreover have "q < 24"
    using assms by (simp add: q_def less_mult_imp_div_less)
  ultimately show ?thesis
    unfolding r_def [symmetric] by simp
qed

lemma cgaputc_bounds:
  assumes "length cells = 2000" "pos < 1920"
  shows "case cga_scroll (cga_move c cells pos) of (cells', pos') \<Rightarrow> length cells' = 2000 \<and> pos' < 1920"
proof -
  obtain xs p where m: "cga_move c cells pos = (xs, p)" by (cases "cga_move c cells pos")
  have xp: "length xs = 2000 \<and> p \<le> 1920"
    using m assms newline_bound [of pos] by (auto simp: cga_move_def split: if_splits)
  then show ?thesis
    unfolding m by (auto simp: cga_scroll_def Let_def)
qed

lemma out_step_crt:
  assumes "cga_scroll (cga_move c (crt s) (crt_pos s)) = (xs, p)"
  shows "out_step s (s\<lparr>crt := xs[p := v], crt_pos := p\<rparr>)"
  unfolding out_step_def
  by (rule conjI, rule exI [of _ "serial s"], rule exI [of _ "xs[p := v]"], rule exI [of _ p])
    (use assms cgaputc_bounds [of "crt s" "crt_pos s" c] in \<open>auto simp: screen_ok_def\<close>)

lemma out_op_cgaputc [intro, simp]: "out_op (cgaputc c)"
  by (auto simp: out_op_def cgaputc_def split: prod.split intro: out_step_crt)

lemma out_op_consputc [intro, simp]: "out_op (consputc c)"
  unfolding consputc_def by (intro out_op_kbind out_op_if out_op_uartputc out_op_cgaputc)

lemma out_op_conswrite [intro, simp]: "out_op (conswrite bs)"
  unfolding conswrite_def by (intro out_op_kfor out_op_consputc)

lemma out_op_printint [intro, simp]: "out_op (printint x b sg)"
  by (simp add: printint_def)

lemma out_op_cprintf_nl [intro, simp]: "out_op (cprintf [10] [])"
  by simp (intro out_op_kbind out_op_consputc out_op_printint out_op_conswrite out_op_kret)

lemma out_op_cprintf_pc [intro, simp]: "out_op (cprintf (str '' %p'') [AInt a])"
  by (simp add: str_def) (intro out_op_kbind out_op_consputc out_op_printint out_op_conswrite out_op_kret)

lemma out_op_cprintf_proc [intro, simp]: "out_op (cprintf (str ''%d %s %s'') [AInt a, AStr (Some b), AStr (Some c)])"
  by (simp add: str_def) (intro out_op_kbind out_op_consputc out_op_printint out_op_conswrite out_op_kret)

lemma out_op_procdump [intro, simp]: "out_op (procdump ebp)"
  unfolding procdump_def
  by (intro out_op_kfor out_op_kget out_op_if out_op_kret out_op_kbind out_op_kwhen out_op_cprintf_nl out_op_cprintf_pc out_op_cprintf_proc)


section \<open>The input line\<close>

text \<open>
  The three indices of the ring: what lies between \<open>r\<close> and \<open>w\<close> is committed and may be
  read, what lies between \<open>w\<close> and \<open>e\<close> may still be edited.
\<close>

definition in_ok :: "'z cons_st_scheme \<Rightarrow> bool" where
  "in_ok s \<longleftrightarrow> length (inbuf s) = INPUT_BUF \<and> unat (in_w s - in_r s) \<le> unat (in_e s - in_r s)
     \<and> unat (in_e s - in_r s) \<le> INPUT_BUF"

definition committed :: "'z cons_st_scheme \<Rightarrow> u8 list" where
  "committed s = map (\<lambda>k. inbuf s ! ((unat (in_r s) + k) mod INPUT_BUF)) [0..<unat (in_w s - in_r s)]"

definition in_step :: "'z cons_st_scheme \<Rightarrow> 'z cons_st_scheme \<Rightarrow> bool" where
  "in_step s t \<longleftrightarrow> in_ok t \<and> in_r t = in_r s \<and> (\<exists>more. committed t = committed s @ more)
     \<and> (screen_ok s \<longrightarrow> screen_ok t) \<and> woken (ptable s) (ptable t)
     \<and> (committed t \<noteq> committed s \<longrightarrow> (\<forall>q < length (ptable s).
          state (procs s q) = SLEEPING \<and> pchan (procs s q) = ChInput \<longrightarrow> state (procs t q) = RUNNABLE))"

lemma in_step_refl: "in_ok s \<Longrightarrow> in_step s s"
  by (simp add: in_step_def)

lemma in_step_trans:
  assumes "in_step s t" "in_step t u"
  shows "in_step s u"
proof -
  have a: "in_ok u" "in_r u = in_r s" "\<exists>more. committed u = committed s @ more" "screen_ok s \<longrightarrow> screen_ok u"
    "woken (ptable s) (ptable u)"
    using assms woken_trans by (auto simp: in_step_def)
  have w: "woken (ptable s) (ptable t)" "woken (ptable t) (ptable u)" using assms by (auto simp: in_step_def)
  have "state (procs u q) = RUNNABLE"
    if ne: "committed u \<noteq> committed s" and q: "q < length (ptable s)" "state (procs s q) = SLEEPING" "pchan (procs s q) = ChInput" for q
  proof (cases "state (procs t q) = RUNNABLE")
    case True
    have "q < length (ptable t)" using woken_nth(1) [OF w(1) q(1)] q(1) by simp
    with True show ?thesis using woken_nth(2) [OF w(2), of q] by (simp add: procs_def)
  next
    case False
    then have "committed t = committed s" using assms(1) q by (auto simp: in_step_def)
    moreover have "procs t q = procs s q" using False woken_nth(3) [OF w(1) q(1)] by (auto simp: procs_def)
    moreover have "q < length (ptable t)" using woken_nth(1) [OF w(1) q(1)] q(1) by simp
    ultimately show ?thesis using assms(2) ne q by (auto simp: in_step_def)
  qed
  with a show ?thesis by (auto simp: in_step_def)
qed

lemma out_step_fields:
  assumes "out_step s t"
  shows "inbuf t = inbuf s" "in_r t = in_r s" "in_w t = in_w s" "in_e t = in_e s" "ptable t = ptable s"
    "screen_ok s \<longrightarrow> screen_ok t" "cur t = cur s" "icache t = icache s"
  using assms by (auto simp: out_step_def)

lemma in_step_out: "in_ok s \<Longrightarrow> out_step s t \<Longrightarrow> in_step s t"
  using out_step_fields [of s t] by (simp add: in_step_def in_ok_def committed_def procs_def)

text \<open>Taking back an uncommitted byte.\<close>

lemma edit_back:
  assumes "in_ok s" "in_e s \<noteq> in_w s"
  shows "in_step s (s\<lparr>in_e := in_e s - 1\<rparr>)" "unat (in_e s - 1 - in_w s) = unat (in_e s - in_w s) - 1"
proof -
  let ?d = "in_e s - in_r s" and ?c = "in_w s - in_r s"
  have ne: "?d \<noteq> ?c" using assms(2) by simp
  then have lt: "unat ?c < unat ?d"
    using assms(1) by (metis in_ok_def order_less_le word_unat_eq_iff)
  then have nz: "?d \<noteq> 0" by auto
  have "in_e s - 1 - in_r s = ?d - 1" by simp
  then have "unat (in_e s - 1 - in_r s) = unat ?d - 1" by (simp only: unat_minus_one [OF nz])
  then show "in_step s (s\<lparr>in_e := in_e s - 1\<rparr>)"
    using assms(1) lt by (auto simp: in_step_def in_ok_def committed_def screen_ok_def procs_def)
  have "in_e s - in_w s \<noteq> 0" using assms(2) by simp
  moreover have "in_e s - 1 - in_w s = (in_e s - in_w s) - 1" by simp
  ultimately show "unat (in_e s - 1 - in_w s) = unat (in_e s - in_w s) - 1" using unat_minus_one by metis
qed

lemma kill_line_step: "in_ok s \<Longrightarrow> \<exists>t. kill_line n s = Inr ((), t) \<and> in_step s t"
proof (induction n arbitrary: s)
  case 0
  then show ?case by (simp add: in_step_refl)
next
  case (Suc n)
  show ?case
  proof (cases "in_e s \<noteq> in_w s \<and> inbuf s ! (unat (in_e s - 1) mod INPUT_BUF) \<noteq> 10")
    case False
    then show ?thesis using Suc.prems by (auto simp: in_step_refl)
  next
    case True
    let ?u = "s\<lparr>in_e := in_e s - 1\<rparr>"
    have u: "in_step s ?u" using edit_back(1) [OF Suc.prems] True by simp
    then have uo: "in_ok ?u" by (simp add: in_step_def)
    obtain v where v: "consputc BACKSPACE ?u = Inr ((), v)" "out_step ?u v"
      using out_opD [OF out_op_consputc] by blast
    have uv: "in_step ?u v" using in_step_out [OF uo v(2)] .
    then have "in_ok v" by (simp add: in_step_def)
    from Suc.IH [OF this] obtain t where "kill_line n v = Inr ((), t)" "in_step v t" by blast
    then show ?thesis using True v(1) in_step_trans [OF in_step_trans [OF u uv]] by auto
  qed
qed

text \<open>A byte that is stored goes behind everything committed.\<close>

lemma ring_index_neq:
  assumes "k < m" "m < INPUT_BUF"
  shows "(n + k) mod INPUT_BUF \<noteq> (n + m) mod INPUT_BUF"
proof
  assume "(n + k) mod INPUT_BUF = (n + m) mod INPUT_BUF"
  then have "INPUT_BUF dvd (n + m) - (n + k)"
    using assms by (subst mod_eq_dvd_iff_nat [symmetric]) simp_all
  then show False using assms by (simp add: nat_dvd_not_less)
qed

lemma in_e_index: "unat (in_e s) mod INPUT_BUF = (unat (in_r s) + unat (in_e s - in_r s)) mod INPUT_BUF"
proof -
  have "unat (in_e s) = unat (in_r s + (in_e s - in_r s))" by simp
  also have "\<dots> = (unat (in_r s) + unat (in_e s - in_r s)) mod 2 ^ 32" by (subst unat_word_ariths(1)) simp
  finally show ?thesis by (simp add: INPUT_BUF_def mod_mod_cancel)
qed

lemma store_char:
  assumes ok: "in_ok s" and lt: "unat (in_e s - in_r s) < INPUT_BUF"
    and t: "t = s\<lparr>inbuf := (inbuf s)[unat (in_e s) mod INPUT_BUF := c], in_e := in_e s + 1\<rparr>"
  shows "in_ok t" "committed t = committed s" "unat (in_e t - in_r t) = Suc (unat (in_e s - in_r s))"
    "\<exists>more. more \<noteq> [] \<and> committed (t\<lparr>in_w := in_e t\<rparr>) = committed s @ more"
proof -
  let ?m = "unat (in_e s - in_r s)"
  have e: "in_e s + 1 - in_r s = (in_e s - in_r s) + 1" by simp
  have m: "unat (in_e s + 1 - in_r s) = Suc ?m"
    unfolding e unat_word_ariths(1) using lt by (simp add: INPUT_BUF_def)
  have nth: "(inbuf s)[unat (in_e s) mod INPUT_BUF := c] ! ((unat (in_r s) + k) mod INPUT_BUF)
      = inbuf s ! ((unat (in_r s) + k) mod INPUT_BUF)" if "k < ?m" for k
    unfolding in_e_index using ring_index_neq [OF that lt] by (metis nth_list_update_neq)
  have le: "unat (in_w s - in_r s) \<le> ?m" using ok by (simp add: in_ok_def)
  show "in_ok t" using ok lt m le by (simp add: in_ok_def t)
  show "unat (in_e t - in_r t) = Suc ?m" using m by (simp add: t)
  have pre: "map (\<lambda>k. (inbuf s)[unat (in_e s) mod INPUT_BUF := c] ! ((unat (in_r s) + k) mod INPUT_BUF)) [0..<unat (in_w s - in_r s)] = committed s"
    using nth le by (auto simp: committed_def)
  then show "committed t = committed s" by (simp add: committed_def t)
  let ?f = "\<lambda>k. (inbuf s)[unat (in_e s) mod INPUT_BUF := c] ! ((unat (in_r s) + k) mod INPUT_BUF)"
  have "[0..<Suc ?m] = [0..<unat (in_w s - in_r s)] @ [unat (in_w s - in_r s)..<Suc ?m]"
    using le by (metis le_SucI upt_add_eq_append zero_le le_add_diff_inverse)
  then have "committed (t\<lparr>in_w := in_e t\<rparr>) = committed s @ map ?f [unat (in_w s - in_r s)..<Suc ?m]"
    using pre m by (simp add: committed_def t del: upt_Suc)
  moreover have "map ?f [unat (in_w s - in_r s)..<Suc ?m] \<noteq> []" using le by simp
  ultimately show "\<exists>more. more \<noteq> [] \<and> committed (t\<lparr>in_w := in_e t\<rparr>) = committed s @ more" by blast
qed


lemma cons_char_step:
  assumes ok: "in_ok s"
  shows "\<exists>t. cons_char ebp c s = Inr ((), t) \<and> in_step s t"
proof -
  consider (dump) "c = 16" | (killl) "c = 21" | (erase) "c = 8 \<or> c = 0x7F" | (other) "c \<noteq> 16" "c \<noteq> 21" "c \<noteq> 8" "c \<noteq> 0x7F"
    by blast
  then show ?thesis
  proof cases
    case dump
    obtain t where "procdump ebp s = Inr ((), t)" "out_step s t" using out_opD [OF out_op_procdump] by blast
    then show ?thesis using dump in_step_out [OF ok] by (auto simp: cons_char_def)
  next
    case killl
    then show ?thesis using kill_line_step [OF ok] by (simp add: cons_char_def)
  next
    case erase
    show ?thesis
    proof (cases "in_e s = in_w s")
      case True
      then show ?thesis using erase in_step_refl [OF ok] by (auto simp: cons_char_def)
    next
      case False
      let ?u = "s\<lparr>in_e := in_e s - 1\<rparr>"
      have u: "in_step s ?u" using edit_back(1) [OF ok False] .
      then have uo: "in_ok ?u" by (simp add: in_step_def)
      obtain v where v: "consputc BACKSPACE ?u = Inr ((), v)" "out_step ?u v"
        using out_opD [OF out_op_consputc] by blast
      then have "in_step s v" using in_step_out [OF uo] in_step_trans [OF u] by blast
      then show ?thesis using erase False v(1) by (auto simp: cons_char_def)
    qed
  next
    case other
    show ?thesis
    proof (cases "c \<noteq> 0 \<and> unat (in_e s - in_r s) < INPUT_BUF")
      case False
      then show ?thesis using other in_step_refl [OF ok] by (auto simp: cons_char_def)
    next
      case True
      let ?d = "if c = 13 then 10 else c"
      let ?u = "s\<lparr>inbuf := (inbuf s)[unat (in_e s) mod INPUT_BUF := ?d], in_e := in_e s + 1\<rparr>"
      note st = store_char [OF ok conjunct2 [OF True] refl, of ?d]
      obtain v where v: "consputc (ucast ?d) ?u = Inr ((), v)" "out_step ?u v"
        using out_opD [OF out_op_consputc] by blast
      note f = out_step_fields [OF v(2)]
      have vo: "in_ok v" "committed v = committed s" "in_r v = in_r s" "ptable v = ptable s" "screen_ok s \<longrightarrow> screen_ok v"
        using st(1,2) f by (simp_all add: in_ok_def committed_def screen_ok_def)
      obtain more where more: "more \<noteq> []" "committed (v\<lparr>in_w := in_e v\<rparr>) = committed s @ more"
        using st(4) f by (auto simp: committed_def)
      let ?c = "?d = 10 \<or> ?d = 4 \<or> in_e v = in_r v + of_nat INPUT_BUF"
      let ?t = "v\<lparr>in_w := in_e v, ptable := map (wake ChInput) (ptable v)\<rparr>"
      have "in_step s v" using vo by (simp add: in_step_def procs_def)
      moreover have "in_step s ?t"
      proof -
        have "in_ok ?t" using vo(1) by (simp add: in_ok_def)
        moreover have "committed ?t = committed s @ more" using more(2) by (simp add: committed_def)
        moreover have "screen_ok s \<longrightarrow> screen_ok ?t" using vo(5) by (simp add: screen_ok_def)
        ultimately show ?thesis using vo by (simp add: in_step_def procs_def wake_def)
      qed
      moreover have "cons_char ebp c s = Inr ((), if ?c then ?t else v)"
        using other True v(1) by (simp add: cons_char_def Let_def)
      ultimately show ?thesis by auto
    qed
  qed
qed

lemma consoleintr_step: "in_ok s \<Longrightarrow> \<exists>t. consoleintr ebp cs s = Inr ((), t) \<and> in_step s t"
proof (induction cs arbitrary: s)
  case Nil
  then show ?case by (simp add: consoleintr_def in_step_refl)
next
  case (Cons c cs)
  obtain u where u: "cons_char ebp c s = Inr ((), u)" "in_step s u" using cons_char_step [OF Cons.prems] by blast
  then have "in_ok u" by (simp add: in_step_def)
  from Cons.IH [OF this] obtain t where "consoleintr ebp cs u = Inr ((), t)" "in_step u t" by blast
  then show ?case using u in_step_trans by (auto simp: consoleintr_def)
qed

lemma take_char:
  assumes "in_ok s" "in_r s \<noteq> in_w s"
  shows "in_ok (s\<lparr>in_r := in_r s + 1\<rparr>)"
    "committed s = inbuf s ! (unat (in_r s) mod INPUT_BUF) # committed (s\<lparr>in_r := in_r s + 1\<rparr>)"
proof -
  have nz: "in_w s - in_r s \<noteq> 0" using assms(2) by simp
  then have pos: "0 < unat (in_w s - in_r s)" using unat_gt_0 by blast
  then have nz': "in_e s - in_r s \<noteq> 0" using assms(1) by (auto simp: in_ok_def)
  have w: "unat (in_w s - (in_r s + 1)) = unat (in_w s - in_r s) - 1"
    unfolding diff_diff_eq [symmetric] by (rule unat_minus_one [OF nz])
  have e: "unat (in_e s - (in_r s + 1)) = unat (in_e s - in_r s) - 1"
    unfolding diff_diff_eq [symmetric] by (rule unat_minus_one [OF nz'])
  show "in_ok (s\<lparr>in_r := in_r s + 1\<rparr>)" using assms(1) pos w e by (auto simp: in_ok_def)
  obtain m where m: "unat (in_w s - in_r s) = Suc m" using pos gr0_conv_Suc by blast
  have i: "(unat (in_r s + 1) + k) mod INPUT_BUF = (unat (in_r s) + Suc k) mod INPUT_BUF" for k
  proof -
    have "unat (in_r s + 1) mod INPUT_BUF = (unat (in_r s) + 1) mod INPUT_BUF"
      by (simp add: unat_word_ariths INPUT_BUF_def mod_mod_cancel)
    then have "(unat (in_r s + 1) mod INPUT_BUF + k) mod INPUT_BUF = ((unat (in_r s) + 1) mod INPUT_BUF + k) mod INPUT_BUF"
      by (simp only:)
    then show ?thesis by (simp only: mod_add_left_eq) simp
  qed
  show "committed s = inbuf s ! (unat (in_r s) mod INPUT_BUF) # committed (s\<lparr>in_r := in_r s + 1\<rparr>)"
    unfolding committed_def m using w m by (simp add: upt_conv_Cons map_Suc_upt [symmetric] i del: upt_Suc)
qed

text \<open>A read takes bytes from the front; a control-D that ends it may be taken as well.\<close>

lemma consoleread_loop_spec:
  assumes "in_ok s" "consoleread_loop ip target n s = Inr (Some (m, bs), t)"
  shows "in_ok t \<and> m = int n - int (length bs) \<and> (\<exists>eof. committed s = bs @ eof @ committed t \<and> (eof = [] \<or> eof = [4]))"
  using assms
proof (induction n arbitrary: s m bs)
  case 0
  then show ?case by auto
next
  case (Suc n)
  let ?c = "inbuf s ! (unat (in_r s) mod INPUT_BUF)"
  let ?u = "s\<lparr>in_r := in_r s + 1\<rparr>"
  have ne: "in_r s \<noteq> in_w s"
    using Suc.prems(2) by (auto simp: curproc_def kbind_def split: option.splits if_splits)
  note tk = take_char [OF Suc.prems(1) ne]
  consider (eof) "?c = 4" | (nl) "?c = 10" | (other) "?c \<noteq> 4" "?c \<noteq> 10" by blast
  then show ?case
  proof cases
    case eof
    then show ?thesis using Suc.prems ne tk by (auto simp: kwhen_def split: if_splits)
  next
    case nl
    then show ?thesis using Suc.prems(2) ne tk by auto
  next
    case other
    then obtain r cs where r: "consoleread_loop ip target n ?u = Inr (Some (m, cs), t)" "bs = ?c # cs"
      using Suc.prems(2) ne by (auto simp: kbind_Inr_iff)
    from Suc.IH [OF tk(1) r(1)] show ?thesis unfolding r(2) tk(2) by auto
  qed
qed

section \<open>Properties\<close>

text \<open>
  C20. Console input. Whatever bytes arrive from the keyboard or the serial line, in
  whatever state of the line being edited, the interrupt handler returns; the ring
  never overflows; bytes once committed are never changed or lost by later editing,
  new ones are added behind them, and when any are, every process that sleeps for
  input is made runnable; the cursor never leaves the screen. A read takes its bytes
  from the front of the committed ones.
\<close>

theorem console_input:
  assumes "in_ok s"
  shows "(\<exists>t. consoleintr ebp cs s = Inr ((), t) \<and> in_ok t \<and> in_r t = in_r s
       \<and> (\<exists>more. committed t = committed s @ more
            \<and> (more \<noteq> [] \<longrightarrow> (\<forall>q < length (ptable s). state (procs s q) = SLEEPING \<and> pchan (procs s q) = ChInput
                  \<longrightarrow> state (procs t q) = RUNNABLE)))
       \<and> (screen_ok s \<longrightarrow> screen_ok t))
     \<and> (\<forall>ip n m bs t. consoleread_loop ip n n s = Inr (Some (m, bs), t) \<longrightarrow>
          in_ok t \<and> m = int n - int (length bs) \<and> (\<exists>eof. committed s = bs @ eof @ committed t \<and> (eof = [] \<or> eof = [4])))"
proof -
  obtain t where t: "consoleintr ebp cs s = Inr ((), t)" "in_step s t" using consoleintr_step [OF assms] by blast
  obtain more where "committed t = committed s @ more" using t(2) by (auto simp: in_step_def)
  with t consoleread_loop_spec [OF assms] show ?thesis by (auto simp: in_step_def)
qed

definition cons_example :: cons_st where
  "cons_example = file_st.extend file_example
     \<lparr>uart = True, serial = [], crt = replicate 2000 0, crt_pos = 0, inbuf = replicate 128 0,
      in_r = -2, in_w = -2, in_e = -2, kshift = 0\<rparr>"

lemma cons_example_sel [simp]: "inbuf cons_example = replicate 128 0" "in_r cons_example = -2" "in_w cons_example = -2"
  "in_e cons_example = -2" "crt cons_example = replicate 2000 0" "crt_pos cons_example = 0"
  by (simp_all add: cons_example_def file_st.defs file_example_def fs_st.defs fs_example_def bio_st.defs bio_example_def
      proc_st.defs mlfq_example_def)

theorem console_input_witness:
  "\<exists>t more. consoleintr (\<lambda>_. 0) [104, 105, 13] cons_example = Inr ((), t) \<and> in_ok t \<and> screen_ok t
     \<and> in_r t = -2 \<and> committed t = committed cons_example @ more"
proof -
  have ok: "in_ok cons_example" "screen_ok cons_example"
    by (simp_all add: in_ok_def screen_ok_def INPUT_BUF_def)
  show ?thesis
    using console_input [OF ok(1), of "\<lambda>_. 0" "[104, 105, 13]"] ok(2) by auto
qed

end
