(* ===== verification/Syscall.thy ===== *)
theory Syscall
  imports Sysfile Semaphore Console
begin

text \<open>
  The system calls on processes, \<open>kernel/sysproc.c\<close>, the dispatch of system calls,
  \<open>kernel/syscall.c\<close>, and of traps, \<open>kernel/trap.c\<close>. \<open>deref\<close> is the word at a channel's
  address, as in theory \<open>Semaphore\<close>.
\<close>

section \<open>System calls on processes\<close>

definition kres :: "('s, int) kop \<Rightarrow> ('s, int outcome) kop" where
  "kres m = kbind m (\<lambda>r. kret (Ret r))"

definition sys_fork :: "('z file_st_scheme, int outcome) kop" where
  "sys_fork = kres fork"

text \<open>Not reached again after \<open>exit\<close>.\<close>

definition sys_exit :: "('z file_st_scheme, int outcome) kop" where
  "sys_exit = kbind exit (\<lambda>_. kret Blocked)"

definition sys_wait :: "('z file_st_scheme, int outcome) kop" where
  "sys_wait = wait"

definition sys_kill :: "('z file_st_scheme, int outcome) kop" where
  "sys_kill = kopt (argint 0) (Ret (-1)) (\<lambda>n. kres (kill (sint n)))"

definition sys_getpid :: "('z file_st_scheme, int outcome) kop" where
  "sys_getpid = kbind curproc (\<lambda>me. kget (\<lambda>s. Ret (pid (procs s me))))"

definition sys_sbrk :: "('z file_st_scheme, int outcome) kop" where
  "sys_sbrk =
     kopt (argint 0) (Ret (-1)) (\<lambda>n.
     kbind curproc (\<lambda>me.
     kbind (kget (\<lambda>s. psz (procs s me))) (\<lambda>addr.
     kbind (growproc (sint n)) (\<lambda>r.
     kret (if r < 0 then Ret (-1) else Ret (sint addr))))))"

text \<open>The loop of \<open>sys_sleep\<close>, entered again whenever the process wakes up.\<close>

definition sys_sleep_loop :: "u32 \<Rightarrow> u32 \<Rightarrow> ('z file_st_scheme, int outcome) kop" where
  "sys_sleep_loop ticks0 n =
     kbind (kget ticks) (\<lambda>now.
     if now - ticks0 < n then
       kbind curproc (\<lambda>me.
       kbind (kget (\<lambda>s. killed (procs s me))) (\<lambda>k.
       if k then kret (Ret (-1)) else kbind (sleep ChTicks) (\<lambda>_. kret Blocked)))
     else kret (Ret 0))"

definition sys_sleep :: "('z file_st_scheme, int outcome) kop" where
  "sys_sleep =
     kopt (argint 0) (Ret (-1)) (\<lambda>n.
     kbind (kget ticks) (\<lambda>ticks0.
     sys_sleep_loop ticks0 n))"

definition sys_uptime :: "('z file_st_scheme, int outcome) kop" where
  "sys_uptime = kget (\<lambda>s. Ret (sint (ticks s)))"

definition sys_clone :: "('z file_st_scheme, int outcome) kop" where
  "sys_clone =
     kopt (argptr 0 0) (Ret (-1)) (\<lambda>fcn.
     kopt (argint 1) (Ret (-1)) (\<lambda>arg1.
     kopt (argint 2) (Ret (-1)) (\<lambda>arg2.
     kopt (argptr 3 (int PGSIZE)) (Ret (-1)) (\<lambda>stack.
     kbind curproc (\<lambda>me.
     kbind (kget (\<lambda>s. psz (procs s me))) (\<lambda>sz.
     if unat stack mod PGSIZE \<noteq> 0 \<or> sz < stack + of_nat PGSIZE then kret (Ret (-1))
     else kres (clone fcn arg1 arg2 stack)))))))"

definition sys_join :: "('z file_st_scheme, int outcome) kop" where
  "sys_join =
     kopt (argptr 0 4) (Ret (-1)) (\<lambda>p.
     kbind join (\<lambda>r.
     case r of
       Blocked \<Rightarrow> kret Blocked
     | Ret (n, stack) \<Rightarrow> kbind (ustore32 p stack) (\<lambda>_. kret (Ret n))))"

text \<open>
  \<open>struct pstat\<close> is six arrays of 64 elements. A slot that \<open>getprocinfo\<close> fills in has
  \<open>inuse\<close> 1, and only those are stored.
\<close>

definition PSTAT_SIZE :: int where "PSTAT_SIZE = 3072"

definition state_code :: "procstate \<Rightarrow> u32" where
  "state_code st = (case st of UNUSED \<Rightarrow> 0 | EMBRYO \<Rightarrow> 1 | SLEEPING \<Rightarrow> 2 | RUNNABLE \<Rightarrow> 3 | RUNNING \<Rightarrow> 4 | ZOMBIE \<Rightarrow> 5)"

definition no_pstat :: pstat_slot where
  "no_pstat = \<lparr>ps_inuse = 0, ps_pid = 0, ps_priority = 0, ps_state = UNUSED, ps_ticks = [], ps_wait_ticks = []\<rparr>"

definition put_pstat :: "addr \<Rightarrow> nat \<Rightarrow> pstat_slot \<Rightarrow> ('z file_st_scheme, unit) kop" where
  "put_pstat p i x =
     (let a = p + of_nat (4 * i); b = p + of_nat (16 * i) in
      kbind (ustore32 a (of_int (ps_inuse x))) (\<lambda>_.
      kbind (ustore32 (a + 256) (of_int (ps_pid x))) (\<lambda>_.
      kbind (ustore32 (a + 512) (of_int (ps_priority x))) (\<lambda>_.
      kbind (ustore32 (a + 768) (state_code (ps_state x))) (\<lambda>_.
      kfor [0..<NLAYER] (\<lambda>j.
        kbind (ustore32 (b + 1024 + of_nat (4 * j)) (of_int (ps_ticks x ! j))) (\<lambda>_.
        ustore32 (b + 2048 + of_nat (4 * j)) (of_int (ps_wait_ticks x ! j)))))))))"

definition sys_getprocinfo :: "('z file_st_scheme, int outcome) kop" where
  "sys_getprocinfo =
     kopt (argptr 0 PSTAT_SIZE) (Ret (-1)) (\<lambda>p.
     kbind (getprocinfo (if p = 0 then None else Some (replicate NPROC no_pstat))) (\<lambda>(r, st).
     kbind (kfor [0..<length st] (\<lambda>i. kwhen (ps_inuse (st ! i) = 1) (put_pstat p i (st ! i)))) (\<lambda>_.
     kret (Ret r))))"

definition sys_boostproc :: "('z file_st_scheme, int outcome) kop" where
  "sys_boostproc = kres boostproc"

text \<open>The third argument of \<open>argptr\<close> in the next three is a comparison, which is 0.\<close>

definition sys_mprotect :: "('z file_st_scheme, int outcome) kop" where
  "sys_mprotect =
     kopt (argptr 0 0) (Ret (-1)) (\<lambda>addr.
     kopt (argint 1) (Ret (-1)) (\<lambda>len.
     kbind curproc (\<lambda>me.
     kbind (kget (\<lambda>s. pgdir (procs s me))) (\<lambda>d.
     kres (mprotect d addr (sint len))))))"

definition sys_munprotect :: "('z file_st_scheme, int outcome) kop" where
  "sys_munprotect =
     kopt (argptr 0 0) (Ret (-1)) (\<lambda>addr.
     kopt (argint 1) (Ret (-1)) (\<lambda>len.
     kbind curproc (\<lambda>me.
     kbind (kget (\<lambda>s. pgdir (procs s me))) (\<lambda>d.
     kres (munprotect d addr (sint len))))))"

definition sys_dump_allocated :: "('z file_st_scheme, int outcome) kop" where
  "sys_dump_allocated =
     kopt (argptr 0 0) (Ret (-1)) (\<lambda>frames.
     kopt (argint 1) (Ret (-1)) (\<lambda>len.
     kbind (dump_allocated (sint len)) (\<lambda>(r, fs).
     kbind (kfor [0..<length fs] (\<lambda>i. ustore32 (frames + of_nat (4 * i)) (fs ! i))) (\<lambda>_.
     kret (Ret r)))))"

definition sys_sem_init :: "('z file_st_scheme, int outcome) kop" where
  "sys_sem_init =
     kopt (argint 0) (Ret (-1)) (\<lambda>p.
     kopt (argint 1) (Ret (-1)) (\<lambda>cnt.
     kbind (sem_init (sint cnt)) (\<lambda>(r, i).
     kbind (case i of None \<Rightarrow> kret () | Some j \<Rightarrow> ustore32 p (of_int j)) (\<lambda>_.
     kret (Ret r)))))"

definition sys_sem_wait :: "('z file_st_scheme, int outcome) kop" where
  "sys_sem_wait = kopt (argint 0) (Ret (-1)) (\<lambda>i. sem_wait (sint i))"

definition sys_sem_post :: "(chan \<Rightarrow> u32) \<Rightarrow> ('z file_st_scheme, int outcome) kop" where
  "sys_sem_post deref = kopt (argint 0) (Ret (-1)) (\<lambda>i. kres (sem_post deref (sint i)))"

definition sys_sem_destroy :: "('z file_st_scheme, int outcome) kop" where
  "sys_sem_destroy = kopt (argint 0) (Ret (-1)) (\<lambda>i. kres (sem_destroy (sint i)))"

definition sys_getfilenum :: "('z file_st_scheme, int outcome) kop" where
  "sys_getfilenum = kopt (argint 0) (Ret (-1)) (\<lambda>n. kres (getfilenum (sint n)))"

section \<open>Dispatch\<close>

text \<open>The table \<open>syscalls\<close>, in the order of the numbers of \<open>include/syscall.h\<close>, from 1 on.\<close>

definition syscalls :: "(chan \<Rightarrow> u32) \<Rightarrow> 'y file_st_ext devsw \<Rightarrow> ('y file_st_scheme, int outcome) kop list" where
  "syscalls deref dsw =
     [sys_fork, sys_exit, sys_wait, sys_pipe, sys_write dsw, sys_read dsw, sys_close, sys_kill,
      sys_exec dsw, sys_open dsw, sys_mknod dsw, sys_unlink dsw, sys_fstat, sys_link dsw, sys_mkdir dsw,
      sys_chdir, sys_dup, sys_getpid, sys_sbrk, sys_sleep, sys_uptime, sys_clone, sys_join,
      sys_getprocinfo, sys_boostproc, sys_mprotect, sys_munprotect, sys_dump_allocated,
      sys_sem_init, sys_sem_wait, sys_sem_post deref, sys_sem_destroy, sys_getfilenum]"

definition NSYSCALLS :: nat where "NSYSCALLS = 33"

text \<open>A process that went to sleep in its system call stores nothing. The message of an
  unknown call goes to the console.\<close>

definition syscall :: "(chan \<Rightarrow> u32) \<Rightarrow> ('y cons_st_ext) file_st_ext devsw \<Rightarrow> ('y cons_st_scheme, unit outcome) kop" where
  "syscall deref dsw =
     kbind curproc (\<lambda>me.
     kbind (kget (\<lambda>s. procs s me)) (\<lambda>q.
     let num = sint (tf_eax (tf q)) in
     if 0 < num \<and> num \<le> int NSYSCALLS then
       kbind (syscalls deref dsw ! (nat num - 1)) (\<lambda>r.
       case r of
         Blocked \<Rightarrow> kret Blocked
       | Ret v \<Rightarrow> kbind (upd_proc me (\<lambda>q. q\<lparr>tf := (tf q)\<lparr>tf_eax := of_int v\<rparr>\<rparr>)) (\<lambda>_. kret (Ret ())))
     else
     kbind (cprintf (str ''%d %s: unknown sys call %d'' @ [10])
        [AInt (of_int (pid q)), AStr (Some (name_bytes (pname q))), AInt (of_int num)]) (\<lambda>_.
     kbind (upd_proc me (\<lambda>q. q\<lparr>tf := (tf q)\<lparr>tf_eax := -1\<rparr>\<rparr>)) (\<lambda>_.
     kret (Ret ())))))"

section \<open>Traps\<close>

definition T_SYSCALL :: u32 where "T_SYSCALL = 64"
definition T_IRQ0 :: u32 where "T_IRQ0 = 32"
definition IRQ_TIMER :: u32 where "IRQ_TIMER = 0"
definition IRQ_KBD :: u32 where "IRQ_KBD = 1"
definition IRQ_COM1 :: u32 where "IRQ_COM1 = 4"
definition IRQ_IDE :: u32 where "IRQ_IDE = 14"
definition IRQ_SPURIOUS :: u32 where "IRQ_SPURIOUS = 31"

text \<open>Exit when the current process was killed; \<open>Blocked\<close> when it does not come back.\<close>

definition exit_if_killed :: "('z file_st_scheme, unit outcome) kop" where
  "exit_if_killed =
     kbind curproc (\<lambda>me.
     kbind (kget (\<lambda>s. killed (procs s me))) (\<lambda>k.
     if k then kbind exit (\<lambda>_. kret Blocked) else kret (Ret ())))"

text \<open>Run the second operation unless the first one did not come back.\<close>

definition kthen :: "('s, unit outcome) kop \<Rightarrow> ('s, unit outcome) kop \<Rightarrow> ('s, unit outcome) kop" where
  "kthen m n = kbind m (\<lambda>r. case r of Blocked \<Rightarrow> kret Blocked | Ret _ \<Rightarrow> n)"

text \<open>
  What the devices hand to the interrupt handlers: the number of the processor, the
  scan codes and the serial bytes that are waiting, the faulting address, and the
  frame pointers for the process listing. Disk interrupts complete a transfer of
  theory \<open>Bio\<close>, where it is part of the request.
\<close>

record trap_env =
  te_cpu :: u32
  te_scan :: "u8 list"
  te_serial :: "u8 list"
  te_cr2 :: u32
  te_ebp :: "nat \<Rightarrow> addr"

definition trap_tail :: "trapframe \<Rightarrow> ('z file_st_scheme, unit outcome) kop" where
  "trap_tail f =
     (let user_exit = kbind (kget cur) (\<lambda>c. if c \<noteq> None \<and> tf_cs f AND 3 = DPL_USER then exit_if_killed else kret (Ret ())) in
      kthen user_exit (
      kthen (kbind (kget cur) (\<lambda>c.
             case c of
               None \<Rightarrow> kret (Ret ())
             | Some me \<Rightarrow>
                 kbind (kget (\<lambda>s. state (procs s me))) (\<lambda>st.
                 if st = RUNNING \<and> tf_trapno f = T_IRQ0 + IRQ_TIMER then kbind yield (\<lambda>_. kret (Ret ()))
                 else kret (Ret ())))) (
      user_exit)))"

definition trap :: "(chan \<Rightarrow> u32) \<Rightarrow> ('y cons_st_ext) file_st_ext devsw \<Rightarrow> trap_env \<Rightarrow> trapframe \<Rightarrow> ('y cons_st_scheme, unit outcome) kop" where
  "trap deref dsw env f =
     (if tf_trapno f = T_SYSCALL then
        kthen exit_if_killed (
        kthen (kbind curproc (\<lambda>me. kbind (upd_proc me (\<lambda>q. q\<lparr>tf := f\<rparr>)) (\<lambda>_. syscall deref dsw))) (
        exit_if_killed))
      else if tf_trapno f = T_IRQ0 + IRQ_TIMER then
        kbind (kwhen (te_cpu env = 0) (kbind (kmod (\<lambda>s. s\<lparr>ticks := ticks s + 1\<rparr>)) (\<lambda>_. wakeup ChTicks))) (\<lambda>_. trap_tail f)
      else if tf_trapno f = T_IRQ0 + IRQ_IDE \<or> tf_trapno f = T_IRQ0 + IRQ_IDE + 1 then trap_tail f
      else if tf_trapno f = T_IRQ0 + IRQ_KBD then kbind (kbdintr (te_ebp env) (te_scan env)) (\<lambda>_. trap_tail f)
      else if tf_trapno f = T_IRQ0 + IRQ_COM1 then kbind (uartintr (te_ebp env) (te_serial env)) (\<lambda>_. trap_tail f)
      else if tf_trapno f = T_IRQ0 + 7 \<or> tf_trapno f = T_IRQ0 + IRQ_SPURIOUS then
        kbind (cprintf (str ''cpu%d: spurious interrupt at %x:%x'' @ [10]) [AInt (te_cpu env), AInt (ucast (tf_cs f)), AInt (tf_eip f)]) (\<lambda>_.
        trap_tail f)
      else
        kbind (kget cur) (\<lambda>c.
        case c of
          None \<Rightarrow> kfail (Panic ''trap'')
        | Some me \<Rightarrow>
            if tf_cs f AND 3 = 0 then kfail (Panic ''trap'')
            else
            kbind (kget (\<lambda>s. procs s me)) (\<lambda>q.
            kbind (cprintf (str ''pid %d %s: trap %d err %d on cpu %d eip 0x%x addr 0x%x--kill proc'' @ [10])
               [AInt (of_int (pid q)), AStr (Some (name_bytes (pname q))), AInt (tf_trapno f), AInt (tf_err f), AInt (te_cpu env),
                AInt (tf_eip f), AInt (te_cr2 env)]) (\<lambda>_.
            kbind (upd_proc me (\<lambda>q. q\<lparr>killed := True\<rparr>)) (\<lambda>_.
            trap_tail f)))))"

end
