(* ===== verification/Shell.thy ===== *)
theory Shell
  imports Sysfile
begin

text \<open>
  The command parser of the shell, \<open>user/sh.c\<close>. The line is a list of bytes and a
  pointer into it is an index; the parsing functions thread \<open>*ps\<close>, the position they
  have reached, as their state. A call to the shell's \<open>panic\<close> is the fault \<open>Panic\<close>.
  The theorems: every line is parsed or refused in finite time, the words of the
  result are those of the line after \<open>nulterminate\<close> has cut them off, and a command
  that is printed is parsed back.
\<close>

section \<open>Commands\<close>

definition MAXARGS :: nat where "MAXARGS = 10"

text \<open>A word is the pair of its start and its end, \<open>q\<close> and \<open>eq\<close> of the code.\<close>

type_synonym line = "u8 list"
type_synonym span = "nat \<times> nat"

datatype cmd =
    EXEC "span list"
  | REDIR cmd span u32 nat
  | PIPE cmd cmd
  | LIST cmd cmd
  | BACK cmd

text \<open>The constructors; a call of \<open>malloc\<close> that fails is not modelled.\<close>

definition execcmd :: cmd where
  [simp]: "execcmd = EXEC []"

definition redircmd :: "cmd \<Rightarrow> span \<Rightarrow> u32 \<Rightarrow> nat \<Rightarrow> cmd" where
  [simp]: "redircmd subcmd file mode fd = REDIR subcmd file mode fd"

definition pipecmd :: "cmd \<Rightarrow> cmd \<Rightarrow> cmd" where
  [simp]: "pipecmd lft rgt = PIPE lft rgt"

definition listcmd :: "cmd \<Rightarrow> cmd \<Rightarrow> cmd" where
  [simp]: "listcmd lft rgt = LIST lft rgt"

definition backcmd :: "cmd \<Rightarrow> cmd" where
  [simp]: "backcmd subcmd = BACK subcmd"

text \<open>
  \<open>parseexec\<close> keeps a pointer to its \<open>execcmd\<close> while redirections are put around it: a
  new argument goes to the innermost command.
\<close>

primrec push_arg :: "span \<Rightarrow> cmd \<Rightarrow> cmd" where
  "push_arg a (EXEC as) = EXEC (as @ [a])"
| "push_arg a (REDIR c f m d) = REDIR (push_arg a c) f m d"
| "push_arg a (PIPE c d) = PIPE c d"
| "push_arg a (LIST c d) = LIST c d"
| "push_arg a (BACK c) = BACK c"

section \<open>Tokens\<close>

definition whitespace :: "u8 set" where "whitespace = {32, 9, 13, 10, 11}"
definition symbols :: "u8 set" where "symbols = {60, 124, 62, 38, 59, 40, 41}"

definition plain :: "u8 \<Rightarrow> bool" where
  "plain c \<longleftrightarrow> c \<notin> whitespace \<and> c \<notin> symbols"

text \<open>The byte at \<open>s\<close>; the line ends with a zero.\<close>

definition byte :: "line \<Rightarrow> nat \<Rightarrow> u8" where
  "byte l s = (if s < length l then l ! s else 0)"

function skip :: "(u8 \<Rightarrow> bool) \<Rightarrow> line \<Rightarrow> nat \<Rightarrow> nat" where
  "skip P l s = (if s < length l \<and> P (l ! s) then skip P l (Suc s) else s)"
  by pat_completeness auto
termination
  by (relation "measure (\<lambda>(P, l, s). length l - s)") auto

declare skip.simps [simp del]

abbreviation skip_white :: "line \<Rightarrow> nat \<Rightarrow> nat" where
  "skip_white \<equiv> skip (\<lambda>c. c \<in> whitespace)"

text \<open>The switch of \<open>gettoken\<close>: the kind of the token at \<open>s\<close> and where it ends.\<close>

definition token :: "line \<Rightarrow> nat \<Rightarrow> u8 \<times> nat" where
  "token l s =
     (let c = byte l s in
      if c = 0 then (c, s)
      else if c \<in> {124, 40, 41, 59, 38, 60} then (c, s + 1)
      else if c = 62 then (if byte l (s + 1) = 62 then (43, s + 2) else (c, s + 1))
      else (97, skip plain l s))"

definition gettoken :: "line \<Rightarrow> (nat, u8 \<times> span) kop" where
  "gettoken l =
     kbind (kget (skip_white l)) (\<lambda>q.
     case token l q of (ret, eq) \<Rightarrow>
     kbind (kmod (\<lambda>_. skip_white l eq)) (\<lambda>_.
     kret (ret, q, eq)))"

definition peek :: "line \<Rightarrow> u8 set \<Rightarrow> (nat, bool) kop" where
  "peek l toks =
     kbind (kmod (skip_white l)) (\<lambda>_.
     kget (\<lambda>s. byte l s \<noteq> 0 \<and> byte l s \<in> toks))"

section \<open>The parser\<close>

text \<open>
  Each loop and each recursive call takes one unit of fuel; \<open>Diverge\<close> is the end of the
  fuel.
\<close>

primrec parseredirs :: "line \<Rightarrow> nat \<Rightarrow> cmd \<Rightarrow> (nat, cmd) kop" where
  "parseredirs l 0 cmd = kfail Diverge"
| "parseredirs l (Suc n) cmd =
     kbind (peek l {60, 62}) (\<lambda>b.
     if \<not> b then kret cmd
     else
     kbind (gettoken l) (\<lambda>(tok, _).
     kbind (gettoken l) (\<lambda>(t, file).
     if t \<noteq> 97 then kfail (Panic ''missing file for redirection'')
     else parseredirs l n
       (if tok = 60 then redircmd cmd file O_RDONLY 0
        else if tok = 62 \<or> tok = 43 then redircmd cmd file (O_WRONLY OR O_CREATE) 1
        else cmd))))"

primrec parseargs :: "line \<Rightarrow> nat \<Rightarrow> nat \<Rightarrow> cmd \<Rightarrow> (nat, cmd) kop" where
  "parseargs l 0 argc ret = kfail Diverge"
| "parseargs l (Suc n) argc ret =
     kbind (peek l {124, 41, 38, 59}) (\<lambda>b.
     if b then kret ret
     else
     kbind (gettoken l) (\<lambda>(tok, arg).
     if tok = 0 then kret ret
     else if tok \<noteq> 97 then kfail (Panic ''syntax'')
     else if argc + 1 \<ge> MAXARGS then kfail (Panic ''too many args'')
     else
     kbind (parseredirs l n (push_arg arg ret)) (\<lambda>ret. parseargs l n (argc + 1) ret)))"

primrec parsebacks :: "line \<Rightarrow> nat \<Rightarrow> cmd \<Rightarrow> (nat, cmd) kop" where
  "parsebacks l 0 cmd = kfail Diverge"
| "parsebacks l (Suc n) cmd =
     kbind (peek l {38}) (\<lambda>b.
     if b then kbind (gettoken l) (\<lambda>_. parsebacks l n (backcmd cmd)) else kret cmd)"

fun parseline :: "line \<Rightarrow> nat \<Rightarrow> (nat, cmd) kop"
and parsepipe :: "line \<Rightarrow> nat \<Rightarrow> (nat, cmd) kop"
and parseexec :: "line \<Rightarrow> nat \<Rightarrow> (nat, cmd) kop"
and parseblock :: "line \<Rightarrow> nat \<Rightarrow> (nat, cmd) kop" where
  "parseline l 0 = kfail Diverge"
| "parseline l (Suc n) =
     kbind (parsepipe l n) (\<lambda>cmd.
     kbind (parsebacks l n cmd) (\<lambda>cmd.
     kbind (peek l {59}) (\<lambda>b.
     if b then kbind (gettoken l) (\<lambda>_. kbind (parseline l n) (\<lambda>right. kret (listcmd cmd right)))
     else kret cmd)))"
| "parsepipe l 0 = kfail Diverge"
| "parsepipe l (Suc n) =
     kbind (parseexec l n) (\<lambda>cmd.
     kbind (peek l {124}) (\<lambda>b.
     if b then kbind (gettoken l) (\<lambda>_. kbind (parsepipe l n) (\<lambda>right. kret (pipecmd cmd right)))
     else kret cmd))"
| "parseexec l 0 = kfail Diverge"
| "parseexec l (Suc n) =
     kbind (peek l {40}) (\<lambda>b.
     if b then parseblock l n
     else kbind (parseredirs l n execcmd) (\<lambda>ret. parseargs l n 0 ret))"
| "parseblock l 0 = kfail Diverge"
| "parseblock l (Suc n) =
     kbind (peek l {40}) (\<lambda>b.
     if \<not> b then kfail (Panic ''parseblock'')
     else
     kbind (gettoken l) (\<lambda>_.
     kbind (parseline l n) (\<lambda>cmd.
     kbind (peek l {41}) (\<lambda>b.
     if \<not> b then kfail (Panic ''syntax - missing )'')
     else
     kbind (gettoken l) (\<lambda>_. parseredirs l n cmd)))))"

primrec nulterminate :: "cmd \<Rightarrow> u8 list \<Rightarrow> u8 list" where
  "nulterminate (EXEC as) buf = foldl (\<lambda>b (q, eq). b[eq := 0]) buf as"
| "nulterminate (REDIR c f m d) buf = (nulterminate c buf)[snd f := 0]"
| "nulterminate (PIPE c d) buf = nulterminate d (nulterminate c buf)"
| "nulterminate (LIST c d) buf = nulterminate d (nulterminate c buf)"
| "nulterminate (BACK c) buf = nulterminate c buf"

text \<open>\<open>s\<close> is the buffer of the line, which holds a zero. Four units of fuel for each byte of the
  line are enough, by the first theorem below.\<close>

definition parsecmd :: "u8 list \<Rightarrow> fault + cmd \<times> u8 list" where
  "parsecmd s =
     (if 0 \<notin> set s then Inl (Undef ''strlen'')
      else
      let l = takeWhile (\<lambda>c. c \<noteq> 0) s in
      case kbind (parseline l (4 * length l + 4)) (\<lambda>cmd.
           kbind (peek l {}) (\<lambda>_.
           kbind (kget (\<lambda>p. p)) (\<lambda>p.
           if p \<noteq> length l then kfail (Panic ''syntax'') else kret cmd))) 0 of
        Inl f \<Rightarrow> Inl f
      | Inr (cmd, _) \<Rightarrow> Inr (cmd, nulterminate cmd s))"

section \<open>Positions\<close>

lemma skip_le: "s \<le> skip P l s" "s \<le> length l \<Longrightarrow> skip P l s \<le> length l"
  by (induction P l s rule: skip.induct) (subst skip.simps; force)+

lemma skip_all: "s \<le> i \<Longrightarrow> i < skip P l s \<Longrightarrow> P (l ! i)"
proof (induction P l s rule: skip.induct)
  case (1 P l s)
  then show ?case
    by (cases "i = s") (auto simp: skip.simps [of P l s] split: if_splits)
qed

lemma skip_stops: "skip P l s < length l \<Longrightarrow> \<not> P (l ! skip P l s)"
proof (induction P l s rule: skip.induct)
  case (1 P l s)
  then show ?case
    by (cases "s < length l \<and> P (l ! s)") (auto simp: skip.simps [of P l s])
qed

lemma skip_fixed: "skip P l (skip P l s) = skip P l s"
  using skip_stops [of P l s] by (subst skip.simps) auto

text \<open>
  \<open>span_ok l a\<close>: \<open>a\<close> is a word of the line, as long as it can be. \<open>yields l Q m s\<close>: from \<open>s\<close>
  the parsing function \<open>m\<close> refuses the line or moves forward within it, with a result
  that satisfies \<open>Q\<close>.
\<close>

fun span_ok :: "line \<Rightarrow> span \<Rightarrow> bool" where
  "span_ok l (q, e) \<longleftrightarrow> q < e \<and> e \<le> length l \<and> (\<forall>i. q \<le> i \<and> i < e \<longrightarrow> plain (l ! i)) \<and> (e < length l \<longrightarrow> \<not> plain (l ! e))"

declare span_ok.simps [simp del]

primrec spans :: "cmd \<Rightarrow> span list" where
  "spans (EXEC as) = as"
| "spans (REDIR c f m d) = spans c @ [f]"
| "spans (PIPE c d) = spans c @ spans d"
| "spans (LIST c d) = spans c @ spans d"
| "spans (BACK c) = spans c"

primrec max_args :: "cmd \<Rightarrow> nat" where
  "max_args (EXEC as) = length as"
| "max_args (REDIR c f m d) = max_args c"
| "max_args (PIPE c d) = max (max_args c) (max_args d)"
| "max_args (LIST c d) = max (max_args c) (max_args d)"
| "max_args (BACK c) = max_args c"

primrec redirs_ok :: "cmd \<Rightarrow> bool" where
  "redirs_ok (EXEC as) \<longleftrightarrow> True"
| "redirs_ok (REDIR c f m d) \<longleftrightarrow> redirs_ok c \<and> d < 2"
| "redirs_ok (PIPE c d) \<longleftrightarrow> redirs_ok c \<and> redirs_ok d"
| "redirs_ok (LIST c d) \<longleftrightarrow> redirs_ok c \<and> redirs_ok d"
| "redirs_ok (BACK c) \<longleftrightarrow> redirs_ok c"

definition cmd_ok :: "line \<Rightarrow> cmd \<Rightarrow> bool" where
  "cmd_ok l c \<longleftrightarrow> list_all (span_ok l) (spans c) \<and> max_args c < MAXARGS \<and> redirs_ok c"

definition yields :: "line \<Rightarrow> ('a \<Rightarrow> nat \<Rightarrow> bool) \<Rightarrow> (nat, 'a) kop \<Rightarrow> nat \<Rightarrow> bool" where
  "yields l Q m s \<longleftrightarrow>
     (case m s of Inl f \<Rightarrow> \<exists>msg. f = Panic msg | Inr (x, t) \<Rightarrow> s \<le> t \<and> t \<le> length l \<and> Q x t)"

lemma cmd_ok_simps [simp]:
  "cmd_ok l (EXEC as) = (list_all (span_ok l) as \<and> length as < MAXARGS)"
  "cmd_ok l (REDIR c f m k) = (cmd_ok l c \<and> span_ok l f \<and> k < 2)"
  "cmd_ok l (PIPE c d) = (cmd_ok l c \<and> cmd_ok l d)"
  "cmd_ok l (LIST c d) = (cmd_ok l c \<and> cmd_ok l d)"
  "cmd_ok l (BACK c) = cmd_ok l c"
  by (auto simp: cmd_ok_def)

lemma max_args_push_arg: "max_args (push_arg a c) \<le> Suc (max_args c)"
  by (induction c) auto

lemma cmd_ok_push_arg: "cmd_ok l c \<Longrightarrow> span_ok l a \<Longrightarrow> Suc (max_args c) < MAXARGS \<Longrightarrow> cmd_ok l (push_arg a c)"
  by (induction c) auto

lemma yields_kret [simp]: "yields l Q (kret x) s \<longleftrightarrow> s \<le> length l \<and> Q x s"
  by (simp add: yields_def)

lemma yields_Panic [simp]: "yields l Q (kfail (Panic msg)) s"
  by (simp add: yields_def)

lemma yields_kbind:
  assumes "yields l P m s"
    and "\<And>x t. s \<le> t \<Longrightarrow> t \<le> length l \<Longrightarrow> P x t \<Longrightarrow> yields l Q (f x) t"
  shows "yields l Q (kbind m f) s"
proof (cases "m s")
  case (Inl e)
  then show ?thesis using assms(1) by (simp add: yields_def)
next
  case (Inr r)
  then obtain x t where m: "m s = Inr (x, t)" by (cases r) auto
  then have t: "s \<le> t" "t \<le> length l" "P x t" using assms(1) by (auto simp: yields_def)
  from assms(2) [OF t] show ?thesis
    using m t(1) by (auto simp: yields_def split: sum.splits)
qed

lemma yields_peek:
  assumes "s \<le> length l"
  shows "yields l (\<lambda>b t. b \<longrightarrow> byte l t \<noteq> 0 \<and> byte l t \<in> toks \<and> skip_white l t = t) (peek l toks) s"
  using assms by (simp add: yields_def peek_def skip_fixed skip_le)

lemma token_word:
  assumes "q = skip_white l s" "s \<le> length l" "token l q = (97, e)" "byte l q \<noteq> 0"
  shows "span_ok l (q, e)"
proof -
  have q: "q < length l" "l ! q \<notin> whitespace" "byte l q = l ! q"
    using assms(1,4) skip_stops [of "\<lambda>c. c \<in> whitespace" l s] by (auto simp: byte_def split: if_splits)
  have e: "e = skip plain l q" and p: "plain (l ! q)"
    using assms(3,4) q by (auto simp: token_def Let_def plain_def symbols_def split: if_splits)
  have "Suc q \<le> e"
    unfolding e using q(1) p skip_le(1) [of "Suc q" plain l] by (subst skip.simps) simp
  moreover have "e \<le> length l"
    using e q(1) skip_le(2) [of q l plain] by simp
  ultimately show ?thesis
    using e skip_all [of q _ plain l] skip_stops [of plain l q] by (auto simp: span_ok.simps)
qed

lemma token_kind:
  assumes "q = skip_white l s" "s \<le> length l" "token l q = (tok, e)"
  shows "q \<le> e" "e \<le> length l" "tok = 0 \<longleftrightarrow> byte l q = 0" "byte l q \<noteq> 0 \<Longrightarrow> q < e"
proof -
  have q: "q \<le> length l" using assms(1,2) skip_le(2) by simp
  have b: "byte l k \<noteq> 0 \<Longrightarrow> k < length l" for k by (simp add: byte_def split: if_splits)
  consider "byte l q = 0" "tok = 0" "e = q" | "byte l q \<noteq> 0" "tok = 97" | "byte l q \<noteq> 0" "tok \<noteq> 0" "e = q + 1"
    | "byte l q \<noteq> 0" "tok \<noteq> 0" "e = q + 2" "byte l (q + 1) \<noteq> 0"
    using assms(3) by (auto simp: token_def Let_def split: if_splits)
  then have "q \<le> e \<and> e \<le> length l \<and> (tok = 0 \<longleftrightarrow> byte l q = 0) \<and> (byte l q \<noteq> 0 \<longrightarrow> q < e)"
  proof cases
    case 2
    then show ?thesis using token_word [OF assms(1,2)] assms(3) by (simp add: span_ok.simps)
  qed (use q b [of q] b [of "q + 1"] in auto)
  then show "q \<le> e" "e \<le> length l" "tok = 0 \<longleftrightarrow> byte l q = 0" "byte l q \<noteq> 0 \<Longrightarrow> q < e"
    by auto
qed

lemma yields_gettoken:
  assumes "s \<le> length l"
  shows "yields l (\<lambda>(tok, a) t. (tok \<noteq> 0 \<or> byte l (skip_white l s) \<noteq> 0 \<longrightarrow> s < t)
     \<and> (tok = 97 \<longrightarrow> span_ok l a)) (gettoken l) s"
proof -
  define q where "q = skip_white l s"
  obtain tok e where t: "token l q = (tok, e)" by fastforce
  note K = token_kind [OF q_def assms t]
  have le: "s \<le> q" "e \<le> skip_white l e" "skip_white l e \<le> length l"
    using skip_le K(2) by (simp_all add: q_def)
  have w: "tok = 97 \<Longrightarrow> span_ok l (q, e)"
    using token_word [OF q_def assms, of e] t K(3) by auto
  have g: "gettoken l s = Inr ((tok, q, e), skip_white l e)"
    by (simp add: gettoken_def q_def [symmetric] t)
  show ?thesis
    unfolding yields_def g q_def [symmetric] using le K w by auto
qed

text \<open>The steps of the parsing functions, with what a token tells of the position.\<close>

lemma yields_peekI:
  assumes "s \<le> length l"
    and "\<And>t. s \<le> t \<Longrightarrow> t \<le> length l \<Longrightarrow> byte l t \<noteq> 0 \<Longrightarrow> skip_white l t = t \<Longrightarrow> yields l Q (f True) t"
    and "\<And>t. s \<le> t \<Longrightarrow> t \<le> length l \<Longrightarrow> yields l Q (f False) t"
  shows "yields l Q (kbind (peek l toks) f) s"
proof (rule yields_kbind [OF yields_peek [OF assms(1)]])
  fix b t
  assume "s \<le> t" "t \<le> length l" "b \<longrightarrow> byte l t \<noteq> 0 \<and> byte l t \<in> toks \<and> skip_white l t = t"
  then show "yields l Q (f b) t" using assms(2,3) by (cases b) auto
qed

lemma yields_gettokenI:
  assumes "s \<le> length l"
    and "\<And>tok a t. s \<le> t \<Longrightarrow> t \<le> length l \<Longrightarrow> (tok \<noteq> 0 \<or> byte l (skip_white l s) \<noteq> 0 \<Longrightarrow> s < t)
          \<Longrightarrow> (tok = 97 \<Longrightarrow> span_ok l a) \<Longrightarrow> yields l Q (f (tok, a)) t"
  shows "yields l Q (kbind (gettoken l) f) s"
proof (rule yields_kbind [OF yields_gettoken [OF assms(1)]])
  fix x :: "u8 \<times> span" and t
  assume "s \<le> t" "t \<le> length l"
    "(\<lambda>(tok, a) t. (tok \<noteq> 0 \<or> byte l (skip_white l s) \<noteq> 0 \<longrightarrow> s < t) \<and> (tok = 97 \<longrightarrow> span_ok l a)) x t"
  then show "yields l Q (f x) t" using assms(2) by (cases x) auto
qed

lemma yields_parseredirs:
  "s \<le> length l \<Longrightarrow> length l - s < n \<Longrightarrow> cmd_ok l c \<Longrightarrow> max_args c = k
    \<Longrightarrow> yields l (\<lambda>c _. cmd_ok l c \<and> max_args c = k) (parseredirs l n c) s"
proof (induction n arbitrary: c s)
  case (Suc n)
  then show ?case
    unfolding parseredirs.simps
    by (intro yields_peekI) (auto intro!: yields_gettokenI Suc.IH)
qed simp

lemma yields_parseredirs_ok:
  "s \<le> length l \<Longrightarrow> length l - s < n \<Longrightarrow> cmd_ok l c \<Longrightarrow> yields l (\<lambda>c _. cmd_ok l c) (parseredirs l n c) s"
  using yields_parseredirs [of s l n c] by (auto simp: yields_def split: sum.splits)

lemma yields_parseargs:
  "s \<le> length l \<Longrightarrow> length l - s < n \<Longrightarrow> cmd_ok l c \<Longrightarrow> max_args c \<le> argc \<Longrightarrow> yields l (\<lambda>c _. cmd_ok l c) (parseargs l n argc c) s"
proof (induction n arbitrary: c s argc)
  case (Suc n)
  have push: "max_args (push_arg a c) \<le> Suc argc" for a
    using max_args_push_arg [of a c] Suc.prems(4) by simp
  show ?case
    unfolding parseargs.simps using Suc.prems push
    by (intro yields_peekI)
      (auto intro!: yields_gettokenI yields_kbind [OF yields_parseredirs [OF _ _ _ refl]] cmd_ok_push_arg Suc.IH)
qed simp

lemma yields_parsebacks:
  "s \<le> length l \<Longrightarrow> length l - s < n \<Longrightarrow> cmd_ok l c \<Longrightarrow> yields l (\<lambda>c _. cmd_ok l c) (parsebacks l n c) s"
proof (induction n arbitrary: c s)
  case (Suc n)
  then show ?case
    unfolding parsebacks.simps
    by (intro yields_peekI) (auto intro!: yields_gettokenI Suc.IH)
qed simp

lemma yields_parse:
  "(\<forall>s. s \<le> length l \<longrightarrow> 4 * (length l - s) + 4 \<le> n \<longrightarrow> yields l (\<lambda>c _. cmd_ok l c) (parseline l n) s)
   \<and> (\<forall>s. s \<le> length l \<longrightarrow> 4 * (length l - s) + 3 \<le> n \<longrightarrow> yields l (\<lambda>c _. cmd_ok l c) (parsepipe l n) s)
   \<and> (\<forall>s. s \<le> length l \<longrightarrow> 4 * (length l - s) + 2 \<le> n \<longrightarrow> yields l (\<lambda>c _. cmd_ok l c) (parseexec l n) s)
   \<and> (\<forall>s. s \<le> length l \<longrightarrow> 4 * (length l - s) + 1 \<le> n \<longrightarrow> yields l (\<lambda>c _. cmd_ok l c) (parseblock l n) s)"
proof (induction n)
  case (Suc n)
  then have line: "\<And>s. s \<le> length l \<Longrightarrow> 4 * (length l - s) + 4 \<le> n \<Longrightarrow> yields l (\<lambda>c _. cmd_ok l c) (parseline l n) s"
    and pipe: "\<And>s. s \<le> length l \<Longrightarrow> 4 * (length l - s) + 3 \<le> n \<Longrightarrow> yields l (\<lambda>c _. cmd_ok l c) (parsepipe l n) s"
    and exec: "\<And>s. s \<le> length l \<Longrightarrow> 4 * (length l - s) + 2 \<le> n \<Longrightarrow> yields l (\<lambda>c _. cmd_ok l c) (parseexec l n) s"
    and block: "\<And>s. s \<le> length l \<Longrightarrow> 4 * (length l - s) + 1 \<le> n \<Longrightarrow> yields l (\<lambda>c _. cmd_ok l c) (parseblock l n) s"
    by blast+
  show ?case
  proof (intro conjI allI impI)
    fix s assume "s \<le> length l" "4 * (length l - s) + 4 \<le> Suc n"
    then show "yields l (\<lambda>c _. cmd_ok l c) (parseline l (Suc n)) s"
      unfolding parseline.simps
      by (auto intro!: yields_kbind [OF pipe] yields_kbind [OF yields_parsebacks] yields_peekI yields_gettokenI yields_kbind [OF line])
  next
    fix s assume "s \<le> length l" "4 * (length l - s) + 3 \<le> Suc n"
    then show "yields l (\<lambda>c _. cmd_ok l c) (parsepipe l (Suc n)) s"
      unfolding parsepipe.simps
      by (auto intro!: yields_kbind [OF exec] yields_peekI yields_gettokenI yields_kbind [OF pipe])
  next
    fix s assume "s \<le> length l" "4 * (length l - s) + 2 \<le> Suc n"
    then show "yields l (\<lambda>c _. cmd_ok l c) (parseexec l (Suc n)) s"
      unfolding parseexec.simps
      by (auto intro!: yields_peekI block yields_kbind [OF yields_parseredirs [OF _ _ _ refl]] yields_parseargs simp: MAXARGS_def)
  next
    fix s assume "s \<le> length l" "4 * (length l - s) + 1 \<le> Suc n"
    then show "yields l (\<lambda>c _. cmd_ok l c) (parseblock l (Suc n)) s"
      unfolding parseblock.simps
      by (auto intro!: yields_peekI yields_gettokenI yields_kbind [OF line] yields_parseredirs_ok; linarith)
  qed
qed simp

section \<open>Cutting the words off\<close>

definition word_at :: "u8 list \<Rightarrow> span \<Rightarrow> u8 list" where
  "word_at l a = take (snd a - fst a) (drop (fst a) l)"

definition cstring :: "u8 list \<Rightarrow> nat \<Rightarrow> u8 list" where
  "cstring buf q = takeWhile (\<lambda>c. c \<noteq> 0) (drop q buf)"

lemma zero_fold:
  "length (foldl (\<lambda>b (q, eq). b[eq := 0]) buf as) = length buf"
  "i < length buf \<Longrightarrow> foldl (\<lambda>b (q, eq). b[eq := 0]) buf as ! i = (if i \<in> snd ` set as then 0 else buf ! i :: u8)"
  by (induction as arbitrary: buf) (auto simp: nth_list_update, force+)

lemma nulterminate_nth:
  "length (nulterminate c buf) = length buf
   \<and> (\<forall>i < length buf. nulterminate c buf ! i = (if i \<in> snd ` set (spans c) then 0 else buf ! i))"
proof (induction c arbitrary: buf)
  case (REDIR c f m k)
  have u: "(nulterminate c buf)[snd f := 0] ! i = (if i = snd f then 0 else nulterminate c buf ! i)" if "i < length buf" for i
    using REDIR [of buf] that by (simp add: nth_list_update)
  show ?case
    using REDIR [of buf] by (simp add: u)
qed (simp_all add: zero_fold image_Un)

lemma takeWhile_prefix:
  assumes "e \<le> length xs" "\<And>i. i < e \<Longrightarrow> P (xs ! i)" "e < length xs \<Longrightarrow> \<not> P (xs ! e)"
  shows "takeWhile P xs = take e xs"
  using assms by (intro takeWhile_eq_take_P_nth) auto

lemma nulterminate_word:
  assumes "0 \<in> set s" and l: "l = takeWhile (\<lambda>c. c \<noteq> 0) s" and ok: "list_all (span_ok l) (spans c)"
    and a: "(q, e) \<in> set (spans c)"
  shows "cstring (nulterminate c s) q = word_at s (q, e)" "q < e" "list_all plain (word_at s (q, e))"
proof -
  have "l \<noteq> s"
    using assms(1) l by (auto simp: takeWhile_eq_all_conv)
  then have len: "length l < length s"
    using l takeWhile_dropWhile_id [of "\<lambda>c. c \<noteq> 0" s] length_takeWhile_le [of "\<lambda>c. c \<noteq> 0" s]
    by (metis append_eq_conv_conj nat_less_le take_all_iff)
  have nth: "l ! i = s ! i" if "i < length l" for i
    using that l by (simp add: takeWhile_nth)
  have nz: "s ! i \<noteq> 0" if "i < length l" for i
    using that nth [OF that] nth_mem [OF that] l set_takeWhileD by metis
  have W: "span_ok l b" if "b \<in> set (spans c)" for b
    using ok that by (auto simp: list_all_iff)
  note A = W [OF a, unfolded span_ok.simps]
  then have qe: "q < e" "e \<le> length l" by simp_all
  have keep: "i \<notin> snd ` set (spans c)" if "q \<le> i" "i < e" for i
  proof
    assume "i \<in> snd ` set (spans c)"
    then obtain r where "(r, i) \<in> set (spans c)" by auto
    with W have "i < length l \<Longrightarrow> \<not> plain (l ! i)" by (auto simp: span_ok.simps)
    with A that show False by auto
  qed
  let ?b = "nulterminate c s"
  have B: "length ?b = length s" "\<And>i. q \<le> i \<Longrightarrow> i < e \<Longrightarrow> ?b ! i = s ! i"
    using nulterminate_nth [of c s] A len keep by simp_all
  have "e \<in> snd ` set (spans c)" using a by force
  then have "?b ! e = 0"
    using nulterminate_nth [of c s] A len by simp
  then have "takeWhile (\<lambda>c. c \<noteq> 0) (drop q ?b) = take (e - q) (drop q ?b)"
    using qe len B nz by (intro takeWhile_prefix) simp_all
  also have "\<dots> = take (e - q) (drop q s)"
    using qe len B by (intro nth_equalityI) simp_all
  finally show "cstring ?b q = word_at s (q, e)" by (simp add: cstring_def word_at_def)
  show "q < e" using A by simp
  show "list_all plain (word_at s (q, e))"
    using A len nth by (auto simp: word_at_def list_all_length)
qed

declare parseredirs.simps(2) [simp del] parseargs.simps(2) [simp del] parsebacks.simps(2) [simp del]
  parseline.simps(2) [simp del] parsepipe.simps(2) [simp del] parseexec.simps(2) [simp del] parseblock.simps(2) [simp del]

section \<open>What is left of the line\<close>

text \<open>
  \<open>rest l s r\<close>: at \<open>s\<close> the bytes \<open>r\<close> are left of the line. The parsing functions seen through
  it work on lists.
\<close>

definition rest :: "line \<Rightarrow> nat \<Rightarrow> u8 list \<Rightarrow> bool" where
  "rest l s r \<longleftrightarrow> 0 \<notin> set l \<and> s \<le> length l \<and> drop s l = r"

definition lstrip :: "u8 list \<Rightarrow> u8 list" where
  "lstrip r = dropWhile (\<lambda>c. c \<in> whitespace) r"

definition starts :: "u8 set \<Rightarrow> u8 list \<Rightarrow> bool" where
  "starts T r \<longleftrightarrow> (case r of [] \<Rightarrow> False | x # _ \<Rightarrow> x \<in> T)"

lemma starts_simps [simp]: "\<not> starts T []" "starts T (x # r) \<longleftrightarrow> x \<in> T"
  by (simp_all add: starts_def)

lemma lstrip_lstrip [simp]: "lstrip (lstrip r) = lstrip r"
  by (simp add: lstrip_def)

lemma lstrip_Cons: "lstrip (x # r) = (if x \<in> whitespace then lstrip r else x # r)"
  by (simp add: lstrip_def)

lemma lstrip_cases: "lstrip r = [] \<or> (\<exists>x r'. lstrip r = x # r' \<and> x \<notin> whitespace)"
  by (metis hd_dropWhile list.collapse lstrip_def)

lemma length_lstrip_append: "length (lstrip post) \<le> length (lstrip (xs @ post))"
  by (induction xs) (auto simp: lstrip_Cons lstrip_def intro: order_trans [OF length_dropWhile_le])

lemma rest_skip: "rest l s r \<Longrightarrow> rest l (skip P l s) (dropWhile P r)"
proof (induction P l s arbitrary: r rule: skip.induct)
  case (1 P l s)
  show ?case
  proof (cases "s < length l \<and> P (l ! s)")
    case True
    then have "r = l ! s # drop (Suc s) l" "rest l (Suc s) (drop (Suc s) l)"
      using 1(2) by (auto simp: rest_def Cons_nth_drop_Suc)
    then show ?thesis
      using 1(1) [OF True] True by (simp add: skip.simps [of P l s])
  next
    case False
    then have "dropWhile P r = r"
      using 1(2) by (cases r) (auto simp: rest_def nth_via_drop)
    then show ?thesis
      using 1(2) False by (subst skip.simps) auto
  qed
qed

lemma rest_white: "rest l s r \<Longrightarrow> rest l (skip_white l s) (lstrip r)"
  unfolding lstrip_def by (rule rest_skip)

lemma rest_Cons:
  assumes "rest l s (x # r)"
  shows "byte l s = x \<and> x \<noteq> 0 \<and> rest l (Suc s) r"
proof -
  have d: "drop s l = x # r" "0 \<notin> set l" using assms by (simp_all add: rest_def)
  then have "s < length l" by (metis drop_eq_Nil2 list.distinct(1) not_le)
  moreover have "l ! s = x" "drop (Suc s) l = r"
    using d(1) by (simp_all add: nth_via_drop drop_Suc drop_tl)
  ultimately show ?thesis
    using d(2) nth_mem [of s l] by (auto simp: byte_def rest_def)
qed

lemma rest_Nil: "rest l s [] \<Longrightarrow> byte l s = 0"
  by (auto simp: rest_def byte_def)

lemma peek_rest:
  assumes "rest l s r"
  shows "peek l T s = Inr (starts T (lstrip r), skip_white l s)" "rest l (skip_white l s) (lstrip r)"
proof -
  show R: "rest l (skip_white l s) (lstrip r)"
    using assms by (rule rest_white)
  show "peek l T s = Inr (starts T (lstrip r), skip_white l s)"
    using rest_Cons rest_Nil R by (cases "lstrip r") (fastforce simp: peek_def)+
qed

lemma gettoken_end:
  assumes "rest l s r" "lstrip r = []"
  shows "\<exists>a s'. gettoken l s = Inr ((0, a), s') \<and> rest l s' []"
proof -
  have R: "rest l (skip_white l s) []" using rest_white [OF assms(1)] assms(2) by simp
  then show ?thesis
    using rest_white [OF R] by (simp add: gettoken_def token_def Let_def rest_Nil lstrip_def)
qed

lemma gettoken_sym:
  assumes "rest l s r" "lstrip r = x # r'" "x \<in> symbols" "x = 62 \<Longrightarrow> \<not> starts {62} r'"
  shows "\<exists>a s'. gettoken l s = Inr ((x, a), s') \<and> rest l s' (lstrip r')"
proof -
  let ?q = "skip_white l s"
  have R: "byte l ?q = x" "x \<noteq> 0" "rest l (Suc ?q) r'"
    using rest_Cons rest_white [OF assms(1)] assms(2) by force+
  have "x = 62 \<Longrightarrow> byte l (Suc ?q) \<noteq> 62"
    using assms(4) R(3) rest_Cons rest_Nil by (cases r') fastforce+
  then have "token l ?q = (x, Suc ?q)"
    using R assms(3) by (auto simp: token_def Let_def symbols_def)
  then show ?thesis
    using rest_white [OF R(3)] by (simp add: gettoken_def)
qed

definition is_word :: "u8 list \<Rightarrow> bool" where
  "is_word w \<longleftrightarrow> w \<noteq> [] \<and> list_all (\<lambda>c. plain c \<and> c \<noteq> 0) w"

lemma gettoken_word:
  assumes "rest l s r" "lstrip r = w @ r'" "is_word w" "r' = [] \<or> \<not> plain (hd r')"
  shows "\<exists>a s'. gettoken l s = Inr ((97, a), s') \<and> word_at l a = w \<and> rest l s' (lstrip r')"
proof -
  let ?q = "skip_white l s" and ?e = "skip plain l (skip_white l s)"
  have R: "rest l ?q (w @ r')" using rest_white [OF assms(1)] assms(2) by simp
  obtain x w' where w: "w = x # w'" "plain x" using assms(3) by (cases w) (auto simp: is_word_def)
  have b: "byte l ?q = x" "x \<noteq> 0" using rest_Cons [of l ?q x "w' @ r'"] R w by auto
  have t: "token l ?q = (97, ?e)"
    using b w(2) by (auto simp: token_def Let_def plain_def symbols_def)
  have "dropWhile plain (w @ r') = r'"
    using assms(3,4) by (cases r') (auto simp: is_word_def list_all_iff dropWhile_append)
  then have E: "rest l ?e r'" using rest_skip [OF R, of plain] by simp
  have "?e - ?q = length w"
    using R E by (auto simp: rest_def dest!: arg_cong [of _ _ length])
  then have "word_at l (?q, ?e) = w"
    using R by (simp add: word_at_def rest_def)
  then show ?thesis
    using t rest_white [OF E] by (simp add: gettoken_def)
qed

section \<open>Printing commands\<close>

text \<open>
  A command with its words. \<open>unparse t k\<close> prints it so that the parsing function of level
  \<open>k\<close> reads it back: 0 for \<open>parseline\<close>, 1 for its part before the semicolon, 2 for
  \<open>parsepipe\<close>, 3 for \<open>parseexec\<close>.
\<close>

datatype scmd =
    SExec "u8 list list"
  | SRedir scmd "u8 list" u32 nat
  | SPipe scmd scmd
  | SList scmd scmd
  | SBack scmd

primrec text_cmd :: "(span \<Rightarrow> u8 list) \<Rightarrow> cmd \<Rightarrow> scmd" where
  "text_cmd w (EXEC as) = SExec (map w as)"
| "text_cmd w (REDIR c f m d) = SRedir (text_cmd w c) (w f) m d"
| "text_cmd w (PIPE c d) = SPipe (text_cmd w c) (text_cmd w d)"
| "text_cmd w (LIST c d) = SList (text_cmd w c) (text_cmd w d)"
| "text_cmd w (BACK c) = SBack (text_cmd w c)"

definition paren :: "bool \<Rightarrow> u8 list \<Rightarrow> u8 list" where
  "paren b r = (if b then 40 # r @ [41] else r)"

definition unparse_words :: "u8 list list \<Rightarrow> u8 list" where
  "unparse_words ws = concat (map (\<lambda>w. w @ [32]) ws)"

primrec unparse :: "scmd \<Rightarrow> nat \<Rightarrow> u8 list" where
  "unparse (SExec ws) k = unparse_words ws"
| "unparse (SRedir c f m d) k = unparse c 3 @ (if d = 0 then 60 else 62) # f @ [32]"
| "unparse (SPipe c d) k = paren (k > 2) (unparse c 3 @ 124 # unparse d 2)"
| "unparse (SBack c) k = paren (k > 1) (unparse c 1 @ [38])"
| "unparse (SList c d) k = paren (k > 0) (unparse c 1 @ 59 # unparse d 0)"

primrec scmd_ok :: "scmd \<Rightarrow> bool" where
  "scmd_ok (SExec ws) \<longleftrightarrow> list_all is_word ws \<and> length ws < MAXARGS"
| "scmd_ok (SRedir c f m d) \<longleftrightarrow> scmd_ok c \<and> is_word f \<and> (m, d) \<in> {(O_RDONLY, 0), (O_WRONLY OR O_CREATE, 1)}"
| "scmd_ok (SPipe c d) \<longleftrightarrow> scmd_ok c \<and> scmd_ok d"
| "scmd_ok (SList c d) \<longleftrightarrow> scmd_ok c \<and> scmd_ok d"
| "scmd_ok (SBack c) \<longleftrightarrow> scmd_ok c"

text \<open>
  \<open>left l s r\<close>: after white space, \<open>r\<close> is left of the line at \<open>s\<close>. What may follow a
  command is the end or one of some symbols.
\<close>

definition left :: "line \<Rightarrow> nat \<Rightarrow> u8 list \<Rightarrow> bool" where
  "left l s r \<longleftrightarrow> (\<exists>r'. rest l s r' \<and> lstrip r' = r)"

definition follow :: "u8 set \<Rightarrow> u8 list \<Rightarrow> bool" where
  "follow T r \<longleftrightarrow> r = [] \<or> starts T r"

lemma white_symbols: "x \<in> symbols \<Longrightarrow> x \<notin> whitespace" "\<not> plain 32" "32 \<in> whitespace"
  by (auto simp: symbols_def whitespace_def plain_def)

lemma is_word_lstrip: "is_word w \<Longrightarrow> lstrip (w @ r) = w @ r" "is_word w \<Longrightarrow> starts T (w @ r) \<longleftrightarrow> hd w \<in> T"
  "is_word w \<Longrightarrow> plain (hd w)"
  by (cases w; auto simp: is_word_def lstrip_Cons plain_def)+

lemma left_lstrip: "left l s r \<Longrightarrow> lstrip r = r"
  by (auto simp: left_def)

lemma left_peek:
  assumes "left l s r"
  shows "\<exists>s'. peek l T s = Inr (starts T r, s') \<and> left l s' r"
  using assms peek_rest unfolding left_def by (metis lstrip_lstrip)

lemma left_end:
  assumes "left l s []"
  shows "\<exists>a s'. gettoken l s = Inr ((0, a), s') \<and> left l s' []"
proof -
  obtain r where "rest l s r" "lstrip r = []" using assms by (auto simp: left_def)
  from gettoken_end [OF this] show ?thesis unfolding left_def by (metis lstrip_lstrip \<open>lstrip r = []\<close>)
qed

lemma left_sym:
  assumes "left l s (x # r)" "x \<in> symbols" "x = 62 \<Longrightarrow> \<not> starts {62} r"
  shows "\<exists>a s'. gettoken l s = Inr ((x, a), s') \<and> left l s' (lstrip r)"
proof -
  obtain r' where "rest l s r'" "lstrip r' = x # r" using assms(1) by (auto simp: left_def)
  from gettoken_sym [OF this assms(2,3)] show ?thesis unfolding left_def by (metis lstrip_lstrip)
qed

lemma left_word:
  assumes "left l s (w @ 32 # r)" "is_word w"
  shows "\<exists>a s'. gettoken l s = Inr ((97, a), s') \<and> word_at l a = w \<and> left l s' (lstrip r)"
proof -
  obtain r' where "rest l s r'" "lstrip r' = w @ 32 # r" using assms(1) by (auto simp: left_def)
  from gettoken_word [OF this assms(2)] show ?thesis
    unfolding left_def by (auto simp: white_symbols lstrip_Cons) (metis lstrip_lstrip)
qed

text \<open>Running a parsing function that first peeks.\<close>

lemma peek_bind:
  assumes "left l s r"
  shows "\<exists>s'. kbind (peek l T) f s = f (starts T r) s' \<and> left l s' r"
  using left_peek [OF assms, of T] by force

definition closes :: "line \<Rightarrow> (cmd \<Rightarrow> (nat, cmd) kop) \<Rightarrow> bool" where
  "closes l K \<longleftrightarrow> (\<forall>c s r. left l s r \<longrightarrow> follow {124, 41, 38, 59} r \<longrightarrow> (\<exists>s'. K c s = Inr (c, s') \<and> left l s' r))"

lemma closes_kret: "closes l kret"
  by (simp add: closes_def)

lemma closes_parseargs: "closes l (parseargs l (Suc n) argc)"
  unfolding closes_def
proof (intro allI impI)
  fix c s r
  assume L: "left l s r" and f: "follow {124, 41, 38, 59} r"
  let ?f = "\<lambda>b. if b then kret c else kbind (gettoken l) (\<lambda>(tok, arg).
     if tok = 0 then kret c else if tok \<noteq> 97 then kfail (Panic ''syntax'')
     else if argc + 1 \<ge> MAXARGS then kfail (Panic ''too many args'')
     else kbind (parseredirs l n (push_arg arg c)) (\<lambda>ret. parseargs l n (argc + 1) ret))"
  obtain s' where s': "parseargs l (Suc n) argc c s = ?f (starts {124, 41, 38, 59} r) s'" "left l s' r"
    using peek_bind [OF L, of "{124, 41, 38, 59}" ?f] unfolding parseargs.simps by blast
  show "\<exists>s'. parseargs l (Suc n) argc c s = Inr (c, s') \<and> left l s' r"
  proof (cases "r = []")
    case True
    then obtain a s'' where "gettoken l s' = Inr ((0, a), s'')" "left l s'' []" using left_end s'(2) by blast
    then show ?thesis using s'(1) True by (simp add: kbind_def)
  next
    case False
    then show ?thesis using s' f by (auto simp: follow_def)
  qed
qed

text \<open>A redirection that is printed is read.\<close>

lemma redir_step:
  assumes "left l s ((if d = 0 then 60 else 62) # f @ 32 # post)" "is_word f" "0 < n"
    "(m, d) \<in> {(O_RDONLY, 0), (O_WRONLY OR O_CREATE, 1)}"
  shows "\<exists>a s'. parseredirs l n c s = parseredirs l (n - 1) (REDIR c a m d) s' \<and> word_at l a = f \<and> left l s' (lstrip post)"
proof -
  define x :: u8 where "x = (if d = 0 then 60 else 62)"
  obtain n' where n: "n = Suc n'" using assms(3) by (cases n) auto
  have x: "x \<in> {60, 62}" "x \<in> symbols" by (auto simp: x_def symbols_def)
  obtain s1 where s1: "peek l {60, 62} s = Inr (True, s1)" "left l s1 (x # f @ 32 # post)"
    using left_peek [OF assms(1), of "{60, 62}"] x by (auto simp: x_def [symmetric])
  have "\<not> starts {62} (f @ 32 # post)"
    using is_word_lstrip(2,3) [OF assms(2)] by (auto simp: plain_def symbols_def)
  then obtain b s2 where s2: "gettoken l s1 = Inr ((x, b), s2)" "left l s2 (f @ 32 # post)"
    using left_sym [OF s1(2) x(2)] is_word_lstrip(1) [OF assms(2)] by auto
  obtain a s3 where s3: "gettoken l s2 = Inr ((97, a), s3)" "word_at l a = f" "left l s3 (lstrip post)"
    using left_word [OF s2(2) assms(2)] by blast
  have "parseredirs l n c s = parseredirs l n' (REDIR c a m d) s3"
    using s1(1) s2(1) s3(1) assms(4) by (auto simp: n x_def parseredirs.simps(2))
  then show ?thesis using s3(2,3) unfolding n diff_Suc_1 by blast
qed

lemma redirs_done:
  assumes "left l s r" "\<not> starts {60, 62} r" "0 < n"
  shows "\<exists>s'. parseredirs l n c s = Inr (c, s') \<and> left l s' r"
proof -
  obtain n' where n: "n = Suc n'" using assms(3) by (cases n) auto
  show ?thesis using left_peek [OF assms(1), of "{60, 62}"] assms(2) unfolding n parseredirs.simps by force
qed

text \<open>The arguments of a simple command, one after the other.\<close>

lemma unparse_words_simps [simp]: "unparse_words [] = []" "unparse_words (w # ws) = w @ 32 # unparse_words ws"
  by (simp_all add: unparse_words_def)

lemma length_unparse_words: "list_all is_word ws \<Longrightarrow> length ws + length (lstrip post) \<le> length (lstrip (unparse_words ws @ post))"
proof (induction ws)
  case (Cons w ws)
  have "length (lstrip (unparse_words ws @ post)) \<le> length (unparse_words ws @ post)"
    unfolding lstrip_def by (rule length_dropWhile_le)
  then show ?case using Cons is_word_lstrip(1) [of w "32 # unparse_words ws @ post"] by simp
qed simp

lemma args_step:
  assumes "list_all is_word ws" "argc + length ws < MAXARGS" "left l s (lstrip (unparse_words ws @ post))"
    "0 < i" "k \<le> i" "k + length ws \<le> j" "length ws < j"
  shows "\<exists>as' s' i' j'. kbind (parseredirs l i (EXEC as)) (parseargs l j argc) s
       = kbind (parseredirs l i' (EXEC (as @ as'))) (parseargs l (Suc j') (argc + length ws)) s'
     \<and> map (word_at l) as' = ws \<and> left l s' (lstrip post) \<and> k \<le> i'"
  using assms
proof (induction ws arbitrary: as argc s i j)
  case Nil
  then obtain j' where "j = Suc j'" by (cases j) auto
  then show ?case
    using Nil by (intro exI [of _ "[]"] exI [of _ s] exI [of _ i] exI [of _ j']) simp
next
  case (Cons w ws)
  then obtain j' where j: "j = Suc j'" "0 < j'" by (cases j) auto
  have w: "is_word w" and L: "left l s (w @ 32 # unparse_words ws @ post)"
    using Cons.prems is_word_lstrip(1) [of w "32 # unparse_words ws @ post"] by simp_all
  have hd: "\<not> starts {60, 62} (w @ 32 # unparse_words ws @ post)" "\<not> starts {124, 41, 38, 59} (w @ 32 # unparse_words ws @ post)"
    using is_word_lstrip(2,3) [OF w] by (auto simp: plain_def symbols_def)
  obtain s1 where s1: "parseredirs l i (EXEC as) s = Inr (EXEC as, s1)" "left l s1 (w @ 32 # unparse_words ws @ post)"
    using redirs_done [OF L hd(1) Cons.prems(4)] by blast
  obtain s2 where s2: "peek l {124, 41, 38, 59} s1 = Inr (False, s2)" "left l s2 (w @ 32 # unparse_words ws @ post)"
    using left_peek [OF s1(2), of "{124, 41, 38, 59}"] hd(2) by auto
  obtain a s3 where s3: "gettoken l s2 = Inr ((97, a), s3)" "word_at l a = w" "left l s3 (lstrip (unparse_words ws @ post))"
    using left_word [OF s2(2) w] by blast
  have step: "kbind (parseredirs l i (EXEC as)) (parseargs l j argc) s
     = kbind (parseredirs l j' (EXEC (as @ [a]))) (parseargs l j' (argc + 1)) s3"
    using s1(1) s2(1) s3(1) Cons.prems(2) by (simp add: j(1) kbind_def parseargs.simps(2))
  have ws: "list_all is_word ws" "argc + 1 + length ws < MAXARGS" "k \<le> j'" "k + length ws \<le> j'" "length ws < j'"
    using Cons.prems j by auto
  obtain as' s' i' j'' where "kbind (parseredirs l j' (EXEC (as @ [a]))) (parseargs l j' (argc + 1)) s3
       = kbind (parseredirs l i' (EXEC ((as @ [a]) @ as'))) (parseargs l (Suc j'') (argc + 1 + length ws)) s'"
     "map (word_at l) as' = ws" "left l s' (lstrip post)" "k \<le> i'"
    using Cons.IH [OF ws(1,2) s3(3) j(2) ws(3-5), of "as @ [a]"] by blast
  then show ?case
    unfolding step using s3(2) by (intro exI [of _ "a # as'"] exI [of _ s'] exI [of _ i'] exI [of _ j'']) simp
qed

section \<open>Reading back\<close>

text \<open>What each parsing function does with a printed command.\<close>

definition exec_ok :: "line \<Rightarrow> scmd \<Rightarrow> bool" where
  "exec_ok l t \<longleftrightarrow> (\<forall>n s post. left l s (lstrip (unparse t 3 @ post)) \<longrightarrow> 4 * length (lstrip (unparse t 3 @ post)) + 2 \<le> n \<longrightarrow>
     follow {124, 41, 38, 59, 60, 62} (lstrip post) \<longrightarrow>
     (\<exists>c s' j K. parseexec l n s = kbind (parseredirs l j c) K s' \<and> text_cmd (word_at l) c = t \<and> left l s' (lstrip post)
        \<and> length (lstrip post) < j \<and> closes l K))"

definition pipe_ok :: "line \<Rightarrow> scmd \<Rightarrow> bool" where
  "pipe_ok l t \<longleftrightarrow> (\<forall>n s post. left l s (lstrip (unparse t 2 @ post)) \<longrightarrow> 4 * length (lstrip (unparse t 2 @ post)) + 3 \<le> n \<longrightarrow>
     follow {41, 38, 59} (lstrip post) \<longrightarrow>
     (\<exists>c s'. parsepipe l n s = Inr (c, s') \<and> text_cmd (word_at l) c = t \<and> left l s' (lstrip post)))"

definition back_ok :: "line \<Rightarrow> scmd \<Rightarrow> bool" where
  "back_ok l t \<longleftrightarrow> (\<forall>n s post. left l s (lstrip (unparse t 1 @ post)) \<longrightarrow> 4 * length (lstrip (unparse t 1 @ post)) + 3 \<le> n \<longrightarrow>
     follow {41, 38, 59} (lstrip post) \<longrightarrow>
     (\<exists>c s' j. kbind (parsepipe l n) (parsebacks l n) s = parsebacks l j c s' \<and> text_cmd (word_at l) c = t
        \<and> left l s' (lstrip post) \<and> length (lstrip post) < j))"

definition line_ok :: "line \<Rightarrow> scmd \<Rightarrow> bool" where
  "line_ok l t \<longleftrightarrow> (\<forall>n s post. left l s (lstrip (unparse t 0 @ post)) \<longrightarrow> 4 * length (lstrip (unparse t 0 @ post)) + 4 \<le> n \<longrightarrow>
     follow {41} (lstrip post) \<longrightarrow>
     (\<exists>c s'. parseline l n s = Inr (c, s') \<and> text_cmd (word_at l) c = t \<and> left l s' (lstrip post)))"

lemma exec_okD:
  assumes "exec_ok l t" "left l s (lstrip (unparse t 3 @ post))" "4 * length (lstrip (unparse t 3 @ post)) + 2 \<le> n"
    "follow {124, 41, 38, 59} (lstrip post)"
  shows "\<exists>c s'. parseexec l n s = Inr (c, s') \<and> text_cmd (word_at l) c = t \<and> left l s' (lstrip post)"
proof -
  obtain c s1 j K where e: "parseexec l n s = kbind (parseredirs l j c) K s1" "text_cmd (word_at l) c = t"
     "left l s1 (lstrip post)" "length (lstrip post) < j" "closes l K"
    using assms(1) [unfolded exec_ok_def, rule_format, OF assms(2,3)] assms(4)
    by (auto simp: follow_def starts_def split: list.splits)
  have "\<not> starts {60, 62} (lstrip post)"
    using assms(4) by (cases "lstrip post") (auto simp: follow_def)
  then obtain s2 where s2: "parseredirs l j c s1 = Inr (c, s2)" "left l s2 (lstrip post)"
    using redirs_done [OF e(3), of j c] e(4) by auto
  moreover obtain s3 where "K c s2 = Inr (c, s3)" "left l s3 (lstrip post)"
    using e(5) s2(2) assms(4) unfolding closes_def by blast
  ultimately show ?thesis using e(1,2) by auto
qed

lemma pipe_from_exec:
  assumes "exec_ok l t" "unparse t 2 = unparse t 3"
  shows "pipe_ok l t"
  unfolding pipe_ok_def assms(2)
proof (intro allI impI)
  fix n s post
  assume a: "left l s (lstrip (unparse t 3 @ post))" "4 * length (lstrip (unparse t 3 @ post)) + 3 \<le> n" "follow {41, 38, 59} (lstrip post)"
  then obtain n' where n: "n = Suc n'" by (cases n) auto
  obtain c s1 where e: "parseexec l n' s = Inr (c, s1)" "text_cmd (word_at l) c = t" "left l s1 (lstrip post)"
    using exec_okD [OF assms(1) a(1), of n'] a(2,3) n by (auto simp: follow_def starts_def split: list.splits)
  moreover obtain s2 where "peek l {124} s1 = Inr (False, s2)" "left l s2 (lstrip post)"
    using left_peek [OF e(3), of "{124}"] a(3) by (auto simp: follow_def starts_def split: list.splits)
  ultimately show "\<exists>c s'. parsepipe l n s = Inr (c, s') \<and> text_cmd (word_at l) c = t \<and> left l s' (lstrip post)"
    by (simp add: n parsepipe.simps(2) kbind_def)
qed

lemma back_from_pipe:
  assumes "pipe_ok l t" "unparse t 1 = unparse t 2"
  shows "back_ok l t"
  unfolding back_ok_def assms(2)
proof (intro allI impI)
  fix n s post
  assume a: "left l s (lstrip (unparse t 2 @ post))" "4 * length (lstrip (unparse t 2 @ post)) + 3 \<le> n" "follow {41, 38, 59} (lstrip post)"
  then obtain c s1 where "parsepipe l n s = Inr (c, s1)" "text_cmd (word_at l) c = t" "left l s1 (lstrip post)"
    using assms(1) unfolding pipe_ok_def by blast
  moreover have "length (lstrip post) < n"
    using a(2) length_lstrip_append [of post "unparse t 2"] by simp
  ultimately show "\<exists>c s' j. kbind (parsepipe l n) (parsebacks l n) s = parsebacks l j c s' \<and> text_cmd (word_at l) c = t
     \<and> left l s' (lstrip post) \<and> length (lstrip post) < j"
    by (intro exI [of _ c] exI [of _ s1] exI [of _ n]) simp
qed

lemma backs_done:
  assumes "left l s r" "\<not> starts {38} r" "0 < n"
  shows "\<exists>s'. parsebacks l n c s = Inr (c, s') \<and> left l s' r"
proof -
  obtain n' where n: "n = Suc n'" using assms(3) by (cases n) auto
  show ?thesis using left_peek [OF assms(1), of "{38}"] assms(2) unfolding n parsebacks.simps by force
qed

lemma kbind_via: "kbind m f s = h t \<Longrightarrow> kbind m (\<lambda>x. kbind (f x) g) s = kbind h g t"
  by (auto simp: kbind_def split: sum.splits)

lemma line_from_back:
  assumes "back_ok l t" "unparse t 0 = unparse t 1"
  shows "line_ok l t"
  unfolding line_ok_def assms(2)
proof (intro allI impI)
  fix n s post
  assume a: "left l s (lstrip (unparse t 1 @ post))" "4 * length (lstrip (unparse t 1 @ post)) + 4 \<le> n" "follow {41} (lstrip post)"
  then obtain n' where n: "n = Suc n'" by (cases n) auto
  have f: "follow {41, 38, 59} (lstrip post)" "\<not> starts {38} (lstrip post)" "\<not> starts {59} (lstrip post)"
    using a(3) by (auto simp: follow_def starts_def split: list.splits)
  have n3: "4 * length (lstrip (unparse t 1 @ post)) + 3 \<le> n'" using a(2) n by simp
  from assms(1) [unfolded back_ok_def, rule_format, OF a(1) n3 f(1)]
  obtain c s1 j where b: "kbind (parsepipe l n') (parsebacks l n') s = parsebacks l j c s1" "text_cmd (word_at l) c = t"
     "left l s1 (lstrip post)" "length (lstrip post) < j"
    by blast
  obtain s2 where s2: "parsebacks l j c s1 = Inr (c, s2)" "left l s2 (lstrip post)"
    using backs_done [OF b(3) f(2), of j c] b(4) by auto
  obtain s3 where s3: "peek l {59} s2 = Inr (False, s3)" "left l s3 (lstrip post)"
    using left_peek [OF s2(2), of "{59}"] f(3) by auto
  have "parseline l n s = Inr (c, s3)"
    unfolding n parseline.simps kbind_via [of "parsepipe l n'" "parsebacks l n'" s "parsebacks l j c" s1, OF b(1)] using s2(1) s3(1) by (simp add: kbind_def)
  then show "\<exists>c s'. parseline l n s = Inr (c, s') \<and> text_cmd (word_at l) c = t \<and> left l s' (lstrip post)"
    using b(2) s3(2) by blast
qed

lemma exec_from_line:
  assumes "line_ok l t" "unparse t 3 = 40 # unparse t 0 @ [41]"
  shows "exec_ok l t"
  unfolding exec_ok_def assms(2)
proof (intro allI impI)
  fix n s post
  let ?r = "40 # unparse t 0 @ 41 # post"
  assume "left l s (lstrip ((40 # unparse t 0 @ [41]) @ post))" "4 * length (lstrip ((40 # unparse t 0 @ [41]) @ post)) + 2 \<le> n"
  then have L: "left l s ?r" and n: "4 * length ?r + 2 \<le> n" by (simp_all add: lstrip_Cons whitespace_def)
  then obtain n' where n': "n = Suc (Suc n')" by (cases n; cases "n - 1") auto
  have sym: "40 \<in> symbols" "41 \<in> symbols" by (simp_all add: symbols_def)
  obtain s1 where s1: "peek l {40} s = Inr (True, s1)" "left l s1 ?r"
    using left_peek [OF L, of "{40}"] by auto
  obtain s2 where s2: "peek l {40} s1 = Inr (True, s2)" "left l s2 ?r"
    using left_peek [OF s1(2), of "{40}"] by auto
  obtain a s3 where s3: "gettoken l s2 = Inr ((40, a), s3)" "left l s3 (lstrip (unparse t 0 @ 41 # post))"
    using left_sym [OF s2(2) sym(1)] by auto
  have f: "lstrip (41 # post) = 41 # post" "follow {41} (lstrip (41 # post))"
    by (simp_all add: lstrip_Cons whitespace_def follow_def)
  have "length (lstrip (unparse t 0 @ 41 # post)) \<le> length (unparse t 0 @ 41 # post)"
    unfolding lstrip_def by (rule length_dropWhile_le)
  then have "4 * length (lstrip (unparse t 0 @ 41 # post)) + 4 \<le> n'" using n n' by simp
  from assms(1) [unfolded line_ok_def, rule_format, OF s3(2) this f(2)]
  obtain c s4 where s4: "parseline l n' s3 = Inr (c, s4)" "text_cmd (word_at l) c = t" "left l s4 (41 # post)"
    using f(1) by auto
  obtain s5 where s5: "peek l {41} s4 = Inr (True, s5)" "left l s5 (41 # post)"
    using left_peek [OF s4(3), of "{41}"] by auto
  obtain b s6 where s6: "gettoken l s5 = Inr ((41, b), s6)" "left l s6 (lstrip post)"
    using left_sym [OF s5(2) sym(2)] by auto
  have e: "parseexec l n s = kbind (parseredirs l n' c) kret s6"
    unfolding n' using s1(1) s2(1) s3(1) s4(1) s5(1) s6(1)
    by (simp add: parseexec.simps(2) parseblock.simps(2) kbind_def kret_def split: sum.splits)
  have "length (lstrip post) \<le> length post"
    unfolding lstrip_def by (rule length_dropWhile_le)
  then have "length (lstrip post) < n'" using n n' by simp
  then show "\<exists>c s' j K. parseexec l n s = kbind (parseredirs l j c) K s' \<and> text_cmd (word_at l) c = t
     \<and> left l s' (lstrip post) \<and> length (lstrip post) < j \<and> closes l K"
    using e s4(2) s6(2) closes_kret by blast
qed

lemma exec_words:
  assumes "list_all is_word ws" "length ws < MAXARGS"
  shows "exec_ok l (SExec ws)"
  unfolding exec_ok_def unparse.simps
proof (intro allI impI)
  fix n s post
  let ?r = "lstrip (unparse_words ws @ post)"
  assume L: "left l s ?r" and n: "4 * length ?r + 2 \<le> n" and f: "follow {124, 41, 38, 59, 60, 62} (lstrip post)"
  obtain n' where n': "n = Suc n'" using n by (cases n) auto
  have len: "length ws + length (lstrip post) \<le> length ?r" using length_unparse_words [OF assms(1)] .
  have "\<not> starts {40} ?r"
    using f assms(1) is_word_lstrip [of "hd ws"]
    by (cases ws) (auto simp: follow_def plain_def symbols_def starts_def split: list.splits)
  then obtain s1 where s1: "peek l {40} s = Inr (False, s1)" "left l s1 ?r"
    using left_peek [OF L, of "{40}"] by auto
  have "0 + length ws < MAXARGS" "0 < n'" "length (lstrip post) + 1 \<le> n'" "length (lstrip post) + 1 + length ws \<le> n'" "length ws < n'"
    using assms(2) n n' len by simp_all
  from args_step [OF assms(1) this(1) s1(2) this(2-5), of "[]"]
  obtain as' s' i' j' where a: "kbind (parseredirs l n' (EXEC [])) (parseargs l n' 0) s1
       = kbind (parseredirs l i' (EXEC as')) (parseargs l (Suc j') (length ws)) s'"
     "map (word_at l) as' = ws" "left l s' (lstrip post)" "length (lstrip post) + 1 \<le> i'"
    by auto
  have "parseexec l n s = kbind (parseredirs l i' (EXEC as')) (parseargs l (Suc j') (length ws)) s'"
    unfolding n' parseexec.simps using s1(1) a(1) by (simp add: kbind_def)
  then show "\<exists>c s' j K. parseexec l n s = kbind (parseredirs l j c) K s' \<and> text_cmd (word_at l) c = SExec ws
     \<and> left l s' (lstrip post) \<and> length (lstrip post) < j \<and> closes l K"
    using a(2-4) closes_parseargs
    by (intro exI [of _ "EXEC as'"] exI [of _ s'] exI [of _ i'] exI [of _ "parseargs l (Suc j') (length ws)"]) simp
qed

lemma exec_redir:
  assumes "exec_ok l c" "is_word f" "(m, d) \<in> {(O_RDONLY, 0), (O_WRONLY OR O_CREATE, 1)}"
  shows "exec_ok l (SRedir c f m d)"
  unfolding exec_ok_def unparse.simps
proof (intro allI impI)
  fix n s post
  let ?p = "(if d = 0 then 60 else 62) # f @ 32 # post"
  assume "left l s (lstrip ((unparse c 3 @ (if d = 0 then 60 else 62) # f @ [32]) @ post))"
    "4 * length (lstrip ((unparse c 3 @ (if d = 0 then 60 else 62) # f @ [32]) @ post)) + 2 \<le> n"
  then have L: "left l s (lstrip (unparse c 3 @ ?p))" "4 * length (lstrip (unparse c 3 @ ?p)) + 2 \<le> n" by simp_all
  have p: "lstrip ?p = ?p" by (simp add: lstrip_Cons whitespace_def)
  have "follow {124, 41, 38, 59, 60, 62} (lstrip ?p)" unfolding p by (simp add: follow_def)
  from assms(1) [unfolded exec_ok_def, rule_format, OF L this]
  obtain e s1 j K where e: "parseexec l n s = kbind (parseredirs l j e) K s1" "text_cmd (word_at l) e = c"
     "left l s1 ?p" "length ?p < j" "closes l K"
    unfolding p by blast
  obtain a s2 where s2: "parseredirs l j e s1 = parseredirs l (j - 1) (REDIR e a m d) s2" "word_at l a = f" "left l s2 (lstrip post)"
    using redir_step [OF e(3) assms(2) _ assms(3), of j e] e(4) by auto
  have "length (lstrip post) \<le> length post"
    unfolding lstrip_def by (rule length_dropWhile_le)
  then have "length (lstrip post) < j - 1" using e(4) by simp
  moreover have "parseexec l n s = kbind (parseredirs l (j - 1) (REDIR e a m d)) K s2"
    unfolding e(1) kbind_def s2(1) ..
  ultimately show "\<exists>e s' j K. parseexec l n s = kbind (parseredirs l j e) K s' \<and> text_cmd (word_at l) e = SRedir c f m d
     \<and> left l s' (lstrip post) \<and> length (lstrip post) < j \<and> closes l K"
    using e(2,5) s2(2,3)
    by (intro exI [of _ "REDIR e a m d"] exI [of _ s2] exI [of _ "j - 1"] exI [of _ K]) simp
qed

lemma length_lstrip: "length (lstrip r) \<le> length r"
  unfolding lstrip_def by (rule length_dropWhile_le)

lemma length_lstrip_sym: "length (lstrip r) < length (lstrip (xs @ x # r))" if "x \<in> symbols"
  using length_lstrip_append [of "x # r" xs] length_lstrip [of r] that white_symbols(1) [OF that]
  by (simp add: lstrip_Cons)

lemma pipe_pipe:
  assumes "exec_ok l c" "pipe_ok l d"
  shows "pipe_ok l (SPipe c d)"
  unfolding pipe_ok_def
proof (intro allI impI)
  fix n s post
  let ?p = "124 # unparse d 2 @ post"
  assume "left l s (lstrip (unparse (SPipe c d) 2 @ post))" "4 * length (lstrip (unparse (SPipe c d) 2 @ post)) + 3 \<le> n"
    and f: "follow {41, 38, 59} (lstrip post)"
  then have L: "left l s (lstrip (unparse c 3 @ ?p))" "4 * length (lstrip (unparse c 3 @ ?p)) + 3 \<le> n" by (simp_all add: paren_def)
  then obtain n' where n: "n = Suc n'" by (cases n) auto
  have p: "lstrip ?p = ?p" "124 \<in> symbols" by (simp_all add: lstrip_Cons whitespace_def symbols_def)
  have "follow {124, 41, 38, 59} (lstrip ?p)" unfolding p by (simp add: follow_def)
  then obtain e s1 where e: "parseexec l n' s = Inr (e, s1)" "text_cmd (word_at l) e = c" "left l s1 ?p"
    using exec_okD [OF assms(1) L(1), of n'] L(2) n p(1) by auto
  obtain s2 where s2: "peek l {124} s1 = Inr (True, s2)" "left l s2 ?p"
    using left_peek [OF e(3), of "{124}"] by auto
  obtain a s3 where s3: "gettoken l s2 = Inr ((124, a), s3)" "left l s3 (lstrip (unparse d 2 @ post))"
    using left_sym [OF s2(2) p(2)] by auto
  have "4 * length (lstrip (unparse d 2 @ post)) + 3 \<le> n'"
    using L(2) n length_lstrip_sym [OF p(2), of "unparse d 2 @ post" "unparse c 3"] by simp
  from assms(2) [unfolded pipe_ok_def, rule_format, OF s3(2) this f]
  obtain r s4 where s4: "parsepipe l n' s3 = Inr (r, s4)" "text_cmd (word_at l) r = d" "left l s4 (lstrip post)" by blast
  have "parsepipe l n s = Inr (PIPE e r, s4)"
    unfolding n parsepipe.simps using e(1) s2(1) s3(1) s4(1) by (simp add: kbind_def kret_def)
  then show "\<exists>e s'. parsepipe l n s = Inr (e, s') \<and> text_cmd (word_at l) e = SPipe c d \<and> left l s' (lstrip post)"
    using e(2) s4(2,3) by auto
qed

lemma back_back:
  assumes "back_ok l c"
  shows "back_ok l (SBack c)"
  unfolding back_ok_def
proof (intro allI impI)
  fix n s post
  let ?p = "(38 :: u8) # post"
  assume "left l s (lstrip (unparse (SBack c) 1 @ post))" "4 * length (lstrip (unparse (SBack c) 1 @ post)) + 3 \<le> n"
    and f: "follow {41, 38, 59} (lstrip post)"
  then have L: "left l s (lstrip (unparse c 1 @ ?p))" "4 * length (lstrip (unparse c 1 @ ?p)) + 3 \<le> n" by (simp_all add: paren_def)
  have p: "lstrip ?p = ?p" "38 \<in> symbols" by (simp_all add: lstrip_Cons whitespace_def symbols_def)
  have "follow {41, 38, 59} (lstrip ?p)" unfolding p by (simp add: follow_def)
  from assms [unfolded back_ok_def, rule_format, OF L this]
  obtain e s1 j where e: "kbind (parsepipe l n) (parsebacks l n) s = parsebacks l j e s1" "text_cmd (word_at l) e = c"
     "left l s1 ?p" "length ?p < j"
    unfolding p by blast
  obtain j' where j: "j = Suc j'" using e(4) by (cases j) auto
  obtain s2 where s2: "peek l {38} s1 = Inr (True, s2)" "left l s2 ?p"
    using left_peek [OF e(3), of "{38}"] by auto
  obtain a s3 where s3: "gettoken l s2 = Inr ((38, a), s3)" "left l s3 (lstrip post)"
    using left_sym [OF s2(2) p(2)] by auto
  have "parsebacks l j e s1 = parsebacks l j' (BACK e) s3"
    unfolding j parsebacks.simps using s2(1) s3(1) by (simp add: kbind_def)
  moreover have "length (lstrip post) < j'" using e(4) length_lstrip [of post] j by simp
  ultimately show "\<exists>e s' j. kbind (parsepipe l n) (parsebacks l n) s = parsebacks l j e s' \<and> text_cmd (word_at l) e = SBack c
     \<and> left l s' (lstrip post) \<and> length (lstrip post) < j"
    using e(1,2) s3(2) by (intro exI [of _ "BACK e"] exI [of _ s3] exI [of _ j']) simp
qed

lemma line_list:
  assumes "back_ok l c" "line_ok l d"
  shows "line_ok l (SList c d)"
  unfolding line_ok_def
proof (intro allI impI)
  fix n s post
  let ?p = "59 # unparse d 0 @ post"
  assume "left l s (lstrip (unparse (SList c d) 0 @ post))" "4 * length (lstrip (unparse (SList c d) 0 @ post)) + 4 \<le> n"
    and f: "follow {41} (lstrip post)"
  then have L: "left l s (lstrip (unparse c 1 @ ?p))" "4 * length (lstrip (unparse c 1 @ ?p)) + 4 \<le> n" by (simp_all add: paren_def)
  then obtain n' where n: "n = Suc n'" by (cases n) auto
  have p: "lstrip ?p = ?p" "59 \<in> symbols" by (simp_all add: lstrip_Cons whitespace_def symbols_def)
  have "4 * length (lstrip (unparse c 1 @ ?p)) + 3 \<le> n'" "follow {41, 38, 59} (lstrip ?p)"
    unfolding p(1) using L(2) n by (simp_all add: follow_def)
  from assms(1) [unfolded back_ok_def, rule_format, OF L(1) this]
  obtain e s1 j where e: "kbind (parsepipe l n') (parsebacks l n') s = parsebacks l j e s1" "text_cmd (word_at l) e = c"
     "left l s1 ?p" "length ?p < j"
    unfolding p by blast
  obtain s2 where s2: "parsebacks l j e s1 = Inr (e, s2)" "left l s2 ?p"
    using backs_done [OF e(3), of j e] e(4) by auto
  obtain s3 where s3: "peek l {59} s2 = Inr (True, s3)" "left l s3 ?p"
    using left_peek [OF s2(2), of "{59}"] by auto
  obtain a s4 where s4: "gettoken l s3 = Inr ((59, a), s4)" "left l s4 (lstrip (unparse d 0 @ post))"
    using left_sym [OF s3(2) p(2)] by auto
  have "4 * length (lstrip (unparse d 0 @ post)) + 4 \<le> n'"
    using L(2) n length_lstrip_sym [OF p(2), of "unparse d 0 @ post" "unparse c 1"] by simp
  from assms(2) [unfolded line_ok_def, rule_format, OF s4(2) this f]
  obtain r s5 where s5: "parseline l n' s4 = Inr (r, s5)" "text_cmd (word_at l) r = d" "left l s5 (lstrip post)" by blast
  have "parseline l n s = Inr (LIST e r, s5)"
    unfolding n parseline.simps kbind_via [of "parsepipe l n'" "parsebacks l n'" s "parsebacks l j e" s1, OF e(1)]
    using s2(1) s3(1) s4(1) s5(1) by (simp add: kbind_def kret_def)
  then show "\<exists>e s'. parseline l n s = Inr (e, s') \<and> text_cmd (word_at l) e = SList c d \<and> left l s' (lstrip post)"
    using e(2) s5(2,3) by auto
qed

lemma reads_back: "scmd_ok t \<Longrightarrow> exec_ok l t \<and> pipe_ok l t \<and> back_ok l t \<and> line_ok l t"
proof (induction t)
  case (SExec ws)
  then have e: "exec_ok l (SExec ws)" by (simp add: exec_words)
  then have p: "pipe_ok l (SExec ws)" by (rule pipe_from_exec) simp
  then have b: "back_ok l (SExec ws)" by (rule back_from_pipe) simp
  then have "line_ok l (SExec ws)" by (rule line_from_back) simp
  with e p b show ?case by blast
next
  case (SRedir c f m d)
  then have e: "exec_ok l (SRedir c f m d)" by (intro exec_redir) simp_all
  then have p: "pipe_ok l (SRedir c f m d)" by (rule pipe_from_exec) simp
  then have b: "back_ok l (SRedir c f m d)" by (rule back_from_pipe) simp
  then have "line_ok l (SRedir c f m d)" by (rule line_from_back) simp
  with e p b show ?case by blast
next
  case (SPipe c d)
  then have p: "pipe_ok l (SPipe c d)" by (intro pipe_pipe) simp_all
  then have b: "back_ok l (SPipe c d)" by (rule back_from_pipe) (simp add: paren_def)
  then have n: "line_ok l (SPipe c d)" by (rule line_from_back) (simp add: paren_def)
  then have "exec_ok l (SPipe c d)" by (rule exec_from_line) (simp add: paren_def)
  with p b n show ?case by blast
next
  case (SList c d)
  then have n: "line_ok l (SList c d)" by (intro line_list) simp_all
  then have e: "exec_ok l (SList c d)" by (rule exec_from_line) (simp add: paren_def)
  then have p: "pipe_ok l (SList c d)" by (rule pipe_from_exec) (simp add: paren_def)
  then have "back_ok l (SList c d)" by (rule back_from_pipe) (simp add: paren_def)
  with n e p show ?case by blast
next
  case (SBack c)
  then have b: "back_ok l (SBack c)" by (intro back_back) simp_all
  then have n: "line_ok l (SBack c)" by (rule line_from_back) (simp add: paren_def)
  then have e: "exec_ok l (SBack c)" by (rule exec_from_line) (simp add: paren_def)
  then have "pipe_ok l (SBack c)" by (rule pipe_from_exec) (simp add: paren_def)
  with b n e show ?case by blast
qed

lemma parsecmd_words:
  assumes "0 \<in> set s"
  shows "(\<exists>msg. parsecmd s = Inl (Panic msg))
     \<or> (\<exists>c buf. parsecmd s = Inr (c, buf) \<and> max_args c < MAXARGS \<and> redirs_ok c
          \<and> list_all (\<lambda>(q, e). q < e \<and> cstring buf q = word_at s (q, e) \<and> list_all plain (word_at s (q, e))) (spans c))"
proof -
  define l where "l = takeWhile (\<lambda>c. c \<noteq> 0) s"
  have "yields l (\<lambda>c _. cmd_ok l c) (kbind (parseline l (4 * length l + 4)) (\<lambda>cmd. kbind (peek l {}) (\<lambda>_.
     kbind (kget (\<lambda>p. p)) (\<lambda>p. if p \<noteq> length l then kfail (Panic ''syntax'') else kret cmd)))) 0" (is "yields l _ ?m 0")
  proof (rule yields_kbind)
    show "yields l (\<lambda>c _. cmd_ok l c) (parseline l (4 * length l + 4)) 0"
      using yields_parse [of l "4 * length l + 4"] by simp
    show "yields l (\<lambda>c _. cmd_ok l c) (kbind (peek l {}) (\<lambda>_.
       kbind (kget (\<lambda>p. p)) (\<lambda>p. if p \<noteq> length l then kfail (Panic ''syntax'') else kret c))) t"
      if "t \<le> length l" "cmd_ok l c" for c t
      using that by (intro yields_peekI) (auto simp: yields_def kbind_def)
  qed
  then consider msg where "?m 0 = Inl (Panic msg)" | c t where "?m 0 = Inr (c, t)" "cmd_ok l c"
    by (auto simp: yields_def split: sum.splits)
  then show ?thesis
  proof cases
    case 1
    then show ?thesis using assms by (simp add: parsecmd_def l_def [symmetric])
  next
    case 2
    then have p: "parsecmd s = Inr (c, nulterminate c s)"
      using assms by (simp add: parsecmd_def l_def [symmetric])
    have "list_all (span_ok l) (spans c)" "max_args c < MAXARGS" "redirs_ok c"
      using 2(2) by (simp_all add: cmd_ok_def)
    with p nulterminate_word [OF assms l_def this(1)] show ?thesis
      by (auto simp: list_all_iff)
  qed
qed

section \<open>Properties\<close>

text \<open>
  C11. The shell parses every line. For a buffer with a zero, \<open>parsecmd\<close> either reports a
  syntax error or returns a command; it never runs for ever, whatever the nesting of
  parentheses, pipes and lists. In the command no \<open>argv\<close> is written past its last slot,
  which holds the null pointer, every redirection
  is of descriptor 0 or 1, and every argument and every file name, read as a C string from the
  buffer after \<open>nulterminate\<close>, is exactly the nonempty word of the line it was parsed from.
\<close>

theorem shell_parse_terminates:
  assumes "0 \<in> set s"
  shows "(\<exists>msg. parsecmd s = Inl (Panic msg))
     \<or> (\<exists>c buf. parsecmd s = Inr (c, buf) \<and> max_args c < MAXARGS \<and> redirs_ok c
          \<and> list_all (\<lambda>(q, e). q < e \<and> cstring buf q = word_at s (q, e) \<and> list_all plain (word_at s (q, e))) (spans c))"
  using assms by (rule parsecmd_words)

theorem shell_parse_terminates_witness:
  "\<exists>c buf. parsecmd [108, 115, 62, 97, 32, 120, 10, 0] = Inr (c, buf) \<and> length (spans c) = 3 \<and> max_args c < MAXARGS
     \<and> list_all (\<lambda>(q, e). cstring buf q = word_at [108, 115, 62, 97, 32, 120, 10, 0] (q, e)) (spans c)"
proof -
  let ?s = "[108, 115, 62, 97, 32, 120, 10, 0] :: u8 list"
  have p: "parsecmd ?s = Inr (REDIR (EXEC [(0, 2), (5, 6)]) (3, 4) 513 1, [108, 115, 0, 97, 0, 120, 0, 0])"
    by code_simp
  show ?thesis
    using shell_parse_terminates [of ?s] p by (auto simp: list_all_iff)
qed

lemma text_cmd_cong: "(\<And>a. a \<in> set (spans c) \<Longrightarrow> v a = w a) \<Longrightarrow> text_cmd v c = text_cmd w c"
  by (induction c) auto

lemma word_at_append: "span_ok l a \<Longrightarrow> word_at (l @ r) a = word_at l a"
  by (cases a) (simp add: word_at_def span_ok.simps)

lemma printed_bytes: "scmd_ok t \<Longrightarrow> 0 \<notin> set (unparse t k)"
  by (induction t arbitrary: k) (auto simp: paren_def unparse_words_def is_word_def list_all_iff)

text \<open>
  C14. The shell reads what is printed. Take any command, of any nesting, whose words are
  nonempty and hold no blank and no symbol, with at most nine arguments each, and print it with the
  parentheses the grammar needs: \<open>parsecmd\<close> accepts the line and the strings it leaves
  in the buffer are the same command.
\<close>

theorem shell_roundtrip:
  assumes "scmd_ok t"
  shows "\<exists>c buf. parsecmd (unparse t 0 @ [10, 0]) = Inr (c, buf) \<and> text_cmd (\<lambda>(q, e). cstring buf q) c = t"
proof -
  let ?s = "unparse t 0 @ [10, 0]" and ?l = "unparse t 0 @ [10]"
  have nz: "0 \<notin> set (unparse t 0)" using printed_bytes [OF assms] .
  then have l: "?l = takeWhile (\<lambda>c. c \<noteq> 0) ?s" by (subst takeWhile_append2) auto
  have "left ?l 0 (lstrip ?l)"
    unfolding left_def rest_def using nz by auto
  moreover have "4 * length (lstrip ?l) + 4 \<le> 4 * length ?l + 4" using length_lstrip [of ?l] by simp
  moreover have "follow {41} (lstrip [10])" by (simp add: follow_def lstrip_def whitespace_def)
  ultimately obtain c s' where c: "parseline ?l (4 * length ?l + 4) 0 = Inr (c, s')" "text_cmd (word_at ?l) c = t" "left ?l s' (lstrip [10])"
    using reads_back [OF assms, of ?l] unfolding line_ok_def by blast
  obtain r where r: "rest ?l s' r" "lstrip r = []"
    using c(3) by (auto simp: left_def lstrip_def whitespace_def)
  have "peek ?l {} s' = Inr (False, length ?l)"
    using peek_rest [OF r(1)] r(2) by (auto simp: rest_def)
  then have p: "parsecmd ?s = Inr (c, nulterminate c ?s)"
    unfolding parsecmd_def Let_def l [symmetric] using c(1) by (simp add: kbind_def kget_def kret_def)
  then have W: "list_all (\<lambda>(q, e). cstring (nulterminate c ?s) q = word_at ?s (q, e)) (spans c)"
    using parsecmd_words [of ?s] by (auto simp: list_all_iff)
  have "list_all (span_ok ?l) (spans c)"
    using yields_parse [of ?l "4 * length ?l + 4"] c(1) by (auto simp: yields_def cmd_ok_def)
  then have "word_at (?l @ [0]) a = word_at ?l a" if "a \<in> set (spans c)" for a
    using that by (intro word_at_append) (simp add: list_all_iff)
  then have "text_cmd (\<lambda>(q, e). cstring (nulterminate c ?s) q) c = text_cmd (word_at ?l) c"
    using W by (intro text_cmd_cong) (auto simp: list_all_iff)
  with p c(2) show ?thesis by auto
qed

theorem shell_roundtrip_witness:
  "\<exists>c buf. parsecmd [40, 97, 32, 60, 102, 32, 59, 98, 32, 41, 124, 99, 32, 38, 10, 0] = Inr (c, buf)
     \<and> text_cmd (\<lambda>(q, e). cstring buf q) c
         = SBack (SPipe (SList (SRedir (SExec [[97]]) [102] O_RDONLY 0) (SExec [[98]])) (SExec [[99]]))"
proof -
  let ?t = "SBack (SPipe (SList (SRedir (SExec [[97]]) [102] O_RDONLY 0) (SExec [[98]])) (SExec [[99]]))"
  have "scmd_ok ?t"
    by (simp add: is_word_def plain_def whitespace_def symbols_def MAXARGS_def)
  moreover have "unparse ?t 0 @ [10, 0] = [40, 97, 32, 60, 102, 32, 59, 98, 32, 41, 124, 99, 32, 38, 10, 0]"
    by (simp add: paren_def unparse_words_def)
  ultimately show ?thesis
    using shell_roundtrip [of ?t] by simp
qed

end
