(* ===== verification/Shell_Run.thy ===== *)
theory Shell_Run
  imports Shell
begin

text \<open>
  The shell as a program, \<open>runcmd\<close> and \<open>main\<close> of \<open>user/sh.c\<close>. A user program is the tree of
  the system calls it makes, each with the rest of the program for every result the call
  can have; \<open>fork\<close> continues with 0 in the child and with the child's number in the
  parent. The theorem runs the tree on tables of open files with the kernel's rule
  that a new descriptor is the lowest free one, and finds every program of a command
  started with the standard input and output the command asks for.
\<close>

section \<open>Programs as trees of system calls\<close>

datatype prog =
    Exit
  | Exec "u8 list" "u8 list list" prog
  | Close nat prog
  | Open "u8 list" u32 "int \<Rightarrow> prog"
  | Dup nat prog
  | Pipe "(nat \<times> nat) option \<Rightarrow> prog"
  | Fork "int \<Rightarrow> prog"
  | Wait prog
  | Chdir "u8 list" "int \<Rightarrow> prog"
  | Print "u8 list" prog

definition text_of :: "string \<Rightarrow> u8 list" where
  "text_of cs = map (of_nat \<circ> of_char) cs"

section \<open>The shell\<close>

definition panic :: "string \<Rightarrow> prog" where
  "panic s = Print (text_of s @ [10]) Exit"

definition fork1 :: "(int \<Rightarrow> prog) \<Rightarrow> prog" where
  "fork1 k = Fork (\<lambda>pid. if pid = -1 then panic ''fork'' else k pid)"

text \<open>\<open>buf\<close> is the line after \<open>nulterminate\<close>; \<open>runcmd\<close> never returns, so nothing follows it.\<close>

primrec runcmd :: "u8 list \<Rightarrow> cmd \<Rightarrow> prog" where
  "runcmd buf (EXEC as) =
     (if as = [] then Exit
      else
      let argv = map (\<lambda>(q, e). cstring buf q) as in
      Exec (hd argv) argv (Print (text_of ''exec '' @ hd argv @ text_of '' failed'' @ [10]) Exit))"
| "runcmd buf (REDIR c f m d) =
     Close d (Open (cstring buf (fst f)) m (\<lambda>r.
       if r < 0 then Print (text_of ''open '' @ cstring buf (fst f) @ text_of '' failed'' @ [10]) Exit
       else runcmd buf c))"
| "runcmd buf (LIST c d) = fork1 (\<lambda>pid. if pid = 0 then runcmd buf c else Wait (runcmd buf d))"
| "runcmd buf (PIPE c d) =
     Pipe (\<lambda>r. case r of
       None \<Rightarrow> panic ''pipe''
     | Some (p0, p1) \<Rightarrow>
         fork1 (\<lambda>pid.
         if pid = 0 then Close 1 (Dup p1 (Close p0 (Close p1 (runcmd buf c))))
         else
         fork1 (\<lambda>pid.
         if pid = 0 then Close 0 (Dup p0 (Close p0 (Close p1 (runcmd buf d))))
         else Close p0 (Close p1 (Wait (Wait Exit))))))"
| "runcmd buf (BACK c) = fork1 (\<lambda>pid. if pid = 0 then runcmd buf c else Exit)"

text \<open>\<open>runcmd(parsecmd(buf))\<close>: a syntax error ends the child with a message.\<close>

definition parse_and_run :: "u8 list \<Rightarrow> prog" where
  "parse_and_run buf =
     (case parsecmd buf of
        Inr (c, b) \<Rightarrow> runcmd b c
      | Inl (Panic msg) \<Rightarrow> panic msg
      | Inl _ \<Rightarrow> Exit)"

text \<open>The loop of \<open>main\<close> over the buffers that \<open>gets\<close> has filled; the input ends after them.
  A buffer that starts with a zero is the end of the input.\<close>

primrec shell_main :: "u8 list list \<Rightarrow> prog" where
  "shell_main [] = Exit"
| "shell_main (buf # lines) =
     Print (text_of ''$ '')
     (if byte buf 0 = 0 then Exit
      else if byte buf 0 = 99 \<and> byte buf 1 = 100 \<and> byte buf 2 = 32 then
        (let buf' = buf[length (takeWhile (\<lambda>c. c \<noteq> 0) buf) - 1 := 0] in
         Chdir (cstring buf' 3) (\<lambda>r.
           if r < 0 then Print (text_of ''cannot cd '' @ cstring buf' 3 @ [10]) (shell_main lines) else shell_main lines))
      else fork1 (\<lambda>pid. if pid = 0 then parse_and_run buf else Wait (shell_main lines)))"

section \<open>Running programs on tables of open files\<close>

text \<open>What a descriptor stands for: a file opened by name, an end of a pipe, or something
  inherited.\<close>

datatype obj = Named "u8 list" u32 | PipeRd nat | PipeWr nat | Inherited nat

type_synonym fdtab = "obj option list"

definition lowest :: "fdtab \<Rightarrow> nat option" where
  "lowest t = List.find (\<lambda>i. t ! i = None) [0..<length t]"

text \<open>
  \<open>run p t k\<close>: the programs that are executed, each with its descriptors, when every call
  succeeds; \<open>k\<close> is the number of the next pipe. The second result is the next free
  number. A child runs before its parent goes on, which the result does not depend on
  but for the numbers of the pipes.
\<close>

primrec run :: "prog \<Rightarrow> fdtab \<Rightarrow> nat \<Rightarrow> (u8 list list \<times> fdtab) list \<times> nat" where
  "run Exit t k = ([], k)"
| "run (Exec f argv p) t k = ([(argv, t)], k)"
| "run (Close d p) t k = run p (t[d := None]) k"
| "run (Open f m p) t k = (case lowest t of None \<Rightarrow> run (p (-1)) t k | Some d \<Rightarrow> run (p (int d)) (t[d := Some (Named f m)]) k)"
| "run (Dup d p) t k = (case lowest t of None \<Rightarrow> run p t k | Some e \<Rightarrow> run p (t[e := t ! d]) k)"
| "run (Pipe p) t k =
     (case lowest t of None \<Rightarrow> run (p None) t k | Some a \<Rightarrow>
      let t' = t[a := Some (PipeRd k)] in
      case lowest t' of None \<Rightarrow> run (p None) t k | Some b \<Rightarrow>
      run (p (Some (a, b))) (t'[b := Some (PipeWr k)]) (Suc k))"
| "run (Fork p) t k =
     (case run (p 0) t k of (xs, k') \<Rightarrow> case run (p 1) t k' of (ys, k'') \<Rightarrow> (xs @ ys, k''))"
| "run (Wait p) t k = run p t k"
| "run (Chdir f p) t k = run (p 0) t k"
| "run (Print bs p) t k = run p t k"

text \<open>What a command means: the programs with their standard input and output.\<close>

primrec plan :: "u8 list \<Rightarrow> cmd \<Rightarrow> obj \<Rightarrow> obj \<Rightarrow> nat \<Rightarrow> (u8 list list \<times> obj \<times> obj) list \<times> nat" where
  "plan buf (EXEC as) i out k = (if as = [] then [] else [(map (\<lambda>(q, e). cstring buf q) as, i, out)], k)"
| "plan buf (REDIR c f m d) i out k =
     (if d = 0 then plan buf c (Named (cstring buf (fst f)) m) out k else plan buf c i (Named (cstring buf (fst f)) m) k)"
| "plan buf (PIPE c d) i out k =
     (case plan buf c i (PipeWr k) (Suc k) of (xs, k') \<Rightarrow>
      case plan buf d (PipeRd k) out k' of (ys, k'') \<Rightarrow> (xs @ ys, k''))"
| "plan buf (LIST c d) i out k =
     (case plan buf c i out k of (xs, k') \<Rightarrow> case plan buf d i out k' of (ys, k'') \<Rightarrow> (xs @ ys, k''))"
| "plan buf (BACK c) i out k = plan buf c i out k"

definition std :: "obj \<Rightarrow> obj \<Rightarrow> obj \<Rightarrow> fdtab" where
  "std i out err = [Some i, Some out, Some err] @ replicate 13 None"

lemma std_steps:
  "lowest ((std i out err)[0 := None]) = Some 0" "lowest ((std i out err)[Suc 0 := None]) = Some (Suc 0)"
  "lowest (std i out err) = Some 3" "lowest ((std i out err)[3 := Some x]) = Some 4"
  "lowest ((std i out err)[3 := Some x, 4 := Some y, 0 := None]) = Some 0"
  "lowest ((std i out err)[3 := Some x, 4 := Some y, Suc 0 := None]) = Some (Suc 0)"
  by (simp_all add: lowest_def std_def upt_rec numeral_eq_Suc)

lemma std_upd:
  "(std i out err)[0 := Some x] = std x out err" "(std i out err)[Suc 0 := Some x] = std i x err"
  by (simp_all add: std_def)

lemma std_pipe:
  "(std i out err)[3 := x, 4 := y, Suc 0 := z, 3 := None, 4 := None] = (std i out err)[Suc 0 := z]"
  "(std i out err)[3 := x, 4 := y, 0 := z, 3 := None, 4 := None] = (std i out err)[0 := z]"
  "(std i out err)[3 := x, 4 := y, Suc 0 := None] ! 4 = y" "(std i out err)[3 := x, 4 := y, 0 := None] ! 3 = x"
  by (simp_all add: std_def numeral_eq_Suc)

lemma run_runcmd:
  "redirs_ok c \<Longrightarrow> run (runcmd buf c) (std i out err) k
    = (case plan buf c i out k of (xs, k') \<Rightarrow> (map (\<lambda>(argv, i, out). (argv, std i out err)) xs, k'))"
proof (induction c arbitrary: i out k)
  case (EXEC as)
  then show ?case by (simp add: Let_def)
next
  case (REDIR c f m d)
  then show ?case
    by (auto simp: std_steps std_upd less_Suc_eq numeral_2_eq_2)
next
  case (PIPE c d)
  then show ?case
    by (simp add: std_steps std_pipe std_upd Let_def fork1_def split: prod.splits)
next
  case (LIST c d)
  then show ?case by (auto simp: fork1_def split: prod.splits)
next
  case (BACK c)
  then show ?case by (auto simp: fork1_def split: prod.splits)
qed

section \<open>Properties\<close>

text \<open>
  C16. The shell wires pipelines. Let a line be accepted by the parser, and let the shell
  have its three standard descriptors and no others open. Then, when the system calls
  succeed and every new descriptor is the lowest free one, the programs the line names
  are executed with exactly three open descriptors: the standard error of the shell, and
  the input and output the line asks for, that is the shell's own, the file of the innermost redirection, or
  the ends of the pipe between two neighbours. No other end of a pipe stays open in
  any of them, so readers see the end of their input.
\<close>

theorem shell_pipeline:
  assumes "0 \<in> set s" "parsecmd s = Inr (c, buf)"
  shows "run (parse_and_run s) (std i out err) k
     = (case plan buf c i out k of (xs, k') \<Rightarrow> (map (\<lambda>(argv, i, out). (argv, std i out err)) xs, k'))"
proof -
  have "redirs_ok c" using parsecmd_words [OF assms(1)] assms(2) by auto
  then show ?thesis using assms(2) by (simp add: parse_and_run_def run_runcmd)
qed

theorem shell_pipeline_witness:
  "fst (run (parse_and_run [97, 124, 98, 62, 102, 10, 0]) (std (Inherited 0) (Inherited 1) (Inherited 2)) 0)
     = [([[97]], std (Inherited 0) (PipeWr 0) (Inherited 2)), ([[98]], std (PipeRd 0) (Named [102] 513) (Inherited 2))]"
proof -
  let ?s = "[97, 124, 98, 62, 102, 10, 0] :: u8 list" and ?c = "PIPE (EXEC [(0, 1)]) (REDIR (EXEC [(2, 3)]) (4, 5) 513 1)"
    and ?b = "[97, 0, 98, 0, 102, 0, 0] :: u8 list"
  have "parsecmd ?s = Inr (?c, ?b)"
    by code_simp
  moreover have "fst (plan ?b ?c (Inherited 0) (Inherited 1) 0)
     = [([[97]], Inherited 0, PipeWr 0), ([[98]], PipeRd 0, Named [102] 513)]"
    by code_simp
  ultimately show ?thesis
    using shell_pipeline [of ?s ?c ?b "Inherited 0" "Inherited 1" "Inherited 2" 0]
    by (cases "plan ?b ?c (Inherited 0) (Inherited 1) 0") simp
qed

end
