(* ===== verification/Grep.thy ===== *)
theory Grep
  imports Prelude
begin

text \<open>
  The pattern matcher of \<open>user/grep.c\<close>, and its loop over the input. A pattern and a text
  are the bytes of a C string before the terminating zero. The theorem compares the
  matcher with the meaning of the pattern as a set of strings.
\<close>

section \<open>The matcher\<close>

text \<open>\<open>re[1] == '*'\<close>, where \<open>re\<close> is not empty and \<open>r\<close> is its rest.\<close>

definition star_next :: "u8 list \<Rightarrow> bool" where
  "star_next r \<longleftrightarrow> r \<noteq> [] \<and> hd r = 42"

function matchhere :: "u8 list \<Rightarrow> u8 list \<Rightarrow> bool"
and matchstar :: "u8 \<Rightarrow> u8 list \<Rightarrow> u8 list \<Rightarrow> bool" where
  "matchhere re tx =
     (case re of
        [] \<Rightarrow> True
      | c # r \<Rightarrow>
          if star_next r then matchstar c (tl r) tx
          else if c = 36 \<and> r = [] then tx = []
          else tx \<noteq> [] \<and> (c = 46 \<or> c = hd tx) \<and> matchhere r (tl tx))"
| "matchstar c re tx =
     (if matchhere re tx then True
      else if tx \<noteq> [] \<and> (hd tx = c \<or> c = 46) then matchstar c re (tl tx)
      else False)"
  by pat_completeness auto
termination
  by (relation "measures [\<lambda>x. case x of Inl (re, tx) \<Rightarrow> length re | Inr (c, re, tx) \<Rightarrow> length re,
        \<lambda>x. case x of Inl (re, tx) \<Rightarrow> length tx | Inr (c, re, tx) \<Rightarrow> length tx,
        \<lambda>x. case x of Inl _ \<Rightarrow> 0 | Inr _ \<Rightarrow> 1]")
    (auto simp: star_next_def)

declare matchhere.simps [simp del] matchstar.simps [simp del]

text \<open>The loop of \<open>match\<close>: the pattern is tried at every position, the end included.\<close>

fun match_loop :: "u8 list \<Rightarrow> u8 list \<Rightarrow> bool" where
  "match_loop re [] = matchhere re []"
| "match_loop re (x # tx) = (matchhere re (x # tx) \<or> match_loop re tx)"

definition match :: "u8 list \<Rightarrow> u8 list \<Rightarrow> bool" where
  "match re tx = (if re \<noteq> [] \<and> hd re = 94 then matchhere (tl re) tx else match_loop re tx)"

section \<open>The input loop\<close>

definition BUFSZ :: nat where "BUFSZ = 1024"

text \<open>
  \<open>strchr(p, '\n')\<close> in the static buffer: it stops at the newline or at a zero, and where
  there is neither it leaves the buffer.
\<close>

definition strchr_nl :: "u8 list \<Rightarrow> nat \<Rightarrow> fault + nat option" where
  "strchr_nl buf p =
     (let q = p + length (takeWhile (\<lambda>c. c \<noteq> 0 \<and> c \<noteq> 10) (drop p buf)) in
      if q \<ge> length buf then Inl (Undef ''strchr'')
      else Inr (if buf ! q = 10 then Some q else None))"

text \<open>
  The lines in the buffer from \<open>p\<close> on: the buffer afterwards, the last value of \<open>p\<close> and the
  bytes written, one list for each call of \<open>write\<close>. A line that does not match keeps the
  zero in place of its newline.
\<close>

function grep_lines :: "u8 list \<Rightarrow> u8 list \<Rightarrow> nat \<Rightarrow> fault + u8 list \<times> nat \<times> u8 list list" where
  "grep_lines pattern buf p =
     (case strchr_nl buf p of
        Inl f \<Rightarrow> Inl f
      | Inr None \<Rightarrow> Inr (buf, p, [])
      | Inr (Some q) \<Rightarrow>
          let tx = take (q - p) (drop p buf) in
          if match pattern tx then
            (case grep_lines pattern buf (q + 1) of
               Inl f \<Rightarrow> Inl f
             | Inr (b, p', out) \<Rightarrow> Inr (b, p', (tx @ [10]) # out))
          else grep_lines pattern (buf[q := 0]) (q + 1))"
  by pat_completeness auto
termination
  by (relation "measure (\<lambda>(pattern, buf, p). length buf - p)")
    (auto simp: strchr_nl_def Let_def split: if_splits)

declare grep_lines.simps [simp del]

text \<open>
  The loop of \<open>grep\<close> over what the calls of \<open>read\<close> return, none of them longer than asked for.
  \<open>m\<close> is an \<open>int\<close>: it may become negative, and the next read is then outside the
  buffer.
\<close>

primrec grep_loop :: "u8 list \<Rightarrow> u8 list \<Rightarrow> int \<Rightarrow> u8 list list \<Rightarrow> fault + u8 list list" where
  "grep_loop pattern buf m [] = Inr []"
| "grep_loop pattern buf m (bs # reads) =
     (if bs = [] then Inr []
      else if m < 0 then Inl (Undef ''buf+m'')
      else
      let m = m + int (length bs);
          buf = take (nat m - length bs) buf @ bs @ drop (nat m) buf in
      case grep_lines pattern buf 0 of
        Inl f \<Rightarrow> Inl f
      | Inr (buf, p, out) \<Rightarrow>
          let m' = (if p = 0 then 0 else m - int p);
              buf = (if m' > 0 then take (nat m') (drop p buf) @ drop (nat m') buf else buf) in
          case grep_loop pattern buf m' reads of Inl f \<Rightarrow> Inl f | Inr more \<Rightarrow> Inr (out @ more))"

definition grep :: "u8 list \<Rightarrow> u8 list list \<Rightarrow> fault + u8 list list" where
  "grep pattern reads = grep_loop pattern (replicate BUFSZ 0) 0 reads"

section \<open>The meaning of patterns\<close>

text \<open>A pattern is a sequence of items; \<open>$\<close> is an anchor at its end only.\<close>

datatype item = One u8 | Star u8

fun items :: "u8 list \<Rightarrow> item list" where
  "items [] = []"
| "items [c] = (if c = 36 then [] else [One c])"
| "items (c # d # r) = (if d = 42 then Star c # items r else One c # items (d # r))"

fun anchored :: "u8 list \<Rightarrow> bool" where
  "anchored [] = False"
| "anchored [c] = (c = 36)"
| "anchored (c # d # r) = (if d = 42 then anchored r else anchored (d # r))"

definition fits :: "u8 \<Rightarrow> u8 \<Rightarrow> bool" where
  "fits c x \<longleftrightarrow> c = 46 \<or> c = x"

primrec lang :: "item list \<Rightarrow> u8 list set" where
  "lang [] = {[]}"
| "lang (i # is) = (case i of
     One c \<Rightarrow> {x # w | x w. fits c x \<and> w \<in> lang is}
   | Star c \<Rightarrow> {u @ w | u w. list_all (fits c) u \<and> w \<in> lang is})"

text \<open>The pattern matches at the beginning of the text.\<close>

definition begins :: "u8 list \<Rightarrow> u8 list \<Rightarrow> bool" where
  "begins re tx \<longleftrightarrow> (\<exists>u v. tx = u @ v \<and> u \<in> lang (items re) \<and> (anchored re \<longrightarrow> v = []))"

lemma begins_Star:
  assumes "items re = Star c # items r" "anchored re = anchored r"
  shows "begins re tx \<longleftrightarrow> (\<exists>p q. tx = p @ q \<and> list_all (fits c) p \<and> begins r q)"
proof
  assume "begins re tx"
  then obtain p w v where "tx = (p @ w) @ v" "list_all (fits c) p" "w \<in> lang (items r)" "anchored r \<longrightarrow> v = []"
    unfolding begins_def assms lang.simps item.case by blast
  then show "\<exists>p q. tx = p @ q \<and> list_all (fits c) p \<and> begins r q"
    by (intro exI [of _ p] exI [of _ "w @ v"]) (auto simp: begins_def)
next
  assume "\<exists>p q. tx = p @ q \<and> list_all (fits c) p \<and> begins r q"
  then obtain p w v where "tx = p @ w @ v" "list_all (fits c) p" "w \<in> lang (items r)" "anchored r \<longrightarrow> v = []"
    by (auto simp: begins_def)
  then show "begins re tx"
    unfolding begins_def assms by (intro exI [of _ "p @ w"] exI [of _ v]) auto
qed

lemma begins_One:
  assumes "items re = One c # items r" "anchored re = anchored r"
  shows "begins re tx \<longleftrightarrow> tx \<noteq> [] \<and> fits c (hd tx) \<and> begins r (tl tx)"
proof
  assume "begins re tx"
  then obtain x w v where "tx = (x # w) @ v" "fits c x" "w \<in> lang (items r)" "anchored r \<longrightarrow> v = []"
    unfolding begins_def assms lang.simps item.case by blast
  then show "tx \<noteq> [] \<and> fits c (hd tx) \<and> begins r (tl tx)"
    by (auto simp: begins_def)
next
  assume "tx \<noteq> [] \<and> fits c (hd tx) \<and> begins r (tl tx)"
  then obtain x w v where "tx = x # w @ v" "fits c x" "w \<in> lang (items r)" "anchored r \<longrightarrow> v = []"
    by (cases tx) (auto simp: begins_def)
  then show "begins re tx"
    unfolding begins_def assms by (intro exI [of _ "x # w"] exI [of _ v]) auto
qed

lemma repeat_unfold:
  "(\<exists>p q. tx = p @ q \<and> list_all P p \<and> Q q) \<longleftrightarrow> Q tx \<or> tx \<noteq> [] \<and> P (hd tx) \<and> (\<exists>p q. tl tx = p @ q \<and> list_all P p \<and> Q q)"
  (is "?l \<longleftrightarrow> ?r")
proof
  assume ?l
  then obtain p q where "tx = p @ q" "list_all P p" "Q q" by blast
  then show ?r by (cases p) auto
next
  assume ?r
  then consider "Q tx" | x p q where "tx = x # p @ q" "P x" "list_all P p" "Q q"
    by (cases tx) auto
  then show ?l
  proof cases
    case 1
    then show ?thesis by (intro exI [of _ "[]"] exI [of _ tx]) simp
  next
    case 2
    then show ?thesis by (intro exI [of _ "x # p"] exI [of _ q]) simp
  qed
qed

lemma matcher_begins: "matchhere re tx = begins re tx"
  "matchstar c re tx = (\<exists>p q. tx = p @ q \<and> list_all (fits c) p \<and> begins re q)"
proof (induction re tx and c re tx rule: matchhere_matchstar.induct)
  case (1 re tx)
  consider "re = []" | "re = [36]" | c r where "re = c # 42 # r" | c r where "re = c # r" "\<not> star_next r" "\<not> (c = 36 \<and> r = [])"
    by (cases re; cases "tl re") (auto simp: star_next_def)
  then show ?case
  proof cases
    case 3
    then show ?thesis
      using 1(1) [OF 3] begins_Star [of re c r tx] by (simp add: matchhere.simps star_next_def)
  next
    case 4
    then have "items re = One c # items r" "anchored re = anchored r"
      by (cases r; simp add: star_next_def)+
    moreover have "matchhere re tx \<longleftrightarrow> tx \<noteq> [] \<and> fits c (hd tx) \<and> matchhere r (tl tx)"
      by (subst matchhere.simps) (use 4 in \<open>auto simp: fits_def\<close>)
    ultimately show ?thesis
      using 1(2) [OF 4] begins_One [of re c r tx] by simp
  qed (simp_all add: matchhere.simps begins_def star_next_def)
next
  case (2 c re tx)
  have f: "(hd tx = c \<or> c = 46) = fits c (hd tx)" by (auto simp: fits_def)
  show ?case
  proof (cases "\<not> matchhere re tx \<and> tx \<noteq> [] \<and> fits c (hd tx)")
    case True
    then have "matchstar c re tx = matchstar c re (tl tx)" by (subst matchstar.simps) (simp add: f)
    also have "\<dots> \<longleftrightarrow> (\<exists>p q. tl tx = p @ q \<and> list_all (fits c) p \<and> begins re q)" using 2(2) True f by blast
    finally show ?thesis using True 2(1) by (subst repeat_unfold) simp
  next
    case False
    then have "matchstar c re tx = matchhere re tx" by (subst matchstar.simps) (auto simp: f)
    then show ?thesis using False 2(1) by (subst repeat_unfold) auto
  qed
qed

lemma match_loop_begins: "match_loop re tx \<longleftrightarrow> (\<exists>p q. tx = p @ q \<and> begins re q)"
proof (induction tx)
  case Nil
  then show ?case by (simp add: matcher_begins)
next
  case (Cons x tx)
  have "(\<exists>p q. x # tx = p @ q \<and> begins re q) \<longleftrightarrow> begins re (x # tx) \<or> (\<exists>p q. tx = p @ q \<and> begins re q)"
    by (auto simp: Cons_eq_append_conv)
  then show ?case using Cons by (simp add: matcher_begins)
qed

section \<open>Lines\<close>

lemma dropWhile_shorter: "dropWhile P cs = x # r \<Longrightarrow> length r < length cs"
  using length_dropWhile_le [of P cs] by simp

function split_lines :: "u8 list \<Rightarrow> u8 list list" where
  "split_lines cs =
     (case dropWhile (\<lambda>c. c \<noteq> 10) cs of [] \<Rightarrow> [] | _ # r \<Rightarrow> takeWhile (\<lambda>c. c \<noteq> 10) cs # split_lines r)"
  by pat_completeness auto
termination
  by (relation "measure length") (auto dest: dropWhile_shorter)

declare split_lines.simps [simp del]

lemma split_lines_none: "10 \<notin> set cs \<Longrightarrow> split_lines cs = []"
proof -
  assume "10 \<notin> set cs"
  then have "dropWhile (\<lambda>c. c \<noteq> 10) cs = []" by (induction cs) auto
  then show ?thesis by (simp only: split_lines.simps [of cs] list.case)
qed

lemma split_lines_first:
  assumes "10 \<notin> set cs"
  shows "split_lines (cs @ 10 # r) = cs # split_lines r"
proof -
  have "dropWhile (\<lambda>c. c \<noteq> 10) (cs @ 10 # r) = 10 # r" "takeWhile (\<lambda>c. c \<noteq> 10) (cs @ 10 # r) = cs"
    using assms by (induction cs) auto
  then show ?thesis by (subst split_lines.simps) simp
qed

lemma drop_middle:
  assumes "drop p buf = u @ x # w"
  shows "p + length u < length buf" "buf ! (p + length u) = x" "take (length u) (drop p buf) = u" "drop (Suc (p + length u)) buf = w"
proof -
  have "length (drop p buf) = length u + 1 + length w" using assms by simp
  then show l: "p + length u < length buf" by simp
  then show "buf ! (p + length u) = x" using arg_cong [OF assms, of "\<lambda>l. l ! length u"] by simp
  show "take (length u) (drop p buf) = u" using assms by simp
  have "drop (Suc (length u)) (drop p buf) = w" using assms by simp
  then show "drop (Suc (p + length u)) buf = w" by (simp add: add.commute)
qed

lemma takeWhile_at: "list_all P u \<Longrightarrow> \<not> P x \<Longrightarrow> takeWhile P (u @ x # v) = u"
  by (induction u) auto

lemma grep_lines_ok:
  "drop p buf = cs @ 0 # z \<Longrightarrow> 0 \<notin> set cs \<Longrightarrow>
    \<exists>b p'. grep_lines pat buf p = Inr (b, p', map (\<lambda>l. l @ [10]) (filter (match pat) (split_lines cs)))"
proof (induction "length cs" arbitrary: buf p cs rule: less_induct)
  case less
  show ?case
  proof (cases "10 \<in> set cs")
    case False
    have "takeWhile (\<lambda>c. c \<noteq> 0 \<and> c \<noteq> 10) (drop p buf) = cs"
      unfolding less.prems(1) using False less.prems(2) by (intro takeWhile_at) (auto simp: list_all_iff)
    then show ?thesis
      using False drop_middle [OF less.prems(1)] by (subst grep_lines.simps) (simp add: strchr_nl_def Let_def split_lines_none)
  next
    case True
    then obtain u v where cs: "cs = u @ 10 # v" "10 \<notin> set u" by (metis split_list_first)
    let ?q = "p + length u"
    have "takeWhile (\<lambda>c. c \<noteq> 0 \<and> c \<noteq> 10) (drop p buf) = u"
      unfolding less.prems(1) cs(1) append.assoc append_Cons
      using cs less.prems(2) by (intro takeWhile_at) (auto simp: list_all_iff)
    moreover have "drop p buf = u @ 10 # v @ 0 # z" using less.prems(1) cs(1) by simp
    note q = drop_middle [OF this]
    ultimately have s: "strchr_nl buf p = Inr (Some ?q)" by (simp add: strchr_nl_def Let_def)
    have v: "length v < length cs" "0 \<notin> set v" using cs less.prems(2) by auto
    have "drop (Suc ?q) (buf[?q := 0]) = v @ 0 # z" using q(4) by simp
    from less.hyps [OF v(1) this v(2)] less.hyps [OF v(1) q(4) v(2)] show ?thesis
      by (subst grep_lines.simps) (auto simp: s q(3) Let_def cs split_lines_first)
  qed
qed

lemma match_meaning:
  "match pat tx \<longleftrightarrow>
     (if pat \<noteq> [] \<and> hd pat = 94
      then \<exists>u v. tx = u @ v \<and> u \<in> lang (items (tl pat)) \<and> (anchored (tl pat) \<longrightarrow> v = [])
      else \<exists>p u v. tx = p @ u @ v \<and> u \<in> lang (items pat) \<and> (anchored pat \<longrightarrow> v = []))"
  by (simp add: match_def matcher_begins match_loop_begins begins_def) blast

lemma grep_one_read:
  assumes "0 \<notin> set input" "length input < BUFSZ"
  shows "grep pat [input] = Inr (map (\<lambda>l. l @ [10]) (filter (match pat) (split_lines input)))"
proof (cases "input = []")
  case True
  then show ?thesis by (simp add: grep_def split_lines.simps)
next
  case False
  have "drop 0 (input @ replicate (BUFSZ - length input) 0) = input @ 0 # replicate (BUFSZ - length input - 1) 0"
    using assms(2) by (cases "BUFSZ - length input") auto
  from grep_lines_ok [OF this assms(1), of pat] show ?thesis
    using False by (auto simp: grep_def Let_def)
qed

section \<open>Properties\<close>

text \<open>
  C28. \<open>grep\<close> finds the lines that match. The matcher of \<open>user/grep.c\<close> decides the meaning of
  the pattern: with \<open>^\<close> some beginning of the text, and otherwise some part of it, is in the
  language of the pattern, and with a last \<open>$\<close> the text ends there. An input without zeros that
  one read brings whole into the buffer, with room to spare, is answered with exactly
  its matching lines, in order, each with its newline.
\<close>

theorem grep_correct:
  assumes "0 \<notin> set input" "length input < BUFSZ"
  shows "grep pat [input] = Inr (map (\<lambda>l. l @ [10]) (filter (match pat) (split_lines input)))
     \<and> (match pat tx \<longleftrightarrow>
         (if pat \<noteq> [] \<and> hd pat = 94
          then \<exists>u v. tx = u @ v \<and> u \<in> lang (items (tl pat)) \<and> (anchored (tl pat) \<longrightarrow> v = [])
          else \<exists>p u v. tx = p @ u @ v \<and> u \<in> lang (items pat) \<and> (anchored pat \<longrightarrow> v = [])))"
  using grep_one_read [OF assms] match_meaning by blast

theorem grep_correct_witness:
  "grep [97, 42, 98, 36] [[120, 97, 97, 98, 10, 98, 99, 10, 98]] = Inr [[120, 97, 97, 98, 10]]
     \<and> (\<exists>p u v. [120, 97, 97, 98] = p @ u @ v \<and> u \<in> lang (items [97, 42, 98, 36]))"
proof -
  let ?pat = "[97, 42, 98, 36] :: u8 list" and ?in = "[120, 97, 97, 98, 10, 98, 99, 10, 98] :: u8 list"
  have f: "filter (match ?pat) (split_lines ?in) = [[120, 97, 97, 98]]" and m: "match ?pat [120, 97, 97, 98]"
    by code_simp+
  have "0 \<notin> set ?in" "length ?in < BUFSZ" by (simp_all add: BUFSZ_def)
  note G = grep_correct [OF this, of ?pat "[120, 97, 97, 98]"]
  have n: "\<not> (?pat \<noteq> [] \<and> hd ?pat = 94)" by simp
  have "\<exists>p u v. [120, 97, 97, 98] = p @ u @ v \<and> u \<in> lang (items ?pat)"
    using conjunct2 [OF G] m unfolding if_not_P [OF n] by blast
  with G f show ?thesis by simp
qed

end
