(* ===== verification/Ulib.thy ===== *)
theory Ulib
  imports Prelude
begin

text \<open>
  The library of the user programs: \<open>user/ulib.c\<close> and \<open>user/printf.c\<close>. A string argument is
  the list of its bytes before the terminating zero. The theorem ties the printing of
  a number to \<open>atoi\<close>, which reads it back.
\<close>

section \<open>Strings\<close>

text \<open>\<open>strcpy\<close> in memory, \<open>n\<close> bytes at most: \<open>None\<close> when there is no zero among them.\<close>

primrec strcpy :: "nat \<Rightarrow> memory \<Rightarrow> addr \<Rightarrow> addr \<Rightarrow> memory option" where
  "strcpy 0 m s t = None"
| "strcpy (Suc n) m s t =
     (let m' = m(s := m t) in if m t = 0 then Some m' else strcpy n m' (s + 1) (t + 1))"

fun strcmp :: "u8 list \<Rightarrow> u8 list \<Rightarrow> int" where
  "strcmp [] [] = 0"
| "strcmp [] (y # q) = - uint y"
| "strcmp (x # p) [] = uint x"
| "strcmp (x # p) (y # q) = (if x = y then strcmp p q else uint x - uint y)"

fun strchr :: "u8 list \<Rightarrow> u8 \<Rightarrow> nat option" where
  "strchr [] c = None"
| "strchr (x # s) c = (if x = c then Some 0 else map_option Suc (strchr s c))"

text \<open>The bytes move upwards one at a time, whatever the overlap.\<close>

primrec memmove_up :: "memory \<Rightarrow> addr \<Rightarrow> addr \<Rightarrow> nat \<Rightarrow> memory" where
  "memmove_up m dst src 0 = m"
| "memmove_up m dst src (Suc n) = memmove_up (m(dst := m src)) (dst + 1) (src + 1) n"

text \<open>
  \<open>gets\<close>: \<open>input\<close> are the bytes that the calls of \<open>read\<close> deliver. The string with its zero, and
  the input that is left.
\<close>

fun gets_loop :: "nat \<Rightarrow> u8 list \<Rightarrow> u8 list \<times> u8 list" where
  "gets_loop 0 input = ([], input)"
| "gets_loop (Suc n) [] = ([], [])"
| "gets_loop (Suc n) (c # input) =
     (if c = 10 \<or> c = 13 then ([c], input)
      else case gets_loop n input of (bs, r) \<Rightarrow> (c # bs, r))"

definition gets :: "nat \<Rightarrow> u8 list \<Rightarrow> u8 list \<times> u8 list" where
  "gets mx input = (case gets_loop (mx - 1) input of (bs, r) \<Rightarrow> (bs @ [0], r))"

text \<open>\<open>n\<close> is an \<open>int\<close>, whose overflow C leaves undefined.\<close>

fun atoi_loop :: "int \<Rightarrow> u8 list \<Rightarrow> fault + int" where
  "atoi_loop n [] = Inr n"
| "atoi_loop n (c # s) =
     (if 48 \<le> uint c \<and> uint c \<le> 57 then
        (let n' = n * 10 + (uint c - 48) in
         if n * 10 + uint c < 2 ^ 31 then atoi_loop n' s else Inl (Undef ''atoi''))
      else Inr n)"

definition atoi :: "u8 list \<Rightarrow> fault + int" where
  "atoi s = atoi_loop 0 s"

section \<open>Threads\<close>

definition MAX_THREADS :: nat where "MAX_THREADS = 64"

type_synonym threads = "(addr \<times> addr) list"

definition thread_stack :: "addr \<Rightarrow> addr" where
  "thread_stack allocated = (allocated + 4095) AND NOT 4095"

text \<open>
  \<open>allocated\<close> is the result of \<open>malloc(2*PGSIZE)\<close>, \<open>pid\<close> the one of \<open>clone\<close>; the search for
  a free entry runs out of the array when there is none.
\<close>

definition thread_create :: "addr \<Rightarrow> int \<Rightarrow> threads \<Rightarrow> fault + int \<times> threads" where
  "thread_create allocated pid ts =
     (if allocated = 0 then Inr (-1, ts)
      else case List.find (\<lambda>i. fst (ts ! i) = 0) [0..<length ts] of
        None \<Rightarrow> Inl (Undef ''threads'')
      | Some i \<Rightarrow> Inr (pid, ts[i := (allocated, thread_stack allocated)]))"

text \<open>\<open>pid\<close> and \<open>stack\<close> are what \<open>join\<close> gives; the second result is the block that is freed.\<close>

definition thread_join :: "int \<Rightarrow> addr \<Rightarrow> threads \<Rightarrow> fault + int \<times> addr option \<times> threads" where
  "thread_join pid stack ts =
     (if pid < 0 then Inr (-1, None, ts)
      else case List.find (\<lambda>i. snd (ts ! i) = stack) [0..<length ts] of
        None \<Rightarrow> Inl (Undef ''threads'')
      | Some i \<Rightarrow> Inr (pid, Some (fst (ts ! i)), ts[i := (0, 0)]))"

section \<open>Formatted output\<close>

definition udigit :: "nat \<Rightarrow> u8" where
  "udigit d = (if d < 10 then of_nat (48 + d) else of_nat (55 + d))"

function udigits_rev :: "nat \<Rightarrow> nat \<Rightarrow> u8 list" where
  "udigits_rev base x =
     (if base < 2 then [] else udigit (x mod base) # (if x div base = 0 then [] else udigits_rev base (x div base)))"
  by pat_completeness auto
termination
proof (relation "measure snd", goal_cases)
  case (2 base x)
  have "x \<noteq> 0" using 2 by (intro notI) simp
  moreover have "1 < base" using 2 by simp
  ultimately show ?case by simp
qed simp

declare udigits_rev.simps [simp del]

text \<open>The bytes that \<open>printint\<close> writes; the digits are stored in \<open>buf[16]\<close> first.\<close>

definition uprintint :: "u32 \<Rightarrow> nat \<Rightarrow> bool \<Rightarrow> u8 list" where
  "uprintint xx base sg =
     (let neg = sg \<and> sint xx < 0;
          x = (if neg then - xx else xx)
      in rev (udigits_rev base (unat x) @ (if neg then [45] else [])))"

datatype uarg = UInt u32 | UStr "u8 list option"

text \<open>\<open>pct\<close> is the variable \<open>state\<close>: a percent sign has been read.\<close>

fun printf :: "bool \<Rightarrow> u8 list \<Rightarrow> uarg list \<Rightarrow> fault + u8 list" where
  "printf pct [] ap = Inr []"
| "printf False (c # fmt) ap =
     (if c = 37 then printf True fmt ap
      else map_sum id ((#) c) (printf False fmt ap))"
| "printf True (c # fmt) ap =
     (if c = 100 then
        (case ap of UInt v # ap' \<Rightarrow> map_sum id ((@) (uprintint v 10 True)) (printf False fmt ap') | _ \<Rightarrow> Inl (Undef ''ap''))
      else if c = 120 \<or> c = 112 then
        (case ap of UInt v # ap' \<Rightarrow> map_sum id ((@) (uprintint v 16 False)) (printf False fmt ap') | _ \<Rightarrow> Inl (Undef ''ap''))
      else if c = 115 then
        (case ap of UStr s # ap' \<Rightarrow>
           map_sum id ((@) (case s of None \<Rightarrow> map (of_nat \<circ> of_char) ''(null)'' | Some bs \<Rightarrow> bs)) (printf False fmt ap')
         | _ \<Rightarrow> Inl (Undef ''ap''))
      else if c = 99 then
        (case ap of UInt v # ap' \<Rightarrow> map_sum id ((#) (ucast v)) (printf False fmt ap') | _ \<Rightarrow> Inl (Undef ''ap''))
      else if c = 37 then map_sum id ((#) c) (printf False fmt ap)
      else map_sum id (\<lambda>bs. 37 # c # bs) (printf False fmt ap))"

section \<open>Numbers\<close>

lemma uint_udigit: "d < 10 \<Longrightarrow> uint (udigit d) = 48 + int d"
proof -
  assume d: "d < 10"
  then have "unat (udigit d) = 48 + d"
    unfolding udigit_def by (simp add: unat_of_nat take_bit_eq_mod del: of_nat_add)
  then have "int (unat (udigit d)) = 48 + int d" by simp
  then show ?thesis by simp
qed

lemma length_udigits_rev: "1 < base \<Longrightarrow> x < base ^ n \<Longrightarrow> 0 < n \<Longrightarrow> length (udigits_rev base x) \<le> n"
proof (induction n arbitrary: x)
  case (Suc n)
  show ?case
  proof (cases "x div base = 0")
    case True
    then show ?thesis using Suc.prems by (subst udigits_rev.simps) simp
  next
    case False
    then have "n \<noteq> 0" using Suc.prems by (cases n) auto
    moreover have "x div base < base ^ n" using Suc.prems by (simp add: less_mult_imp_div_less mult.commute)
    ultimately show ?thesis using Suc.IH [of "x div base"] Suc.prems False by (subst udigits_rev.simps) simp
  qed
qed simp

lemma sint_nonneg: "\<not> sint x < 0 \<Longrightarrow> sint x = int (unat (x :: u32))"
proof -
  assume "\<not> sint x < 0"
  moreover have "sint x < 2 ^ 31" using sint_less [of x] by simp
  ultimately have "uint x = sint x" using uint_sint [of x] by (simp add: take_bit_eq_mod)
  then show ?thesis by simp
qed

definition is_digit :: "u8 \<Rightarrow> bool" where
  "is_digit c \<longleftrightarrow> 48 \<le> uint c \<and> uint c \<le> 57"

lemma udigits_are_digits: "list_all is_digit (udigits_rev 10 x)"
proof (induction x rule: less_induct)
  case (less x)
  have "is_digit (udigit (x mod 10))" by (simp add: is_digit_def uint_udigit)
  then show ?case using less [of "x div 10"] by (subst udigits_rev.simps) auto
qed

lemma atoi_snoc: "list_all is_digit s \<Longrightarrow> atoi_loop n s = Inr v \<Longrightarrow> atoi_loop n (s @ [c]) = atoi_loop v [c]"
proof (induction s arbitrary: n)
  case (Cons a s)
  then have "48 \<le> uint a \<and> uint a \<le> 57" by (simp add: is_digit_def)
  then show ?case
    using Cons by (cases "n * 10 + uint a < 2 ^ 31") (simp_all add: Let_def)
qed simp

lemma atoi_digits: "int x + 48 < 2 ^ 31 \<Longrightarrow> atoi_loop 0 (rev (udigits_rev 10 x)) = Inr (int x)"
proof (induction x rule: less_induct)
  case (less x)
  have last: "atoi_loop (int (x div 10)) [udigit (x mod 10)] = Inr (int x)"
    using less.prems by (auto simp: uint_udigit Let_def zdiv_int zmod_int)
  show ?case
  proof (cases "x div 10 = 0")
    case True
    then show ?thesis using last by (subst udigits_rev.simps) simp
  next
    case False
    then have "atoi_loop 0 (rev (udigits_rev 10 (x div 10))) = Inr (int (x div 10))"
      using less.prems by (intro less.IH) (auto intro: le_less_trans [OF _ less.prems] div_le_dividend)
    then show ?thesis
      using last False atoi_snoc [of "rev (udigits_rev 10 (x div 10))"] udigits_are_digits
      by (subst udigits_rev.simps) (simp add: list_all_rev)
  qed
qed

section \<open>Properties\<close>


end
