(* ===== verification/Xfsck.thy ===== *)
theory Xfsck
  imports Layout
begin

text \<open>
  The file system checker \<open>tools/xfsck.c\<close>. The image is the file mapped into memory; an
  access outside of it is undefined and ends the run of the model, as the first failing
  test ends it with a message. Block addresses are 32-bit words, and so is their product
  with the block size. Theory \<open>Layout\<close> has the constants.
\<close>

section \<open>Model\<close>

record image =
  isize :: nat
  ibyte :: "nat \<Rightarrow> u8"

datatype stop = Error string | Undefined

type_synonym 'a chk = "stop + 'a"

definition cbind :: "'a chk \<Rightarrow> ('a \<Rightarrow> 'b chk) \<Rightarrow> 'b chk" where
  "cbind m f = (case m of Inl e \<Rightarrow> Inl e | Inr x \<Rightarrow> f x)"

text \<open>A test that ends the program, code that has no defined meaning unless \<open>b\<close>, and the
  other statements.\<close>

definition cerr :: "bool \<Rightarrow> string \<Rightarrow> unit chk" where
  "cerr b msg = (if b then Inl (Error msg) else Inr ())"

definition cdefined :: "bool \<Rightarrow> 'a chk \<Rightarrow> 'a chk" where
  "cdefined b m = (if b then m else Inl Undefined)"

definition cwhen :: "bool \<Rightarrow> unit chk \<Rightarrow> unit chk" where
  "cwhen b m = (if b then m else Inr ())"

definition cseq :: "unit chk \<Rightarrow> 'a chk \<Rightarrow> 'a chk" where
  "cseq m n = cbind m (\<lambda>_. n)"

text \<open>Loops: over all elements, up to the first for which the body sets its flag, and
  with a counter.\<close>

primrec cfor :: "'a list \<Rightarrow> ('a \<Rightarrow> unit chk) \<Rightarrow> unit chk" where
  "cfor [] f = Inr ()"
| "cfor (x # xs) f = cbind (f x) (\<lambda>_. cfor xs f)"

primrec cany :: "'a list \<Rightarrow> ('a \<Rightarrow> bool chk) \<Rightarrow> bool chk" where
  "cany [] f = Inr False"
| "cany (x # xs) f = cbind (f x) (\<lambda>b. if b then Inr True else cany xs f)"

primrec csum :: "'a list \<Rightarrow> ('a \<Rightarrow> int chk) \<Rightarrow> int chk" where
  "csum [] f = Inr 0"
| "csum (x # xs) f = cbind (f x) (\<lambda>n. cbind (csum xs f) (\<lambda>m. Inr (n + m)))"

definition im16 :: "image \<Rightarrow> nat \<Rightarrow> u16" where
  "im16 img a = ucast (ibyte img a) OR push_bit 8 (ucast (ibyte img (a + 1)))"

definition im32 :: "image \<Rightarrow> nat \<Rightarrow> u32" where
  "im32 img a = ucast (ibyte img a) OR push_bit 8 (ucast (ibyte img (a + 1)))
     OR push_bit 16 (ucast (ibyte img (a + 2))) OR push_bit 24 (ucast (ibyte img (a + 3)))"

definition rd8 :: "image \<Rightarrow> nat \<Rightarrow> u8 chk" where
  "rd8 img a = (if a < isize img then Inr (ibyte img a) else Inl Undefined)"

definition rd16 :: "image \<Rightarrow> nat \<Rightarrow> u16 chk" where
  "rd16 img a = (if a + 1 < isize img then Inr (im16 img a) else Inl Undefined)"

definition rd32 :: "image \<Rightarrow> nat \<Rightarrow> u32 chk" where
  "rd32 img a = (if a + 3 < isize img then Inr (im32 img a) else Inl Undefined)"

text \<open>\<open>dip[i]\<close>, and the address of block \<open>a\<close> in the image.\<close>

definition dino :: "nat \<Rightarrow> nat" where
  "dino i = 2 * BSIZE + DINODE_SIZE * i"

definition blk :: "u32 \<Rightarrow> nat" where
  "blk a = unat (of_nat BSIZE * a)"

definition rd_type :: "image \<Rightarrow> nat \<Rightarrow> u16 chk" where
  "rd_type img i = rd16 img (dino i)"

definition rd_nlink :: "image \<Rightarrow> nat \<Rightarrow> u16 chk" where
  "rd_nlink img i = rd16 img (dino i + 6)"

definition rd_size :: "image \<Rightarrow> nat \<Rightarrow> u32 chk" where
  "rd_size img i = rd32 img (dino i + 8)"

definition rd_addr :: "image \<Rightarrow> nat \<Rightarrow> nat \<Rightarrow> u32 chk" where
  "rd_addr img i j = rd32 img (dino i + 12 + 4 * j)"

text \<open>\<open>addr_indirect[k]\<close>, \<open>entry[h].inum\<close> and \<open>strcmp(entry[h].name, cs) == 0\<close> in block \<open>a\<close>.\<close>

definition rd_ind :: "image \<Rightarrow> u32 \<Rightarrow> nat \<Rightarrow> u32 chk" where
  "rd_ind img a k = rd32 img (blk a + 4 * k)"

definition rd_inum :: "image \<Rightarrow> u32 \<Rightarrow> nat \<Rightarrow> u16 chk" where
  "rd_inum img a h = rd16 img (blk a + DIRENT_SIZE * h)"

primrec cstreq :: "image \<Rightarrow> nat \<Rightarrow> u8 list \<Rightarrow> bool chk" where
  "cstreq img a [] = cbind (rd8 img a) (\<lambda>b. Inr (b = 0))"
| "cstreq img a (c # cs) = cbind (rd8 img a) (\<lambda>b. if b = c then cstreq img (a + 1) cs else Inr False)"

definition name_is :: "image \<Rightarrow> u32 \<Rightarrow> nat \<Rightarrow> u8 list \<Rightarrow> bool chk" where
  "name_is img a h cs = cstreq img (blk a + DIRENT_SIZE * h + 2) cs"

text \<open>
  \<open>roundUp\<close> of the quotient of \<open>n\<close> and \<open>d\<close>, a power of two: the quotient is exact as a
  \<open>double\<close>, and the sum with 0.99 is truncated. The numbers of blocks and of inodes, and
  the first block of each part.
\<close>

definition roundUp :: "nat \<Rightarrow> nat \<Rightarrow> nat" where
  "roundUp n d = (100 * n + 99 * d) div (100 * d)"

definition nb_inodes :: "superblock \<Rightarrow> u32" where
  "nb_inodes sb = of_nat (roundUp (unat (sb_ninodes sb)) IPB)"

definition nb_bitmap :: "superblock \<Rightarrow> u32" where
  "nb_bitmap sb = of_nat (roundUp (unat (sb_nblocks sb)) BPB)"

definition nb_total :: "superblock \<Rightarrow> u32" where
  "nb_total sb = sb_nblocks sb + nb_inodes sb + nb_bitmap sb + 3"

definition ib_inode :: u32 where "ib_inode = 2"

definition ib_bitmap :: "superblock \<Rightarrow> u32" where
  "ib_bitmap sb = ib_inode + nb_inodes sb + 1"

definition ib_data :: "superblock \<Rightarrow> u32" where
  "ib_data sb = ib_bitmap sb + nb_bitmap sb"

definition ib_end :: "superblock \<Rightarrow> u32" where
  "ib_end sb = ib_data sb + sb_nblocks sb - 1"

definition num_dirent :: nat where
  "num_dirent = BSIZE div (DIRSIZ + 2)"

definition num_inodes :: "superblock \<Rightarrow> nat" where
  "num_inodes sb = nat (sint (of_nat (unat (nb_inodes sb) * IPB) :: u32))"

definition bitmap_at :: "superblock \<Rightarrow> nat" where
  "bitmap_at sb = (unat (sb_ninodes sb) div IPB + 3) * BSIZE"

definition rd_bit :: "image \<Rightarrow> superblock \<Rightarrow> nat \<Rightarrow> bool chk" where
  "rd_bit img sb b = cbind (rd8 img (bitmap_at sb + b div 8)) (\<lambda>x. Inr (bit x (b mod 8)))"

definition rd_sb :: "image \<Rightarrow> superblock chk" where
  "rd_sb img =
     cbind (rd32 img (BSIZE + 8)) (\<lambda>n.
     cbind (rd32 img (BSIZE + 4)) (\<lambda>b.
     cbind (rd32 img BSIZE) (\<lambda>s.
     Inr \<lparr>sb_size = s, sb_nblocks = b, sb_ninodes = n\<rparr>)))"

definition check1 :: "superblock \<Rightarrow> unit chk" where
  "check1 sb = cerr (sb_size sb < nb_total sb) ''superblock is corrupted.''"

definition check2 :: "image \<Rightarrow> superblock \<Rightarrow> unit chk" where
  "check2 img sb = cfor [0..<num_inodes sb] (\<lambda>i. cbind (rd_type img i) (\<lambda>t.
     cerr (t \<noteq> 0 \<and> t \<noteq> 1 \<and> t \<noteq> 2 \<and> t \<noteq> 3) ''bad inode.''))"

definition bad_addr :: "superblock \<Rightarrow> u32 \<Rightarrow> bool" where
  "bad_addr sb a \<longleftrightarrow> a < ib_data sb \<or> a > ib_end sb"

definition check3 :: "image \<Rightarrow> superblock \<Rightarrow> unit chk" where
  "check3 img sb = cfor [0..<num_inodes sb] (\<lambda>i. cbind (rd_type img i) (\<lambda>t.
     cwhen (t \<noteq> 0)
       (cseq (cfor [0..<NDIRECT] (\<lambda>j. cbind (rd_addr img i j) (\<lambda>a.
                cwhen (a \<noteq> 0) (cerr (bad_addr sb a) ''bad direct address in inode.''))))
             (cbind (rd_addr img i NDIRECT) (\<lambda>a.
                cwhen (a \<noteq> 0)
                  (cseq (cerr (bad_addr sb a) ''bad indirect address in inode.'')
                        (cfor [0..<NINDIRECT] (\<lambda>j. cbind (rd_ind img a j) (\<lambda>b.
                           cwhen (b \<noteq> 0) (cerr (bad_addr sb b) ''bad indirect address in inode.''))))))))))"

text \<open>The scan of the first block of directory \<open>i\<close>, with the two flags.\<close>

primrec check4_scan :: "image \<Rightarrow> nat \<Rightarrow> u32 \<Rightarrow> nat list \<Rightarrow> bool \<Rightarrow> bool \<Rightarrow> unit chk" where
  "check4_scan img i a [] foundSelf foundParent =
     cerr (\<not> foundSelf \<or> \<not> foundParent) ''directory not properly formatted.''"
| "check4_scan img i a (j # js) foundSelf foundParent =
     cbind (name_is img a j [46]) (\<lambda>self.
     if self then
       cbind (rd_inum img a j) (\<lambda>n.
       cseq (cerr (unat n \<noteq> i) ''directory not properly formatted.'') (check4_scan img i a js True foundParent))
     else
       cbind (name_is img a j [46, 46]) (\<lambda>par. check4_scan img i a js foundSelf (foundParent \<or> par)))"

definition check4 :: "image \<Rightarrow> superblock \<Rightarrow> unit chk" where
  "check4 img sb = cfor [0..<num_inodes sb] (\<lambda>i. cbind (rd_type img i) (\<lambda>t.
     cwhen (t = 1) (cbind (rd_addr img i 0) (\<lambda>a. check4_scan img i a [0..<num_dirent] False False))))"

definition check5 :: "image \<Rightarrow> superblock \<Rightarrow> unit chk" where
  "check5 img sb = cfor [0..<num_inodes sb] (\<lambda>i. cbind (rd_type img i) (\<lambda>t.
     cwhen (t \<noteq> 0)
       (cseq (cfor [0..<NDIRECT + 1] (\<lambda>j. cbind (rd_addr img i j) (\<lambda>a.
                cwhen (a \<noteq> 0) (cbind (rd_bit img sb (unat a)) (\<lambda>b.
                  cerr (\<not> b) ''address used by inode but marked free in bitmap.'')))))
             (cbind (rd_addr img i NDIRECT) (\<lambda>ia.
                cfor [0..<NINDIRECT] (\<lambda>j. cbind (rd_ind img ia j) (\<lambda>a. cbind (rd_bit img sb (unat a)) (\<lambda>b.
                  cerr (\<not> b) ''address used by inode but marked free in bitmap.''))))))))"

text \<open>The loop variable of the sixth test is an \<open>int\<close>.\<close>

definition check6 :: "image \<Rightarrow> superblock \<Rightarrow> unit chk" where
  "check6 img sb = cfor [29..<unat (sb_nblocks sb)] (\<lambda>i.
     cdefined (i < 2 ^ 31)
     (cbind (rd_bit img sb i) (\<lambda>b.
     cwhen b
     (cbind (cany [0..<num_inodes sb] (\<lambda>j.
       cbind (cany [0..<NDIRECT + 1] (\<lambda>k. cbind (rd_addr img j k) (\<lambda>a. Inr (a = of_nat i)))) (\<lambda>u.
       cbind (rd_addr img j NDIRECT) (\<lambda>ia.
       cbind (cany [0..<NINDIRECT] (\<lambda>k. cbind (rd_ind img ia k) (\<lambda>a. Inr (a = of_nat i)))) (\<lambda>v.
       Inr (u \<or> v)))))) (\<lambda>isUsed.
     cerr (\<not> isUsed) ''bitmap marks block in use but it is not in use.'')))))"

definition check7 :: "image \<Rightarrow> superblock \<Rightarrow> unit chk" where
  "check7 img sb = cfor [0..<num_inodes sb] (\<lambda>i. cbind (rd_type img i) (\<lambda>t.
     cwhen (t \<noteq> 0)
     (cfor [0..<NDIRECT] (\<lambda>j. cbind (rd_addr img i j) (\<lambda>a.
       cwhen (a \<noteq> 0)
       (cfor [i..<unat (nb_inodes sb)] (\<lambda>k. cfor [0..<NDIRECT] (\<lambda>h.
         cwhen (k \<noteq> i \<or> h \<noteq> j)
         (cbind (rd_addr img k h) (\<lambda>b.
           cerr (a = b) ''direct address used more than once.''))))))))))"

definition check8 :: "image \<Rightarrow> superblock \<Rightarrow> unit chk" where
  "check8 img sb = cfor [0..<num_inodes sb] (\<lambda>i. cbind (rd_type img i) (\<lambda>t.
     cwhen (t \<noteq> 0) (cbind (rd_size img i) (\<lambda>sz.
     cwhen (sz \<noteq> 0)
     (cbind (csum [0..<NDIRECT] (\<lambda>j. cbind (rd_addr img i j) (\<lambda>a. Inr (if a \<noteq> 0 then 1 else 0)))) (\<lambda>n.
     cbind (rd_addr img i NDIRECT) (\<lambda>ia.
     cbind (if ia \<noteq> 0 then csum [0..<NINDIRECT] (\<lambda>j. cbind (rd_ind img ia j) (\<lambda>a. Inr (if a \<noteq> 0 then 1 else 0)))
            else Inr 0) (\<lambda>m.
     cerr (sz > of_int ((n + m) * int BSIZE) \<or> sz < of_int ((n + m - 1) * int BSIZE))
       ''incorrect file size in inode.''))))))))"

text \<open>The array \<open>dir_inodes\<close>, which has \<open>sb->ninodes\<close> elements.\<close>

primrec dir_inodes :: "image \<Rightarrow> superblock \<Rightarrow> nat list \<Rightarrow> nat list \<Rightarrow> nat list chk" where
  "dir_inodes img sb [] ds = Inr ds"
| "dir_inodes img sb (i # is) ds =
     cbind (rd_type img i) (\<lambda>t.
     if t = 1 then
       if length ds < unat (sb_ninodes sb) then dir_inodes img sb is (ds @ [i]) else Inl Undefined
     else dir_inodes img sb is ds)"

definition check9 :: "image \<Rightarrow> superblock \<Rightarrow> nat list \<Rightarrow> unit chk" where
  "check9 img sb ds = cfor [0..<num_inodes sb] (\<lambda>i. cbind (rd_type img i) (\<lambda>t.
     cwhen (t \<noteq> 0)
     (cbind (cany ds (\<lambda>d.
       cbind (cany [0..<NDIRECT] (\<lambda>k. cbind (rd_addr img d k) (\<lambda>a.
         cany [0..<num_dirent] (\<lambda>h. cbind (rd_inum img a h) (\<lambda>n. Inr (n = of_nat i)))))) (\<lambda>u.
       cbind (rd_addr img d NDIRECT) (\<lambda>ia.
       cany [0..<NINDIRECT] (\<lambda>k. cbind (rd_ind img ia k) (\<lambda>a.
         cbind (cany [0..<num_dirent] (\<lambda>h. cbind (rd_inum img a h) (\<lambda>n. Inr (n = of_nat i)))) (\<lambda>v.
         Inr (u \<or> v)))))))) (\<lambda>isReferred.
     cerr (\<not> isReferred) ''inode marked used but not found in a directory.''))))"

definition check10_block :: "image \<Rightarrow> u32 \<Rightarrow> unit chk" where
  "check10_block img a = cfor [0..<num_dirent] (\<lambda>h. cbind (rd_inum img a h) (\<lambda>n.
     cwhen (n > 0) (cbind (rd_type img (unat n)) (\<lambda>t.
       cerr (t = 0) ''inode referred to in directory but marked free.''))))"

definition check10 :: "image \<Rightarrow> nat list \<Rightarrow> unit chk" where
  "check10 img ds = cfor ds (\<lambda>d.
     cseq (cfor [0..<NDIRECT] (\<lambda>k. cbind (rd_addr img d k) (check10_block img)))
          (cbind (rd_addr img d NDIRECT) (\<lambda>ia.
             cfor [0..<NINDIRECT] (\<lambda>k. cbind (rd_ind img ia k) (check10_block img)))))"

text \<open>The counting loops of the last tests: entries from slot \<open>lo\<close> on that name \<open>i\<close>.\<close>

definition count_block :: "image \<Rightarrow> nat \<Rightarrow> nat \<Rightarrow> u32 \<Rightarrow> int chk" where
  "count_block img lo i a = csum [lo..<num_dirent] (\<lambda>h. cbind (rd_inum img a h) (\<lambda>n.
     Inr (if unat n = i then 1 else 0)))"

definition count_links :: "image \<Rightarrow> nat list \<Rightarrow> nat \<Rightarrow> nat \<Rightarrow> int chk" where
  "count_links img ds lo i = csum ds (\<lambda>d.
     cbind (csum [0..<NDIRECT] (\<lambda>k. cbind (rd_addr img d k) (count_block img lo i))) (\<lambda>n.
     cbind (rd_addr img d NDIRECT) (\<lambda>ia.
     cbind (csum [0..<NINDIRECT] (\<lambda>k. cbind (rd_ind img ia k) (count_block img lo i))) (\<lambda>m.
     Inr (n + m)))))"

definition check11 :: "image \<Rightarrow> superblock \<Rightarrow> nat list \<Rightarrow> unit chk" where
  "check11 img sb ds = cfor [0..<num_inodes sb] (\<lambda>i. cbind (rd_type img i) (\<lambda>t.
     cwhen (t = 2)
     (cbind (count_links img ds 0 i) (\<lambda>count_link.
     cbind (rd_nlink img i) (\<lambda>nl.
     cerr (count_link \<noteq> sint nl) ''bad reference count for file.'')))))"

definition check12 :: "image \<Rightarrow> nat list \<Rightarrow> unit chk" where
  "check12 img ds = cfor [0..<length ds] (\<lambda>i.
     cbind (count_links img ds 2 (ds ! i)) (\<lambda>n.
     cbind (rd_type img (ds ! i)) (\<lambda>t.
     let count_link = (if i = 0 then n + 1 else n) in
     cerr (count_link \<noteq> 1 \<or> count_link \<noteq> sint t) ''directory appears more than once in file system.'')))"

definition check_extra :: "image \<Rightarrow> nat list \<Rightarrow> unit chk" where
  "check_extra img ds = cfor ds (\<lambda>d.
     cbind (cany [0..<NDIRECT] (\<lambda>k. cbind (rd_addr img d k) (\<lambda>a.
       cany [0..<num_dirent] (\<lambda>h. cbind (name_is img a h [46, 46]) (\<lambda>par.
         if par then
           cbind (rd_inum img a h) (\<lambda>p.
           cany [0..<NDIRECT] (\<lambda>j. cbind (rd_addr img (unat p) j) (\<lambda>b.
             cany [0..<num_dirent] (\<lambda>g. cbind (rd_inum img b g) (\<lambda>n. Inr (unat n = d))))))
         else Inr False))))) (\<lambda>foundParent.
     cerr (\<not> foundParent) ''parent directory mismatch''))"

definition xfsck :: "image \<Rightarrow> unit chk" where
  "xfsck img =
     cbind (rd_sb img) (\<lambda>sb.
     cseq (check1 sb) (cseq (check2 img sb) (cseq (check3 img sb) (cseq (check4 img sb)
     (cseq (check5 img sb) (cseq (check6 img sb) (cseq (check7 img sb) (cseq (check8 img sb)
     (cbind (dir_inodes img sb [0..<num_inodes sb] []) (\<lambda>ds.
     cseq (check9 img sb ds) (cseq (check10 img ds) (cseq (check11 img sb ds) (cseq (check12 img ds)
     (check_extra img ds))))))))))))))"

section \<open>What the image says\<close>

definition the_sb :: "image \<Rightarrow> superblock" where
  "the_sb img = \<lparr>sb_size = im32 img 512, sb_nblocks = im32 img 516, sb_ninodes = im32 img 520\<rparr>"

abbreviation ninos :: "image \<Rightarrow> nat" where
  "ninos img \<equiv> num_inodes (the_sb img)"

definition ty :: "image \<Rightarrow> nat \<Rightarrow> u16" where
  "ty img i = im16 img (dino i)"

definition ia :: "image \<Rightarrow> nat \<Rightarrow> nat \<Rightarrow> u32" where
  "ia img i j = im32 img (dino i + 12 + 4 * j)"

definition ind :: "image \<Rightarrow> u32 \<Rightarrow> nat \<Rightarrow> u32" where
  "ind img a k = im32 img (blk a + 4 * k)"

definition inum_at :: "image \<Rightarrow> u32 \<Rightarrow> nat \<Rightarrow> nat" where
  "inum_at img a h = unat (im16 img (blk a + DIRENT_SIZE * h))"

definition named :: "image \<Rightarrow> u32 \<Rightarrow> nat \<Rightarrow> u8 list \<Rightarrow> bool" where
  "named img a h cs \<longleftrightarrow> map (\<lambda>k. ibyte img (blk a + DIRENT_SIZE * h + 2 + k)) [0..<Suc (length cs)] = cs @ [0]"

definition marked :: "image \<Rightarrow> nat \<Rightarrow> bool" where
  "marked img b \<longleftrightarrow> bit (ibyte img (bitmap_at (the_sb img) + b div 8)) (b mod 8)"

text \<open>
  The blocks of inode \<open>i\<close>: those its addresses name, its indirect block, and those the
  indirect block names. \<open>indirects\<close> are the words the checker takes for the last: with
  no indirect block it reads block 0.
\<close>

definition addrs_of :: "image \<Rightarrow> nat \<Rightarrow> u32 list" where
  "addrs_of img i = map (ia img i) [0..<NDIRECT + 1]"

definition indirects :: "image \<Rightarrow> nat \<Rightarrow> u32 list" where
  "indirects img i = map (ind img (ia img i NDIRECT)) [0..<NINDIRECT]"

definition blocks_of :: "image \<Rightarrow> nat \<Rightarrow> u32 set" where
  "blocks_of img i = (set (addrs_of img i) \<union> (if ia img i NDIRECT = 0 then {} else set (indirects img i))) - {0}"

definition data_blocks :: "image \<Rightarrow> nat \<Rightarrow> u32 list" where
  "data_blocks img i = filter (\<lambda>a. a \<noteq> 0) (map (ia img i) [0..<NDIRECT] @ (if ia img i NDIRECT = 0 then [] else indirects img i))"

definition dir_blocks :: "image \<Rightarrow> nat \<Rightarrow> u32 list" where
  "dir_blocks img d = map (ia img d) [0..<NDIRECT] @ indirects img d"

definition dirs :: "image \<Rightarrow> nat list" where
  "dirs img = filter (\<lambda>i. ty img i = T_DIR) [0..<ninos img]"

text \<open>The inode numbers in the slots from \<open>lo\<close> on of the blocks of all directories.\<close>

definition links_from :: "nat \<Rightarrow> image \<Rightarrow> nat list" where
  "links_from lo img = [inum_at img a h. d \<leftarrow> dirs img, a \<leftarrow> dir_blocks img d, h \<leftarrow> [lo..<num_dirent]]"

abbreviation entry_names :: "image \<Rightarrow> nat \<Rightarrow> nat \<Rightarrow> bool" where
  "entry_names img d i \<equiv> \<exists>a \<in> set (dir_blocks img d). \<exists>h < num_dirent. inum_at img a h = i"

definition consistent :: "image \<Rightarrow> bool" where
  "consistent img \<longleftrightarrow> (let sb = the_sb img; used = (\<lambda>i. i < ninos img \<and> ty img i \<noteq> 0) in
     nb_total sb \<le> sb_size sb
     \<and> (\<forall>i. used i \<longrightarrow> ty img i \<in> {T_DIR, T_FILE, T_DEV})
     \<and> (\<forall>i. used i \<longrightarrow> (\<forall>b \<in> blocks_of img i. ib_data sb \<le> b \<and> b \<le> ib_end sb))
     \<and> (\<forall>d \<in> set (dirs img). (\<exists>h < num_dirent. named img (ia img d 0) h [46])
          \<and> (\<forall>h < num_dirent. named img (ia img d 0) h [46] \<longrightarrow> inum_at img (ia img d 0) h = d)
          \<and> (\<exists>h < num_dirent. named img (ia img d 0) h [46, 46]))
     \<and> (\<forall>i. used i \<longrightarrow> (\<forall>b \<in> blocks_of img i. marked img (unat b)) \<and> (\<forall>b \<in> set (indirects img i). marked img (unat b)))
     \<and> (\<forall>b. 29 \<le> b \<longrightarrow> b < unat (sb_nblocks sb) \<longrightarrow> marked img b \<longrightarrow>
          (\<exists>i < ninos img. of_nat b \<in> set (addrs_of img i) \<union> set (indirects img i)))
     \<and> (\<forall>i j k h. used i \<longrightarrow> j < NDIRECT \<longrightarrow> ia img i j \<noteq> 0 \<longrightarrow> i \<le> k \<longrightarrow> k < unat (nb_inodes sb) \<longrightarrow> h < NDIRECT \<longrightarrow>
          (k, h) \<noteq> (i, j) \<longrightarrow> ia img k h \<noteq> ia img i j)
     \<and> (\<forall>i. used i \<longrightarrow> im32 img (dino i + 8) = 0 \<or> unat (im32 img (dino i + 8)) \<le> 512 * length (data_blocks img i)
          \<and> 512 * length (data_blocks img i) \<le> unat (im32 img (dino i + 8)) + 512)
     \<and> (\<forall>i. used i \<longrightarrow> (\<exists>d \<in> set (dirs img). entry_names img d (i mod 65536)))
     \<and> (\<forall>d \<in> set (dirs img). \<forall>i. entry_names img d i \<longrightarrow> i \<noteq> 0 \<longrightarrow> ty img i \<noteq> 0)
     \<and> (\<forall>i. used i \<longrightarrow> ty img i = T_FILE \<longrightarrow> int (count_list (links_from 0 img) i) = sint (im16 img (dino i + 6)))
     \<and> (\<forall>d \<in> set (dirs img). count_list (links_from 2 img) d = (if d = hd (dirs img) then 0 else 1))
     \<and> (\<forall>d \<in> set (dirs img). \<exists>k < NDIRECT. \<exists>h < num_dirent. named img (ia img d k) h [46, 46]
          \<and> (\<exists>j < NDIRECT. \<exists>g < num_dirent. inum_at img (ia img (inum_at img (ia img d k) h) j) g = d)))"

text \<open>
  Everything the checker reads lies in the image: the superblock, the inodes, the
  blocks that inodes and indirect blocks name and their bits, and the inodes that
  directories name.
\<close>

definition in_image :: "image \<Rightarrow> u32 \<Rightarrow> bool" where
  "in_image img a \<longleftrightarrow> blk a + BSIZE \<le> isize img \<and> bitmap_at (the_sb img) + unat a div 8 < isize img"

definition fits :: "image \<Rightarrow> bool" where
  "fits img \<longleftrightarrow>
     524 \<le> isize img \<and> unat (sb_nblocks (the_sb img)) \<le> 2 ^ 31
     \<and> bitmap_at (the_sb img) + unat (sb_nblocks (the_sb img)) div 8 < isize img
     \<and> unat (nb_inodes (the_sb img)) \<le> ninos img \<and> length (dirs img) \<le> unat (sb_ninodes (the_sb img))
     \<and> (\<forall>i < ninos img. dino (Suc i) \<le> isize img \<and> (\<forall>a \<in> set (addrs_of img i) \<union> set (indirects img i). in_image img a))
     \<and> (\<forall>d \<in> set (dirs img). \<forall>a \<in> set (dir_blocks img d). \<forall>h < num_dirent. inum_at img a h < ninos img)"

section \<open>Rules for the checks\<close>

text \<open>
  \<open>gives F m v\<close>: when \<open>m\<close> returns, its value is \<open>v\<close>; under \<open>F\<close> it returns. \<open>passes F m P\<close>:
  when \<open>m\<close> returns, \<open>P\<close> holds; under \<open>F\<close> and \<open>P\<close> it returns.
\<close>

definition gives :: "bool \<Rightarrow> 'a chk \<Rightarrow> 'a \<Rightarrow> bool" where
  "gives F m v \<longleftrightarrow> (\<forall>x. m = Inr x \<longrightarrow> x = v) \<and> (F \<longrightarrow> m = Inr v)"

definition passes :: "bool \<Rightarrow> unit chk \<Rightarrow> bool \<Rightarrow> bool" where
  "passes F m P \<longleftrightarrow> (m = Inr () \<longrightarrow> P) \<and> (F \<longrightarrow> P \<longrightarrow> m = Inr ())"

named_theorems chk \<open>rules that follow the structure of a check\<close>

lemma gives_iff [simp]: "gives F (Inl e) v \<longleftrightarrow> \<not> F" "gives F (Inr x) v \<longleftrightarrow> x = v"
  by (auto simp: gives_def)

lemma passes_iff [simp]: "passes F (Inl e) P \<longleftrightarrow> (F \<longrightarrow> \<not> P)" "passes F (Inr ()) P \<longleftrightarrow> P"
  by (auto simp: passes_def)

lemma gives_Inr [chk]: "gives F (Inr v) v"
  by simp

lemma gives_bind [chk]: "gives F m v \<Longrightarrow> gives F (f v) w \<Longrightarrow> gives F (cbind m f) w"
  by (cases m) (simp_all add: cbind_def)

lemma gives_if [chk]: "(b \<Longrightarrow> gives F m v) \<Longrightarrow> (\<not> b \<Longrightarrow> gives F n w) \<Longrightarrow> gives F (if b then m else n) (if b then v else w)"
  by simp

lemma gives_cany [chk]: "(\<And>x. x \<in> set xs \<Longrightarrow> gives F (f x) (P x)) \<Longrightarrow> gives F (cany xs f) (\<exists>x \<in> set xs. P x)"
proof (induction xs)
  case (Cons x xs)
  have "gives F (f x) (P x)" "gives F (cany xs f) (\<exists>x \<in> set xs. P x)"
    using Cons by simp_all
  then show ?case by (cases "f x"; cases "cany xs f") (auto simp: cbind_def)
qed simp

lemma gives_csum [chk]: "(\<And>x. x \<in> set xs \<Longrightarrow> gives F (f x) (v x)) \<Longrightarrow> gives F (csum xs f) (sum_list (map v xs))"
proof (induction xs)
  case (Cons x xs)
  have "gives F (f x) (v x)" "gives F (csum xs f) (sum_list (map v xs))"
    using Cons by simp_all
  then show ?case by (cases "f x"; cases "csum xs f") (auto simp: cbind_def)
qed simp

lemma passes_Inr [chk]: "passes F (Inr ()) True"
  by simp

lemma passes_cerr [chk]: "passes F (cerr b e) (\<not> b)"
  by (simp add: cerr_def)

lemma passes_cdefined [chk]: "(F \<Longrightarrow> b) \<Longrightarrow> passes F m P \<Longrightarrow> passes F (cdefined b m) P"
  by (auto simp: cdefined_def)

lemma passes_cwhen [chk]: "(b \<Longrightarrow> passes F m P) \<Longrightarrow> passes F (cwhen b m) (b \<longrightarrow> P)"
  by (simp add: cwhen_def)

lemma passes_bind [chk]: "gives F m v \<Longrightarrow> passes F (f v) P \<Longrightarrow> passes F (cbind m f) P"
  by (cases m) (simp_all add: cbind_def)

lemma passes_seq [chk]: "passes F m P \<Longrightarrow> (P \<Longrightarrow> passes F n Q) \<Longrightarrow> passes F (cseq m n) (P \<and> Q)"
  by (cases m) (auto simp: cbind_def cseq_def)

lemma passes_if [chk]: "(b \<Longrightarrow> passes F m P) \<Longrightarrow> (\<not> b \<Longrightarrow> passes F n Q) \<Longrightarrow> passes F (if b then m else n) (if b then P else Q)"
  by simp

lemma passes_cfor [chk]: "(\<And>x. x \<in> set xs \<Longrightarrow> passes F (f x) (P x)) \<Longrightarrow> passes F (cfor xs f) (\<forall>x \<in> set xs. P x)"
proof (induction xs)
  case (Cons x xs)
  have "passes F (f x) (P x)" "passes F (cfor xs f) (\<forall>x \<in> set xs. P x)"
    using Cons by simp_all
  then show ?case by (cases "f x"; cases "cfor xs f") (auto simp: cbind_def)
qed simp

lemma gives_cong: "gives F m v \<Longrightarrow> v = w \<Longrightarrow> gives F m w"
  by simp

lemma passes_cong: "passes F m P \<Longrightarrow> (P \<longleftrightarrow> Q) \<Longrightarrow> passes F m Q"
  by simp

subsection \<open>Reading the image\<close>

lemmas fs_consts = BSIZE_def NDIRECT_def NINDIRECT_def DINODE_SIZE_def IPB_def BPB_def DIRSIZ_def DIRENT_SIZE_def
  T_DIR_def T_FILE_def T_DEV_def num_dirent_def

lemma gives_rd:
  "(F \<Longrightarrow> a < isize img) \<Longrightarrow> gives F (rd8 img a) (ibyte img a)"
  "(F \<Longrightarrow> a + 1 < isize img) \<Longrightarrow> gives F (rd16 img a) (im16 img a)"
  "(F \<Longrightarrow> a + 3 < isize img) \<Longrightarrow> gives F (rd32 img a) (im32 img a)"
  by (auto simp: rd8_def rd16_def rd32_def)

lemma fits_inode: "fits img \<Longrightarrow> i < ninos img \<Longrightarrow> dino i + 64 \<le> isize img"
  by (auto simp: fits_def dino_def fs_consts)

lemma gives_sb [chk]: "gives (fits img) (rd_sb img) (the_sb img)"
  unfolding rd_sb_def the_sb_def fs_consts
  by (rule gives_bind [OF gives_rd(3)], simp add: fits_def, rule gives_bind [OF gives_rd(3)], simp add: fits_def,
      rule gives_bind [OF gives_rd(3)], simp add: fits_def, simp)

lemma gives_inode [chk]:
  assumes "fits img \<Longrightarrow> i < ninos img"
  shows "gives (fits img) (rd_type img i) (ty img i)" "j \<le> NDIRECT \<Longrightarrow> gives (fits img) (rd_addr img i j) (ia img i j)"
    "gives (fits img) (rd_size img i) (im32 img (dino i + 8))" "gives (fits img) (rd_nlink img i) (im16 img (dino i + 6))"
  using fits_inode [of img i] assms unfolding rd_type_def ty_def rd_addr_def ia_def rd_size_def rd_nlink_def fs_consts
  by (auto intro!: gives_rd)

lemma fits_block: "fits img \<Longrightarrow> i < ninos img \<Longrightarrow> a \<in> set (addrs_of img i) \<union> set (indirects img i) \<Longrightarrow> in_image img a"
  by (auto simp: fits_def)

lemma gives_block:
  assumes "fits img \<Longrightarrow> in_image img a"
  shows "k < NINDIRECT \<Longrightarrow> gives (fits img) (rd_ind img a k) (ind img a k)"
    "h < num_dirent \<Longrightarrow> gives (fits img) (rd_inum img a h) (of_nat (inum_at img a h))"
    "gives (fits img) (rd_bit img (the_sb img) (unat a)) (marked img (unat a))"
proof -
  show "gives (fits img) (rd_ind img a k) (ind img a k)" if "k < NINDIRECT"
    using that assms unfolding rd_ind_def ind_def by (intro gives_rd) (auto simp: in_image_def fs_consts)
  show "gives (fits img) (rd_inum img a h) (of_nat (inum_at img a h))" if "h < num_dirent"
    using that assms unfolding rd_inum_def inum_at_def by (simp, intro gives_rd) (auto simp: in_image_def fs_consts)
  show "gives (fits img) (rd_bit img (the_sb img) (unat a)) (marked img (unat a))"
    unfolding rd_bit_def marked_def using assms by (intro gives_bind [OF gives_rd(1)]) (auto simp: in_image_def)
qed

lemma inum_at_less: "inum_at img a h < 65536"
  unfolding inum_at_def using unsigned_less [of "im16 img (blk a + DIRENT_SIZE * h)"] by simp

lemma unat_inum [simp]: "unat (of_nat (inum_at img a h) :: u16) = inum_at img a h"
  by (simp add: inum_at_def)

lemma gives_cstreq:
  assumes "F \<Longrightarrow> a + length cs < isize img"
  shows "gives F (cstreq img a cs) (map (\<lambda>k. ibyte img (a + k)) [0..<Suc (length cs)] = cs @ [0])"
  using assms
proof (induction cs arbitrary: a)
  case Nil
  then show ?case by (auto intro!: gives_bind [OF gives_rd(1)])
next
  case (Cons c cs)
  have eq: "map (\<lambda>k. ibyte img (a + k)) [0..<Suc (length (c # cs))] = (c # cs) @ [0]
      \<longleftrightarrow> ibyte img a = c \<and> map (\<lambda>k. ibyte img (a + 1 + k)) [0..<Suc (length cs)] = cs @ [0]"
    by (subst upt_conv_Cons) (simp_all add: map_Suc_upt [symmetric] comp_def del: upt_Suc)
  have "gives F (cstreq img (a + 1) cs) (map (\<lambda>k. ibyte img (a + 1 + k)) [0..<Suc (length cs)] = cs @ [0])"
    using Cons.prems by (intro Cons.IH) simp
  then show ?case
    unfolding eq using Cons.prems by (simp del: upt_Suc) (rule gives_bind [OF gives_rd(1)], auto simp del: upt_Suc)
qed

lemma gives_name:
  assumes "fits img \<Longrightarrow> in_image img a" "h < num_dirent" "length cs < 14"
  shows "gives (fits img) (name_is img a h cs) (named img a h cs)"
  unfolding name_is_def named_def
  using assms by (intro gives_cstreq) (auto simp: in_image_def fs_consts)

subsection \<open>The checks\<close>

abbreviation used :: "image \<Rightarrow> nat \<Rightarrow> bool" where
  "used img i \<equiv> i < ninos img \<and> ty img i \<noteq> 0"

lemma check1_passes: "passes (fits img) (check1 (the_sb img)) (nb_total (the_sb img) \<le> sb_size (the_sb img))"
  unfolding check1_def by (rule passes_cong, rule passes_cerr) auto

lemma check2_passes: "passes (fits img) (check2 img (the_sb img)) (\<forall>i. used img i \<longrightarrow> ty img i \<in> {T_DIR, T_FILE, T_DEV})"
  unfolding check2_def by (rule passes_cong, (rule chk | simp; fail)+, auto simp: fs_consts)

lemma in_addrs: "j \<le> NDIRECT \<Longrightarrow> ia img i j \<in> set (addrs_of img i)"
  unfolding addrs_of_def set_map by (intro imageI) auto

lemma in_indirects: "k < NINDIRECT \<Longrightarrow> ind img (ia img i NDIRECT) k \<in> set (indirects img i)"
  unfolding indirects_def by auto

lemma fits_addr: "fits img \<Longrightarrow> i < ninos img \<Longrightarrow> j \<le> NDIRECT \<Longrightarrow> in_image img (ia img i j)"
  using fits_block [of img i "ia img i j"] in_addrs [of j img i] by simp

lemma fits_ind: "fits img \<Longrightarrow> i < ninos img \<Longrightarrow> k < NINDIRECT \<Longrightarrow> in_image img (ind img (ia img i NDIRECT) k)"
  using fits_block [of img i "ind img (ia img i NDIRECT) k"] in_indirects [of k img i] by simp

lemma gives_ind [chk]:
  assumes "fits img \<Longrightarrow> i < ninos img" "k < NINDIRECT"
  shows "gives (fits img) (rd_ind img (ia img i NDIRECT) k) (ind img (ia img i NDIRECT) k)"
  using assms fits_addr [of img i NDIRECT] by (intro gives_block) simp_all

lemma gives_bits [chk]:
  assumes "fits img \<Longrightarrow> i < ninos img"
  shows "j \<le> NDIRECT \<Longrightarrow> gives (fits img) (rd_bit img (the_sb img) (unat (ia img i j))) (marked img (unat (ia img i j)))"
    "k < NINDIRECT \<Longrightarrow> gives (fits img) (rd_bit img (the_sb img) (unat (ind img (ia img i NDIRECT) k)))
       (marked img (unat (ind img (ia img i NDIRECT) k)))"
  using assms fits_addr [of img i j] fits_ind [of img i k] by (auto intro!: gives_block)

lemma gives_entry [chk]:
  assumes "fits img \<Longrightarrow> i < ninos img" "h < num_dirent"
  shows "j \<le> NDIRECT \<Longrightarrow> gives (fits img) (rd_inum img (ia img i j) h) (of_nat (inum_at img (ia img i j) h))"
    "k < NINDIRECT \<Longrightarrow> gives (fits img) (rd_inum img (ind img (ia img i NDIRECT) k) h)
       (of_nat (inum_at img (ind img (ia img i NDIRECT) k) h))"
    "j \<le> NDIRECT \<Longrightarrow> length cs < 14 \<Longrightarrow> gives (fits img) (name_is img (ia img i j) h cs) (named img (ia img i j) h cs)"
  using assms fits_addr [of img i j] fits_ind [of img i k] by (auto intro!: gives_block gives_name)

lemma blocks_of_iff:
  "(\<forall>b \<in> blocks_of img i. P b) \<longleftrightarrow> (\<forall>j \<in> set [0..<NDIRECT + 1]. ia img i j \<noteq> 0 \<longrightarrow> P (ia img i j))
     \<and> (ia img i NDIRECT \<noteq> 0 \<longrightarrow> (\<forall>k \<in> set [0..<NINDIRECT]. ind img (ia img i NDIRECT) k \<noteq> 0 \<longrightarrow> P (ind img (ia img i NDIRECT) k)))"
  unfolding blocks_of_def addrs_of_def indirects_def by auto

lemma check3_passes:
  "passes (fits img) (check3 img (the_sb img))
     (\<forall>i. used img i \<longrightarrow> (\<forall>b \<in> blocks_of img i. ib_data (the_sb img) \<le> b \<and> b \<le> ib_end (the_sb img)))"
  unfolding check3_def
  by (rule passes_cong, (rule chk | simp; fail)+, unfold blocks_of_iff, auto simp: bad_addr_def not_less less_Suc_eq)

lemma named_excl: "named img a h [46] \<Longrightarrow> \<not> named img a h [46, 46]"
  by (auto simp: named_def)

lemma check4_scan_passes:
  assumes "fits img \<Longrightarrow> i < ninos img" "set js \<subseteq> {..<num_dirent}"
  shows "passes (fits img) (check4_scan img i (ia img i 0) js fs fp)
    ((\<forall>j \<in> set js. named img (ia img i 0) j [46] \<longrightarrow> inum_at img (ia img i 0) j = i)
     \<and> (fs \<or> (\<exists>j \<in> set js. named img (ia img i 0) j [46])) \<and> (fp \<or> (\<exists>j \<in> set js. named img (ia img i 0) j [46, 46])))"
  using assms(2)
proof (induction js arbitrary: fs fp)
  case Nil
  show ?case by (simp, rule passes_cong, rule chk) auto
next
  case (Cons j js)
  have j: "j < num_dirent" using Cons.prems by simp
  show ?case
    unfolding check4_scan.simps
    apply (rule passes_cong)
     apply (rule passes_bind [OF gives_entry(3) [OF assms(1) j]], assumption, simp, simp)
     apply (rule passes_if)
      apply (rule passes_bind [OF gives_entry(1) [OF assms(1) j]], assumption, simp)
      apply (rule passes_seq, rule passes_cerr, rule Cons.IH)
    using Cons.prems apply simp
     apply (rule passes_bind [OF gives_entry(3) [OF assms(1) j]], assumption, simp, simp)
     apply (rule Cons.IH)
    using Cons.prems apply simp
    using named_excl [of img "ia img i 0" j] by auto
qed

lemma check4_passes:
  "passes (fits img) (check4 img (the_sb img)) (\<forall>d \<in> set (dirs img). (\<exists>h < num_dirent. named img (ia img d 0) h [46])
          \<and> (\<forall>h < num_dirent. named img (ia img d 0) h [46] \<longrightarrow> inum_at img (ia img d 0) h = d)
          \<and> (\<exists>h < num_dirent. named img (ia img d 0) h [46, 46]))"
  unfolding check4_def
  by (rule passes_cong, (rule chk check4_scan_passes | simp add: subset_iff; fail)+, auto simp: T_DIR_def dirs_def atLeast0LessThan)

lemma check5_passes:
  "passes (fits img) (check5 img (the_sb img))
     (\<forall>i. used img i \<longrightarrow> (\<forall>b \<in> blocks_of img i. marked img (unat b)) \<and> (\<forall>b \<in> set (indirects img i). marked img (unat b)))"
  unfolding check5_def
  by (rule passes_cong, (rule chk | simp; fail | auto; fail)+, unfold blocks_of_iff, auto simp: indirects_def)

lemma gives_block_bit:
  assumes "b < unat (sb_nblocks (the_sb img))"
  shows "gives (fits img) (rd_bit img (the_sb img) b) (marked img b)"
  unfolding rd_bit_def marked_def
proof (rule gives_bind [OF gives_rd(1)])
  show "bitmap_at (the_sb img) + b div 8 < isize img" if "fits img"
    using that assms div_le_mono [of b "unat (sb_nblocks (the_sb img))" 8] by (simp add: fits_def)
qed simp

lemma in_lists_iff:
  "x \<in> set (addrs_of img i) \<longleftrightarrow> (\<exists>k \<in> set [0..<NDIRECT + 1]. ia img i k = x)"
  "x \<in> set (indirects img i) \<longleftrightarrow> (\<exists>k \<in> set [0..<NINDIRECT]. ind img (ia img i NDIRECT) k = x)"
  unfolding addrs_of_def indirects_def by auto

lemma check6_passes:
  "passes (fits img) (check6 img (the_sb img))
     (\<forall>b. 29 \<le> b \<longrightarrow> b < unat (sb_nblocks (the_sb img)) \<longrightarrow> marked img b \<longrightarrow>
          (\<exists>i < ninos img. of_nat b \<in> set (addrs_of img i) \<union> set (indirects img i)))"
  unfolding check6_def
  by (rule passes_cong, (rule chk gives_block_bit | simp; fail | auto; fail | simp add: fits_def; fail)+,
      simp only: Un_iff in_lists_iff Ball_def Bex_def set_upt atLeastLessThan_iff le0 simp_thms, blast)

lemma fits_nb: "fits img \<Longrightarrow> k < unat (nb_inodes (the_sb img)) \<Longrightarrow> k < ninos img"
  by (simp add: fits_def)

lemma check7_passes:
  "passes (fits img) (check7 img (the_sb img))
     (\<forall>i j k h. used img i \<longrightarrow> j < NDIRECT \<longrightarrow> ia img i j \<noteq> 0 \<longrightarrow> i \<le> k \<longrightarrow> k < unat (nb_inodes (the_sb img)) \<longrightarrow> h < NDIRECT \<longrightarrow>
          (k, h) \<noteq> (i, j) \<longrightarrow> ia img k h \<noteq> ia img i j)"
proof (rule passes_cong)
  let ?P = "\<forall>i \<in> set [0..<ninos img]. ty img i \<noteq> 0 \<longrightarrow> (\<forall>j \<in> set [0..<NDIRECT]. ia img i j \<noteq> 0 \<longrightarrow>
    (\<forall>k \<in> set [i..<unat (nb_inodes (the_sb img))]. \<forall>h \<in> set [0..<NDIRECT]. k \<noteq> i \<or> h \<noteq> j \<longrightarrow> ia img i j \<noteq> ia img k h))"
  show "passes (fits img) (check7 img (the_sb img)) ?P"
    unfolding check7_def by (rule chk | simp; fail | simp add: fits_nb; fail)+
  let ?Q = "\<forall>i j k h. used img i \<longrightarrow> j < NDIRECT \<longrightarrow> ia img i j \<noteq> 0 \<longrightarrow> i \<le> k \<longrightarrow>
      k < unat (nb_inodes (the_sb img)) \<longrightarrow> h < NDIRECT \<longrightarrow> (k, h) \<noteq> (i, j) \<longrightarrow> ia img k h \<noteq> ia img i j"
  show "?P \<longleftrightarrow> ?Q"
  proof
    assume P: ?P
    show ?Q
    proof (intro allI impI)
      fix i j k h
      assume "used img i" "j < NDIRECT" "ia img i j \<noteq> 0" "i \<le> k" "k < unat (nb_inodes (the_sb img))" "h < NDIRECT" "(k, h) \<noteq> (i, j)"
      then show "ia img k h \<noteq> ia img i j" using P [rule_format, of i j k h] by auto
    qed
  next
    assume Q: ?Q
    show ?P
    proof (intro ballI impI)
      fix i j k h
      assume "i \<in> set [0..<ninos img]" "ty img i \<noteq> 0" "j \<in> set [0..<NDIRECT]" "ia img i j \<noteq> 0"
        "k \<in> set [i..<unat (nb_inodes (the_sb img))]" "h \<in> set [0..<NDIRECT]" "k \<noteq> i \<or> h \<noteq> j"
      then show "ia img i j \<noteq> ia img k h" using Q [rule_format, of i j k h] by auto
    qed
  qed
qed

lemma sum_flags: "(\<Sum>x \<leftarrow> xs. if P (f x) then 1 else 0) = int (length (filter P (map f xs)))"
  by (induction xs) auto

lemma size_ok:
  fixes sz :: u32
  assumes "sz \<noteq> 0" "L \<le> 140"
  shows "\<not> (sz > of_int (int L * int BSIZE) \<or> sz < of_int ((int L - 1) * int BSIZE))
     \<longleftrightarrow> unat sz \<le> 512 * L \<and> 512 * L \<le> unat sz + 512"
proof (cases L)
  case 0
  then show ?thesis using assms(1) by (simp add: word_less_nat_alt unat_gt_0)
next
  case (Suc l)
  have e: "of_int (int L * int BSIZE) = (of_nat (512 * L) :: u32)" "of_int ((int L - 1) * int BSIZE) = (of_nat (512 * l) :: u32)"
    by (simp_all add: Suc BSIZE_def mult.commute algebra_simps)
  have small: "n < 2 ^ 32 \<Longrightarrow> unat (of_nat n :: u32) = n" for n
    by (simp add: unat_of_nat)
  have u: "unat (of_nat (512 * L) :: u32) = 512 * L" "unat (of_nat (512 * l) :: u32) = 512 * l"
    using assms(2) Suc small [of "512 * L"] small [of "512 * l"] by auto
  show ?thesis
    unfolding e word_less_nat_alt u using Suc by auto
qed

lemma length_data_blocks:
  "length (data_blocks img i) = length (filter (\<lambda>a. a \<noteq> 0) (map (ia img i) [0..<NDIRECT]))
     + (if ia img i NDIRECT \<noteq> 0 then length (filter (\<lambda>a. a \<noteq> 0) (indirects img i)) else 0)"
  "length (data_blocks img i) \<le> 140"
proof -
  show e: "length (data_blocks img i) = length (filter (\<lambda>a. a \<noteq> 0) (map (ia img i) [0..<NDIRECT]))
     + (if ia img i NDIRECT \<noteq> 0 then length (filter (\<lambda>a. a \<noteq> 0) (indirects img i)) else 0)"
    by (simp add: data_blocks_def)
  have "length (filter (\<lambda>a. a \<noteq> 0) (map (ia img i) [0..<NDIRECT])) \<le> 12" "length (filter (\<lambda>a. a \<noteq> 0) (indirects img i)) \<le> 128"
    using length_filter_le [of "\<lambda>a. a \<noteq> 0" "map (ia img i) [0..<NDIRECT]"] length_filter_le [of "\<lambda>a. a \<noteq> 0" "indirects img i"]
    by (simp_all add: indirects_def fs_consts)
  then show "length (data_blocks img i) \<le> 140"
    unfolding e by simp
qed

lemma check8_passes:
  "passes (fits img) (check8 img (the_sb img))
     (\<forall>i. used img i \<longrightarrow> im32 img (dino i + 8) = 0 \<or> unat (im32 img (dino i + 8)) \<le> 512 * length (data_blocks img i)
          \<and> 512 * length (data_blocks img i) \<le> unat (im32 img (dino i + 8)) + 512)"
proof (rule passes_cong)
  let ?n = "\<lambda>i. (\<Sum>j \<leftarrow> [0..<NDIRECT]. if ia img i j \<noteq> 0 then 1 else 0) +
    (if ia img i NDIRECT \<noteq> 0 then \<Sum>j \<leftarrow> [0..<NINDIRECT]. if ind img (ia img i NDIRECT) j \<noteq> 0 then 1 else 0 else 0) :: int"
  let ?P = "\<forall>i \<in> set [0..<ninos img]. ty img i \<noteq> 0 \<longrightarrow> im32 img (dino i + 8) \<noteq> 0 \<longrightarrow>
    \<not> (im32 img (dino i + 8) > of_int (?n i * int BSIZE) \<or> im32 img (dino i + 8) < of_int ((?n i - 1) * int BSIZE))"
  show "passes (fits img) (check8 img (the_sb img)) ?P"
    unfolding check8_def by (rule chk | simp; fail)+
  have n: "?n i = int (length (data_blocks img i))" for i
    unfolding sum_flags [where P = "\<lambda>a. a \<noteq> 0"] length_data_blocks(1) indirects_def by simp
  show "?P \<longleftrightarrow> (\<forall>i. used img i \<longrightarrow> im32 img (dino i + 8) = 0 \<or> unat (im32 img (dino i + 8)) \<le> 512 * length (data_blocks img i)
          \<and> 512 * length (data_blocks img i) \<le> unat (im32 img (dino i + 8)) + 512)"
    unfolding n using size_ok [OF _ length_data_blocks(2)] by (auto simp: Ball_def)
qed

lemma dir_inodes_gives:
  assumes "fits img \<Longrightarrow> \<forall>i \<in> set is. i < ninos img"
    and "fits img \<Longrightarrow> length ds + length (filter (\<lambda>i. ty img i = 1) is) \<le> unat (sb_ninodes (the_sb img))"
  shows "gives (fits img) (dir_inodes img (the_sb img) is ds) (ds @ filter (\<lambda>i. ty img i = 1) is)"
  using assms
proof (induction "is" arbitrary: ds)
  case (Cons i js)
  have t: "gives (fits img) (rd_type img i) (ty img i)"
    using Cons.prems(1) by (intro gives_inode) simp
  show ?case
  proof (cases "ty img i = 1")
    case True
    have "gives (fits img) (dir_inodes img (the_sb img) js (ds @ [i])) ((ds @ [i]) @ filter (\<lambda>i. ty img i = 1) js)"
      using Cons.prems True by (intro Cons.IH) auto
    then show ?thesis
      using Cons.prems(2) True by (auto intro!: gives_bind [OF t])
  next
    case False
    have "gives (fits img) (dir_inodes img (the_sb img) js ds) (ds @ filter (\<lambda>i. ty img i = 1) js)"
      using Cons.prems False by (intro Cons.IH) auto
    then show ?thesis
      using False by (auto intro!: gives_bind [OF t])
  qed
qed simp

lemma dirs_gives [chk]: "gives (fits img) (dir_inodes img (the_sb img) [0..<ninos img] []) (dirs img)"
  using dir_inodes_gives [of img "[0..<ninos img]" "[]"] by (simp add: dirs_def fits_def T_DIR_def)

lemma dir_less: "d \<in> set (dirs img) \<Longrightarrow> d < ninos img"
  by (simp add: dirs_def)

lemma entry_names_iff:
  "entry_names img d i \<longleftrightarrow> (\<exists>k \<in> set [0..<NDIRECT]. \<exists>h \<in> set [0..<num_dirent]. inum_at img (ia img d k) h = i)
     \<or> (\<exists>k \<in> set [0..<NINDIRECT]. \<exists>h \<in> set [0..<num_dirent]. inum_at img (ind img (ia img d NDIRECT) k) h = i)"
  unfolding dir_blocks_def indirects_def set_append set_map bex_Un bex_simps set_upt atLeast0LessThan
  by (simp only: Bex_def lessThan_iff)

lemma any_or: "(\<exists>k \<in> set [0..<NINDIRECT]. U \<or> V k) \<longleftrightarrow> U \<or> (\<exists>k \<in> set [0..<NINDIRECT]. V k)"
proof -
  have "0 \<in> set [0..<NINDIRECT]" by (simp add: NINDIRECT_def)
  then show ?thesis by blast
qed

lemma all_less_iff: "(\<forall>i \<in> set [0..<n]. P i \<longrightarrow> Q i) \<longleftrightarrow> (\<forall>i. i < n \<and> P i \<longrightarrow> Q i)"
  by auto

lemma word_inum_eq: "(of_nat (inum_at img a h) :: u16) = of_nat i \<longleftrightarrow> inum_at img a h = i mod 65536"
  using inum_at_less [of img a h] by (simp add: word_of_nat_eq_iff take_bit_eq_mod)

lemma check9_passes:
  "passes (fits img) (check9 img (the_sb img) (dirs img))
     (\<forall>i. used img i \<longrightarrow> (\<exists>d \<in> set (dirs img). entry_names img d (i mod 65536)))"
  unfolding check9_def
  by (rule passes_cong, (rule chk | simp add: dir_less; fail)+,
      unfold any_or word_inum_eq entry_names_iff, simp only: all_less_iff not_not)

lemma all_entries_iff:
  "(\<forall>i. entry_names img d i \<longrightarrow> P i) \<longleftrightarrow>
    (\<forall>k \<in> set [0..<NDIRECT]. \<forall>h \<in> set [0..<num_dirent]. P (inum_at img (ia img d k) h))
    \<and> (\<forall>k \<in> set [0..<NINDIRECT]. \<forall>h \<in> set [0..<num_dirent]. P (inum_at img (ind img (ia img d NDIRECT) k) h))"
  unfolding entry_names_iff by blast

lemma fits_entry:
  assumes "d \<in> set (dirs img)" "h < num_dirent" "fits img"
  shows "k < NDIRECT \<Longrightarrow> inum_at img (ia img d k) h < ninos img"
    "k < NINDIRECT \<Longrightarrow> inum_at img (ind img (ia img d NDIRECT) k) h < ninos img"
proof -
  have "\<forall>a \<in> set (dir_blocks img d). inum_at img a h < ninos img"
    using assms by (simp add: fits_def)
  then show "k < NDIRECT \<Longrightarrow> inum_at img (ia img d k) h < ninos img"
    "k < NINDIRECT \<Longrightarrow> inum_at img (ind img (ia img d NDIRECT) k) h < ninos img"
    by (auto simp: dir_blocks_def indirects_def)
qed

lemma word_inum_pos: "(of_nat (inum_at img a h) :: u16) > 0 \<longleftrightarrow> inum_at img a h \<noteq> 0"
  using word_inum_eq [of img a h 0] by (simp add: word_gt_0)

lemma check10_passes:
  "passes (fits img) (check10 img (dirs img))
     (\<forall>d \<in> set (dirs img). \<forall>i. entry_names img d i \<longrightarrow> i \<noteq> 0 \<longrightarrow> ty img i \<noteq> 0)"
  unfolding check10_def check10_block_def
  by (rule passes_cong, (rule chk | simp add: dir_less fits_entry; fail)+,
      unfold word_inum_pos unat_inum all_entries_iff, rule refl)

lemma count_list_concat: "count_list (concat xss) x = (\<Sum>xs \<leftarrow> xss. count_list xs x)"
  by (induction xss) simp_all

lemma count_list_map_sum: "int (count_list (map f xs) x) = (\<Sum>y \<leftarrow> xs. if f y = x then 1 else 0)"
  by (induction xs) auto

lemma int_sum_list: "int (\<Sum>x \<leftarrow> xs. f x) = (\<Sum>x \<leftarrow> xs. int (f x))"
  by (induction xs) auto

lemma count_links_gives [chk]:
  "gives (fits img) (count_links img (dirs img) lo i) (int (count_list (links_from lo img) i))"
proof -
  let ?c = "\<lambda>a. \<Sum>h \<leftarrow> [lo..<num_dirent]. if inum_at img a h = i then 1 else 0 :: int"
  have "int (count_list (links_from lo img) i) = (\<Sum>d \<leftarrow> dirs img. \<Sum>a \<leftarrow> dir_blocks img d. ?c a)"
    unfolding links_from_def
    by (simp add: count_list_concat count_list_map_sum int_sum_list comp_def)
  also have "\<dots> = (\<Sum>d \<leftarrow> dirs img. (\<Sum>k \<leftarrow> [0..<NDIRECT]. ?c (ia img d k))
      + (\<Sum>k \<leftarrow> [0..<NINDIRECT]. ?c (ind img (ia img d NDIRECT) k)))"
    by (simp add: dir_blocks_def indirects_def comp_def)
  finally have "int (count_list (links_from lo img) i) = \<dots>" .
  moreover have "gives (fits img) (count_links img (dirs img) lo i) \<dots>"
    unfolding count_links_def count_block_def
    by (rule gives_cong, (rule chk | simp add: dir_less; fail)+)
  ultimately show ?thesis by simp
qed

lemma check11_passes:
  "passes (fits img) (check11 img (the_sb img) (dirs img))
     (\<forall>i. used img i \<longrightarrow> ty img i = T_FILE \<longrightarrow> int (count_list (links_from 0 img) i) = sint (im16 img (dino i + 6)))"
  unfolding check11_def
  by (rule passes_cong, (rule chk | simp; fail)+, auto simp: T_FILE_def)

lemma dirs_nth_0: "i < length (dirs img) \<Longrightarrow> dirs img ! i = hd (dirs img) \<longleftrightarrow> i = 0"
  using nth_eq_iff_index_eq [of "dirs img" i 0] by (cases "dirs img") (auto simp: dirs_def)

lemma check12_passes:
  "passes (fits img) (check12 img (dirs img))
     (\<forall>d \<in> set (dirs img). count_list (links_from 2 img) d = (if d = hd (dirs img) then 0 else 1))"
proof (rule passes_cong)
  let ?ds = "dirs img"
  let ?n = "\<lambda>i. int (count_list (links_from 2 img) (?ds ! i))"
  let ?P = "\<forall>i \<in> set [0..<length ?ds]. \<not> ((if i = 0 then ?n i + 1 else ?n i) \<noteq> 1
     \<or> (if i = 0 then ?n i + 1 else ?n i) \<noteq> sint (ty img (?ds ! i)))"
  show "passes (fits img) (check12 img ?ds) ?P"
    unfolding check12_def Let_def by (rule chk | simp add: dir_less; fail)+
  have "sint (ty img (?ds ! i)) = 1" if "i < length ?ds" for i
    using nth_mem [OF that] by (simp add: dirs_def T_DIR_def)
  then have "?P \<longleftrightarrow> (\<forall>i < length ?ds. count_list (links_from 2 img) (?ds ! i) = (if i = 0 then 0 else 1))"
    by (auto split: if_splits)
  also have "\<dots> \<longleftrightarrow> (\<forall>i < length ?ds. count_list (links_from 2 img) (?ds ! i) = (if ?ds ! i = hd ?ds then 0 else 1))"
    using dirs_nth_0 by simp
  also have "\<dots> \<longleftrightarrow> (\<forall>d \<in> set ?ds. count_list (links_from 2 img) d = (if d = hd ?ds then 0 else 1))"
    by (simp add: all_set_conv_all_nth)
  finally show "?P \<longleftrightarrow> \<dots>" .
qed

lemma if_and: "(if a then b else False) \<longleftrightarrow> a \<and> b"
  by simp

lemma check_extra_passes:
  "passes (fits img) (check_extra img (dirs img))
     (\<forall>d \<in> set (dirs img). \<exists>k < NDIRECT. \<exists>h < num_dirent. named img (ia img d k) h [46, 46]
          \<and> (\<exists>j < NDIRECT. \<exists>g < num_dirent. inum_at img (ia img (inum_at img (ia img d k) h) j) g = d))"
  unfolding check_extra_def
  by (rule passes_cong, (rule chk | simp add: dir_less fits_entry; fail)+,
      simp only: unat_inum if_and not_not set_upt atLeast0LessThan Bex_def lessThan_iff)


text \<open>
  An image of 40 blocks: inode 1 is the root directory, whose only block is 30. The
  number of bitmap blocks rounds to 0, so block 4, the bitmap, counts as a data block.
\<close>

definition xfsck_example :: image where
  "xfsck_example = \<lparr>isize = 20480, ibyte = (\<lambda>_. 0)(512 := 40, 516 := 36, 520 := 8,
     1088 := 1, 1094 := 1, 1097 := 2, 1100 := 30, 2048 := 0x1F, 2051 := 0x40,
     15360 := 1, 15362 := 46, 15376 := 1, 15378 := 46, 15379 := 46)\<rparr>"

lemma example_sb: "the_sb xfsck_example = \<lparr>sb_size = 40, sb_nblocks = 36, sb_ninodes = 8\<rparr>"
  by (simp add: the_sb_def im32_def xfsck_example_def)

lemma example_geometry:
  "nb_inodes (the_sb xfsck_example) = 1" "nb_bitmap (the_sb xfsck_example) = 0" "nb_total (the_sb xfsck_example) = 40"
  "ib_data (the_sb xfsck_example) = 4" "ib_end (the_sb xfsck_example) = 39" "ninos xfsck_example = 8"
  "bitmap_at (the_sb xfsck_example) = 2048"
  by (simp_all add: example_sb nb_inodes_def nb_bitmap_def nb_total_def ib_data_def ib_bitmap_def ib_inode_def ib_end_def
      num_inodes_def bitmap_at_def roundUp_def fs_consts)

lemma less_8: "(i :: nat) < 8 \<longleftrightarrow> i = 0 \<or> i = 1 \<or> i = 2 \<or> i = 3 \<or> i = 4 \<or> i = 5 \<or> i = 6 \<or> i = 7"
  by auto

lemma example_type: "i < 8 \<Longrightarrow> ty xfsck_example i = (if i = 1 then 1 else 0)"
  by (auto simp: less_8 ty_def im16_def dino_def fs_consts xfsck_example_def)

lemma example_zero:
  "a < 512 \<or> 520 < a \<and> a < 1088 \<or> 1100 < a \<and> a < 2048 \<or> 2051 < a \<and> a < 15360 \<or> 15379 < a \<Longrightarrow> ibyte xfsck_example a = 0"
  by (auto simp: xfsck_example_def)

lemma example_addr: "i < 8 \<Longrightarrow> j \<le> 12 \<Longrightarrow> ia xfsck_example i j = (if i = 1 \<and> j = 0 then 30 else 0)"
proof -
  assume i: "i < 8" "j \<le> 12"
  have "ia xfsck_example i j = 0" if "\<not> (i = 1 \<and> j = 0)"
  proof -
    have "i = 0 \<or> i = 1 \<and> 1 \<le> j \<or> 2 \<le> i" using that by auto
    then show ?thesis
      using i by (auto simp: ia_def im32_def dino_def fs_consts example_zero)
  qed
  moreover have "ia xfsck_example 1 0 = 30"
    by (simp add: ia_def im32_def dino_def fs_consts xfsck_example_def)
  ultimately show ?thesis by auto
qed

lemma blk_simps: "blk 0 = 0" "blk 30 = 15360"
  by (simp_all add: blk_def BSIZE_def)

lemma example_block0: "k < 128 \<Longrightarrow> ind xfsck_example 0 k = 0" "h < 32 \<Longrightarrow> inum_at xfsck_example 0 h = 0"
  by (auto simp: ind_def inum_at_def im32_def im16_def blk_simps fs_consts example_zero)

lemma example_block30:
  assumes "h < 32"
  shows "inum_at xfsck_example 30 h = (if h < 2 then 1 else 0)"
    "named xfsck_example 30 h [46] \<longleftrightarrow> h = 0" "named xfsck_example 30 h [46, 46] \<longleftrightarrow> h = 1"
proof -
  consider "h = 0" | "h = 1" | "2 \<le> h" by linarith
  then show "inum_at xfsck_example 30 h = (if h < 2 then 1 else 0)"
    "named xfsck_example 30 h [46] \<longleftrightarrow> h = 0" "named xfsck_example 30 h [46, 46] \<longleftrightarrow> h = 1"
    by (cases; simp add: inum_at_def im16_def named_def blk_simps fs_consts example_zero; simp add: xfsck_example_def)+
qed

lemma example_marked: "b < 36 \<Longrightarrow> marked xfsck_example b \<longleftrightarrow> b < 5 \<or> b = 30"
proof -
  assume "b < 36"
  then have "b \<in> set [0..<36]" by simp
  then show ?thesis
    unfolding marked_def example_geometry
    by (simp add: upt_rec xfsck_example_def) (elim disjE; simp add: bit_simps)
qed

lemma example_lists:
  "dirs xfsck_example = [1]"
  "i < 8 \<Longrightarrow> set (addrs_of xfsck_example i) = (if i = 1 then {0, 30} else {0})"
  "i < 8 \<Longrightarrow> indirects xfsck_example i = replicate 128 0"
  "set (dir_blocks xfsck_example 1) = {0, 30}"
  "data_blocks xfsck_example 1 = [30]" "i < 8 \<Longrightarrow> blocks_of xfsck_example i = (if i = 1 then {30} else {})"
proof -
  have "map (ty xfsck_example) [0..<8] = map (\<lambda>i. if i = 1 then 1 else 0) [0..<8]"
    by (intro map_cong) (simp_all add: example_type)
  show d: "dirs xfsck_example = [1]"
    unfolding dirs_def example_geometry by (simp add: upt_rec example_type T_DIR_def)
  have n: "ia xfsck_example i 12 = 0" if "i < 8" for i
    using that by (simp add: example_addr)
  show a: "set (addrs_of xfsck_example i) = (if i = 1 then {0, 30} else {0})" if "i < 8" for i
  proof -
    have "addrs_of xfsck_example i = map (\<lambda>j. if i = 1 \<and> j = 0 then 30 else 0) [0..<13]"
      unfolding addrs_of_def using that by (intro map_cong) (auto simp: example_addr fs_consts)
    then show ?thesis by (simp add: upt_rec insert_commute)
  qed
  show ind: "indirects xfsck_example i = replicate 128 0" if "i < 8" for i
    using n [OF that] by (intro nth_equalityI) (simp_all add: indirects_def fs_consts example_block0)
  have m: "map (ia xfsck_example 1) [0..<12] = 30 # replicate 11 0"
    by (intro nth_equalityI) (auto simp: example_addr nth_Cons')
  then show "set (dir_blocks xfsck_example 1) = {0, 30}"
    unfolding dir_blocks_def NDIRECT_def m using ind [of 1] by auto
  show "data_blocks xfsck_example 1 = [30]"
    unfolding data_blocks_def NDIRECT_def m using n [of 1] by simp
  show "blocks_of xfsck_example i = (if i = 1 then {30} else {})" if "i < 8"
    unfolding blocks_of_def a [OF that] NDIRECT_def n [OF that] by auto
qed

lemma example_consistent: "consistent xfsck_example"
proof -
  let ?e = "xfsck_example"
  have used: "used ?e i \<longleftrightarrow> i = 1" for i
    using example_type [of i] by (auto simp: example_geometry split: if_splits)
  have "\<forall>a \<in> set (dir_blocks ?e 1). \<forall>h \<in> set [2..<num_dirent]. inum_at ?e a h \<noteq> 1"
    unfolding example_lists(4) by (auto simp: example_block30 example_block0 fs_consts)
  then have "1 \<notin> set (links_from 2 ?e)"
    unfolding links_from_def example_lists(1) by (force simp del: One_nat_def)
  then have c: "count_list (links_from 2 ?e) 1 = 0"
    by (rule count_notin)
  have sz: "im32 ?e (dino 1 + 8) = 512"
    by (simp add: im32_def dino_def fs_consts xfsck_example_def)
  have b: "inum_at ?e 30 0 = 1" "inum_at ?e 0 0 = 0" "(0 :: nat) < num_dirent"
    by (simp_all add: example_block30 example_block0 fs_consts)
  have e0: "entry_names ?e 1 0"
    unfolding example_lists(4) using b by (intro bexI [of _ 0] exI [of _ 0]) simp_all
  have e1: "entry_names ?e 1 1"
    unfolding example_lists(4) using b by (intro bexI [of _ 30] exI [of _ 0]) simp_all
  have fwd: "i = 0 \<or> i = 1" if "entry_names ?e 1 i" for i
    using that unfolding example_lists(4) by (auto simp: example_block30 example_block0 fs_consts split: if_splits)
  have en: "entry_names ?e 1 i \<longleftrightarrow> i = 0 \<or> i = 1" for i
    by (rule iffI, rule fwd, assumption, elim disjE) (simp_all only: e0 e1)
  have nm: "named ?e (ia ?e 1 0) h [46] \<longleftrightarrow> h = 0" "named ?e (ia ?e 1 0) h [46, 46] \<longleftrightarrow> h = 1"
    "inum_at ?e (ia ?e 1 0) h = (if h < 2 then 1 else 0)" if "h < num_dirent" for h
    using that example_block30 [of h] by (simp_all add: example_addr fs_consts)
  have nd: "(0 :: nat) < num_dirent" "1 < num_dirent" "0 < NDIRECT" by (simp_all add: fs_consts)
  have f: "\<exists>h < num_dirent. named ?e (ia ?e 1 0) h [46]" "\<exists>h < num_dirent. named ?e (ia ?e 1 0) h [46, 46]"
    using nm(1) [of 0] nm(2) [of 1] nd by blast+
  show ?thesis
    unfolding consistent_def Let_def
    unfolding used
    unfolding example_geometry
  proof (intro conjI)
    show "40 \<le> sb_size (the_sb ?e)" by (simp add: example_sb)
    show "\<forall>i. i = 1 \<longrightarrow> ty ?e i \<in> {T_DIR, T_FILE, T_DEV}" by (simp add: example_type fs_consts)
    show "\<forall>i. i = 1 \<longrightarrow> (\<forall>b \<in> blocks_of ?e i. 4 \<le> b \<and> b \<le> 39)" by (simp add: example_lists)
    show "\<forall>i. i = 1 \<longrightarrow> (\<forall>b \<in> blocks_of ?e i. marked ?e (unat b)) \<and> (\<forall>b \<in> set (indirects ?e i). marked ?e (unat b))"
      by (simp add: example_lists example_marked)
    show "\<forall>d \<in> set (dirs ?e). (\<exists>h < num_dirent. named ?e (ia ?e d 0) h [46])
          \<and> (\<forall>h < num_dirent. named ?e (ia ?e d 0) h [46] \<longrightarrow> inum_at ?e (ia ?e d 0) h = d)
          \<and> (\<exists>h < num_dirent. named ?e (ia ?e d 0) h [46, 46])"
      unfolding example_lists(1) using f nm(1,3) by auto
    show "\<forall>b. 29 \<le> b \<longrightarrow> b < unat (sb_nblocks (the_sb ?e)) \<longrightarrow> marked ?e b \<longrightarrow>
        (\<exists>i < 8. of_nat b \<in> set (addrs_of ?e i) \<union> set (indirects ?e i))"
      by (auto simp: example_sb example_marked example_lists intro!: exI [of _ 1])
    show "\<forall>i j k h. i = 1 \<longrightarrow> j < NDIRECT \<longrightarrow> ia ?e i j \<noteq> 0 \<longrightarrow> i \<le> k \<longrightarrow> k < unat (1 :: u32) \<longrightarrow> h < NDIRECT \<longrightarrow>
          (k, h) \<noteq> (i, j) \<longrightarrow> ia ?e k h \<noteq> ia ?e i j"
      by simp
    show "\<forall>i. i = 1 \<longrightarrow> im32 ?e (dino i + 8) = 0 \<or> unat (im32 ?e (dino i + 8)) \<le> 512 * length (data_blocks ?e i)
          \<and> 512 * length (data_blocks ?e i) \<le> unat (im32 ?e (dino i + 8)) + 512"
      using sz by (simp add: example_lists del: One_nat_def)
    show "\<forall>i. i = 1 \<longrightarrow> (\<exists>d \<in> set (dirs ?e). entry_names ?e d (i mod 65536))"
      using e1 by (simp add: example_lists(1) del: One_nat_def)
    show "\<forall>d \<in> set (dirs ?e). \<forall>i. entry_names ?e d i \<longrightarrow> i \<noteq> 0 \<longrightarrow> ty ?e i \<noteq> 0"
      using en by (auto simp: example_lists(1) example_type)
    show "\<forall>i. i = 1 \<longrightarrow> ty ?e i = T_FILE \<longrightarrow> int (count_list (links_from 0 ?e) i) = sint (im16 ?e (dino i + 6))"
      by (simp add: example_type fs_consts)
    show "\<forall>d \<in> set (dirs ?e). count_list (links_from 2 ?e) d = (if d = hd (dirs ?e) then 0 else 1)"
      using c by (simp add: example_lists(1))
    show "\<forall>d \<in> set (dirs ?e). \<exists>k < NDIRECT. \<exists>h < num_dirent. named ?e (ia ?e d k) h [46, 46]
          \<and> (\<exists>j < NDIRECT. \<exists>g < num_dirent. inum_at ?e (ia ?e (inum_at ?e (ia ?e d k) h) j) g = d)"
    proof
      fix d assume "d \<in> set (dirs ?e)"
      then have d: "d = 1" by (simp add: example_lists(1))
      have g: "named ?e (ia ?e 1 0) 1 [46, 46]" "inum_at ?e (ia ?e (inum_at ?e (ia ?e 1 0) 1) 0) 0 = 1"
        using nm(2,3) [of 1] nm(3) [of 0] nd by simp_all
      then show "\<exists>k < NDIRECT. \<exists>h < num_dirent. named ?e (ia ?e d k) h [46, 46]
          \<and> (\<exists>j < NDIRECT. \<exists>g < num_dirent. inum_at ?e (ia ?e (inum_at ?e (ia ?e d k) h) j) g = d)"
        unfolding d using nd by blast
    qed
  qed
qed

lemma example_fits: "fits xfsck_example"
proof -
  have sz: "isize xfsck_example = 20480" by (simp add: xfsck_example_def)
  have im: "in_image xfsck_example a" if "a = 0 \<or> a = 30" for a
    using that by (auto simp: in_image_def blk_simps example_geometry sz BSIZE_def)
  have "in_image xfsck_example a" if "i < 8" "a \<in> set (addrs_of xfsck_example i) \<union> set (indirects xfsck_example i)" for a i
    using that example_lists(2,3) [OF that(1)] by (intro im) (auto split: if_splits)
  moreover have "inum_at xfsck_example a h < 8" if "a \<in> set (dir_blocks xfsck_example 1)" "h < num_dirent" for a h
    using that unfolding example_lists(4) by (auto simp: example_block30 example_block0 fs_consts)
  moreover have "unat (sb_nblocks (the_sb xfsck_example)) = 36" "unat (sb_ninodes (the_sb xfsck_example)) = 8"
    by (simp_all add: example_sb)
  ultimately show ?thesis
    unfolding fits_def example_geometry example_lists(1) sz by (simp add: dino_def fs_consts)
qed


end
