(* ===== verification/Spec2Isabelle.thy ===== *)
theory Spec2Isabelle
  imports Spinlock Fork Syscall Shell_Run Grep Ulib Xfsck
begin

text \<open>
  \<^bold>\<open>A verification library for this version of xv6.\<close>

  \<^bold>\<open>The program.\<close> xv6 is a small Unix-like kernel in C for the x86, with user programs and
  two tools that run on the host. This version adds to it a multi-level feedback queue
  scheduler, threads (\<open>clone\<close> and \<open>join\<close>), page protection, an allocator that hands out a
  random free page, semaphores and a count of open files. A user program traps into
  \<open>kernel/trap.c\<close>; \<open>kernel/syscall.c\<close> fetches the arguments and dispatches to the handlers of
  \<open>kernel/sysproc.c\<close> and \<open>kernel/sysfile.c\<close>, which work on processes (\<open>kernel/proc.c\<close>), address
  spaces (\<open>kernel/vm.c\<close> on \<open>kernel/kalloc.c\<close>) and files (\<open>kernel/file.c\<close>, \<open>kernel/pipe.c\<close> and
  \<open>kernel/fs.c\<close> on the buffer cache \<open>kernel/bio.c\<close> and the disk \<open>kernel/ide.c\<close>).

  \<^bold>\<open>The method.\<close> Every C function is a HOL function. A function that reads or writes
  global state is an operation of the state-and-fault monad of theory \<open>Prelude\<close>: it maps a
  state to a result with a new state, or to a fault. The faults are a \<open>panic\<close>, an access
  that C leaves undefined, a division by zero, a sleep and a loop without end. The global
  variables are the fields of a record that each theory extends: the random seed, then the
  physical memory with its free list, the page directories, the process table, the buffers
  and the disk, the inode cache, the open files and pipes, and the console. Pointers into
  kernel tables are indices; machine integers are words of their width; addresses are
  32-bit words into a byte memory. The kernel runs with interrupts off or under a lock
  between two points where a process can be switched out, so an operation is one step; a
  call that has to wait ends at the point where it sleeps and is called again when the
  process wakes. Locks themselves are treated in theory \<open>Spinlock\<close>.

  \<^bold>\<open>The theories.\<close>
  \<^item> \<open>Prelude\<close>: words, the byte memory, the monad and its rules.
  \<^item> \<open>Rand\<close>: \<open>kernel/rand.c\<close>. The generator is a bijection that never reaches zero.
  \<^item> \<open>Kstring\<close>: \<open>kernel/string.c\<close>. \<open>memmove\<close> on overlapping ranges, termination of copied strings.
  \<^item> \<open>Kalloc\<close>: \<open>kernel/kalloc.c\<close>. The free list as an abstract list of pages; \<open>kalloc\<close> takes one
    of its pages and keeps the rest; the record of allocated frames and its overflow; \<open>kinit\<close>.
  \<^item> \<open>Vm\<close>: \<open>kernel/vm.c\<close>. Page tables in the byte memory; what \<open>mappages\<close>, \<open>mprotect\<close> and
    \<open>munprotect\<close> change and what they leave alone; a copied address space.
  \<^item> \<open>Proc_State\<close>, \<open>Mlfq\<close>, \<open>Proc\<close>, \<open>Lifecycle\<close>: \<open>kernel/proc.c\<close>. The process table, the feedback
    queues and the scheduler, sleep and wakeup, \<open>wait\<close>, \<open>join\<close>, \<open>kill\<close>, \<open>fork\<close>, \<open>clone\<close> and \<open>exit\<close>.
  \<^item> \<open>Fork\<close>: what a call of \<open>fork\<close> gives the child, on every branch: its slot, its references to
    open files and its address space, a copy of the caller's on frames of its own.
  \<^item> \<open>Semaphore\<close>: the semaphores of \<open>kernel/proc.c\<close> as a step relation.
  \<^item> \<open>Spinlock\<close>: \<open>kernel/spinlock.c\<close> as an interleaving of atomic steps of several processors.
  \<^item> \<open>Bio\<close>: \<open>kernel/bio.c\<close> and the requests of \<open>kernel/ide.c\<close>. The locale \<open>block_store\<close> is the
    contract of a store of blocks; the cache is an interpretation of it.
  \<^item> \<open>Layout\<close>, \<open>Fs\<close>: \<open>include/fs.h\<close> and \<open>kernel/fs.c\<close>. Encoding of inodes and directory entries,
    block allocation in the bitmap, inodes, file contents, directories and paths.
  \<^item> \<open>File\<close>: \<open>kernel/file.c\<close> and \<open>kernel/pipe.c\<close>. A pipe as a queue of bytes.
  \<^item> \<open>Usermem\<close>, \<open>Exec\<close>, \<open>Sysfile\<close>, \<open>Syscall\<close>: arguments of system calls, \<open>kernel/exec.c\<close>, the
    handlers, the dispatch and \<open>kernel/trap.c\<close>.
  \<^item> \<open>Console\<close>: \<open>kernel/console.c\<close>, \<open>kernel/kbd.c\<close> and \<open>kernel/uart.c\<close>. The input ring and the screen.
  \<^item> \<open>Shell\<close>, \<open>Shell_Run\<close>: \<open>user/sh.c\<close>. The parser of command lines, its termination and the round
    trip with a printer; the system calls that run a command, and the descriptors its
    programs get.
  \<^item> \<open>Grep\<close>: \<open>user/grep.c\<close>. The matcher against the language of the pattern; the lines printed.
  \<^item> \<open>Ulib\<close>: \<open>user/ulib.c\<close> and \<open>user/printf.c\<close>. Numbers are printed and read back.
  \<^item> \<open>Xfsck\<close>: \<open>tools/xfsck.c\<close>, the checker of file system images, and what the images it accepts
    satisfy.

  \<^bold>\<open>Bounds and fuel.\<close> The loops of the kernel are recursions on what they have left to do, and
  need no fuel, with these exceptions: a walk along a list in memory is bounded by the
  number of pages there are, and ends in \<open>Diverge\<close> after that, which the invariants exclude;
  the parser of the shell has four units of fuel for each byte of the line, and the first
  theorem of \<open>Shell\<close> shows that they suffice.

  \<^bold>\<open>Parameters.\<close> The table of device functions (\<open>devsw\<close>) is an argument of the file
  operations and is given the console's functions in theory \<open>Console\<close>. The word at the address
  of a channel (\<open>wakeup2\<close> compares words, not addresses), the bytes a device delivers and the
  frame pointers of suspended processes are arguments too.

  \<^bold>\<open>Not modelled.\<close> The boot code, the assembly files and the context switch, which have no
  meaning in C; the programming of the interrupt controllers, the timer and the serial
  port, and the search for the multiprocessor tables, which only write device registers or
  read firmware memory; the lock and interrupt set-up functions; segment descriptors.
\<close>

end
